(* ===== verification/Prelude.thy ===== *)
theory Prelude
  imports Main "HOL-Library.Word" "HOL-Library.AList" "HOL-Library.Sublist"
    "HOL-Library.List_Lexorder" "HOL-Library.Char_ord" "HOL-Library.Multiset"
begin

section \<open>Shared vocabulary\<close>

text \<open>
  What the components share: the names of the machine types, the parts of the
  C++ standard library the sources use on strings (character classes, \<open>find\<close>,
  \<open>find_first_of\<close>, \<open>substr\<close>, \<open>replace\<close>, \<open>std::search\<close>, \<open>getline\<close>), and lemmas on
  lists that are used by more than one component.

  A \<open>std::string\<close> and a \<open>std::string_view\<close> are a \<^typ>\<open>string\<close> (a list of bytes). A position of
  type \<open>size_t\<close> is a \<^typ>\<open>nat\<close>; a search result is an option, where \<^term>\<open>None\<close> is \<open>npos\<close> (or,
  for the iterator versions, the end iterator).
\<close>

named_theorems cxx_defs \<open>definitions of the standard library vocabulary\<close>

type_synonym u8 = "8 word"
type_synonym u32 = "32 word"
type_synonym u64 = "64 word"

unbundle bit_operations_syntax

subsection \<open>Characters\<close>

abbreviation NL :: char where "NL \<equiv> CHR 0x0A"
abbreviation DQUOTE :: char where "DQUOTE \<equiv> CHR 0x22"
abbreviation SQUOTE :: char where "SQUOTE \<equiv> CHR 0x27"
abbreviation BSLASH :: char where "BSLASH \<equiv> CHR 0x5C"

abbreviation code_of :: "char \<Rightarrow> nat" where "code_of c \<equiv> of_char c"

definition isspace :: "char \<Rightarrow> bool" where
  [cxx_defs]: "isspace c \<longleftrightarrow> code_of c = 32 \<or> (9 \<le> code_of c \<and> code_of c \<le> 13)"

definition isdigit :: "char \<Rightarrow> bool" where
  [cxx_defs]: "isdigit c \<longleftrightarrow> 48 \<le> code_of c \<and> code_of c \<le> 57"

definition isupper :: "char \<Rightarrow> bool" where
  [cxx_defs]: "isupper c \<longleftrightarrow> 65 \<le> code_of c \<and> code_of c \<le> 90"

definition islower :: "char \<Rightarrow> bool" where
  [cxx_defs]: "islower c \<longleftrightarrow> 97 \<le> code_of c \<and> code_of c \<le> 122"

definition isalpha :: "char \<Rightarrow> bool" where
  [cxx_defs]: "isalpha c \<longleftrightarrow> isupper c \<or> islower c"

definition isalnum :: "char \<Rightarrow> bool" where
  [cxx_defs]: "isalnum c \<longleftrightarrow> isalpha c \<or> isdigit c"

definition tolower :: "char \<Rightarrow> char" where
  [cxx_defs]: "tolower c = (if isupper c then char_of (code_of c + 32) else c)"

subsection \<open>Searching\<close>

text \<open>
  \<open>search p s\<close> is \<open>std::search\<close>: the offset of the first occurrence of \<open>p\<close> in \<open>s\<close>.
  \<open>find_str\<close> is \<open>find(p, pos)\<close> and \<open>rfind_str\<close> is \<open>rfind(p)\<close> of a string.
\<close>

fun search :: "'a list \<Rightarrow> 'a list \<Rightarrow> nat option" where
  "search p [] = (if p = [] then Some 0 else None)"
| "search p (x # s) = (if prefix p (x # s) then Some 0 else map_option Suc (search p s))"

definition find_str :: "string \<Rightarrow> string \<Rightarrow> nat \<Rightarrow> nat option" where
  [cxx_defs]: "find_str p s pos =
     (if length s < pos then None else map_option (\<lambda>i. pos + i) (search p (drop pos s)))"

fun rfind_str :: "string \<Rightarrow> string \<Rightarrow> nat option" where
  "rfind_str p [] = (if p = [] then Some 0 else None)"
| "rfind_str p (x # s) =
     (case rfind_str p s of
        Some i \<Rightarrow> Some (Suc i)
      | None \<Rightarrow> if prefix p (x # s) then Some 0 else None)"

text \<open>\<open>std::find_if\<close> on a range, as an offset; with it \<open>find_first_of\<close> and its kin.\<close>

fun find_idx :: "('a \<Rightarrow> bool) \<Rightarrow> 'a list \<Rightarrow> nat option" where
  "find_idx P [] = None"
| "find_idx P (x # xs) = (if P x then Some 0 else map_option Suc (find_idx P xs))"

fun find_last_idx :: "('a \<Rightarrow> bool) \<Rightarrow> 'a list \<Rightarrow> nat option" where
  "find_last_idx P [] = None"
| "find_last_idx P (x # xs) =
     (case find_last_idx P xs of
        Some i \<Rightarrow> Some (Suc i)
      | None \<Rightarrow> if P x then Some 0 else None)"

definition contains_str :: "string \<Rightarrow> string \<Rightarrow> bool" where
  [cxx_defs]: "contains_str s p \<longleftrightarrow> search p s \<noteq> None"

text \<open>\<open>substr\<close> with a count; \<open>std::replace\<close> of one character by another.\<close>

definition substr :: "string \<Rightarrow> nat \<Rightarrow> nat \<Rightarrow> string" where
  [cxx_defs]: "substr s pos n = take n (drop pos s)"

definition replace_char :: "char \<Rightarrow> char \<Rightarrow> string \<Rightarrow> string" where
  [cxx_defs]: "replace_char a b s = map (\<lambda>c. if c = a then b else c) s"

text \<open>
  \<open>std::getline\<close> until the stream fails: the segments between delimiters, without a last
  empty one.
\<close>

fun getlines :: "char \<Rightarrow> string \<Rightarrow> string \<Rightarrow> string list" where
  "getlines d acc [] = (if acc = [] then [] else [acc])"
| "getlines d acc (c # s) =
     (if c = d then acc # getlines d [] s else getlines d (acc @ [c]) s)"

subsection \<open>Laws of the searches\<close>

lemma search_SomeD:
  "search p s = Some i \<Longrightarrow> i \<le> length s \<and> prefix p (drop i s)"
proof (induction s arbitrary: i)
  case Nil
  then show ?case by (auto split: if_splits)
next
  case (Cons x s)
  then show ?case by (cases i) (auto split: if_splits)
qed

lemma search_first: "search p s = Some i \<Longrightarrow> j < i \<Longrightarrow> \<not> prefix p (drop j s)"
proof (induction s arbitrary: i j)
  case Nil
  then show ?case by (auto split: if_splits)
next
  case (Cons x s)
  then show ?case by (cases j) (auto split: if_splits)
qed

lemma search_None_iff: "search p s = None \<longleftrightarrow> \<not> sublist p s"
proof (induction s)
  case Nil
  then show ?case by (auto simp: sublist_def)
next
  case (Cons x s)
  then show ?case by (auto simp: sublist_Cons_right)
qed

lemma contains_str_sublist: "contains_str s p \<longleftrightarrow> sublist p s"
  using search_None_iff [of p s] by (auto simp: contains_str_def)

lemma search_Some_split:
  assumes "search p s = Some i"
  shows "s = take i s @ p @ drop (i + length p) s"
proof -
  from assms have "prefix p (drop i s)" by (auto dest: search_SomeD)
  then obtain t where t: "drop i s = p @ t" by (auto simp: prefix_def)
  then have "drop (i + length p) s = t"
    by (metis add.commute append_eq_conv_conj drop_drop)
  with t show ?thesis by (metis append_take_drop_id)
qed

lemma search_length: "search p s = Some i \<Longrightarrow> i + length p \<le> length s"
proof -
  assume "search p s = Some i"
  then have "i \<le> length s" and "prefix p (drop i s)" by (auto dest: search_SomeD)
  then show ?thesis by (auto dest: prefix_length_le)
qed

lemma search_drop: "search p s = Some i \<Longrightarrow> drop i s = p @ drop (i + length p) s"
proof -
  assume a: "search p s = Some i"
  then have "i \<le> length s" by (auto dest: search_SomeD)
  then show ?thesis
    using search_Some_split [OF a] by (metis append_eq_conv_conj length_take min.absorb2)
qed

lemma search_between:
  assumes "search p (drop n s) = Some k" "search q (drop (n + k + length p) s) = Some j"
  shows "substr s (n + k) (length p + j + length q) = p @ take j (drop (n + k + length p) s) @ q"
proof -
  let ?x = "drop (n + k + length p) s"
  have "drop (n + k) s = p @ ?x" using search_drop [OF assms(1)] by (simp add: ac_simps)
  moreover have x: "?x = take j ?x @ q @ drop (j + length q) ?x" by (rule search_Some_split [OF assms(2)])
  moreover have "length (take j ?x) = j" using assms(2) by (auto dest: search_SomeD)
  ultimately have "substr s (n + k) (length p + j + length q) =
      take (length (p @ take j ?x @ q)) ((p @ take j ?x @ q) @ drop (j + length q) ?x)"
    unfolding substr_def by (metis append_assoc length_append add.assoc)
  then show ?thesis by (metis append_eq_conv_conj)
qed

lemma find_str_bounds:
  "find_str p s pos = Some i \<Longrightarrow> pos \<le> i \<and> i + length p \<le> length s"
  by (auto simp: find_str_def split: if_splits dest!: search_length)

lemma find_idx_None_iff: "find_idx P xs = None \<longleftrightarrow> (\<forall>x\<in>set xs. \<not> P x)"
  by (induction xs) auto

lemma find_idx_SomeD:
  "find_idx P xs = Some i \<Longrightarrow> i < length xs \<and> P (xs ! i) \<and> (\<forall>j<i. \<not> P (xs ! j))"
proof (induction xs arbitrary: i)
  case Nil
  then show ?case by simp
next
  case (Cons x xs)
  show ?case
  proof (cases "P x")
    case True
    with Cons.prems show ?thesis by auto
  next
    case False
    with Cons.prems obtain k where k: "find_idx P xs = Some k" "i = Suc k"
      by auto
    with Cons.IH [of k] False show ?thesis by (auto simp: less_Suc_eq_0_disj)
  qed
qed

lemma find_idx_append_left: "\<forall>x\<in>set xs. \<not> P x \<Longrightarrow> P y \<Longrightarrow> find_idx P (xs @ y # ys) = Some (length xs)"
  by (induction xs) auto

lemma find_idx_char: "c \<notin> set xs \<Longrightarrow> find_idx (\<lambda>x. x = c) (xs @ c # ys) = Some (length xs)"
  by (induction xs) auto

lemma find_idx_char_None: "c \<notin> set xs \<Longrightarrow> find_idx (\<lambda>x. x = c) xs = None"
  by (induction xs) auto

text \<open>The first occurrence of a pattern that is not cut into by what stands before it.\<close>

lemma search_at:
  assumes "p \<noteq> []" "\<not> sublist p (a @ butlast p)"
  shows "search p (a @ p @ b) = Some (length a)"
  using assms(2)
proof (induction a)
  case Nil
  then show ?case using assms(1) by (cases p) auto
next
  case (Cons c a)
  have "\<not> prefix p (c # a @ p @ b)"
  proof
    assume pr: "prefix p (c # a @ p @ b)"
    have "prefix (c # a @ butlast p) (c # a @ p @ b)"
      using assms(1) by (metis append_butlast_last_id append_Cons append_assoc prefixI same_prefix_prefix)
    with pr have "prefix p (c # a @ butlast p)"
      by (rule prefix_length_prefix) simp
    then show False using Cons.prems by (simp add: prefix_imp_sublist)
  qed
  moreover have "\<not> sublist p (a @ butlast p)"
    using Cons.prems by (auto simp: sublist_Cons_right)
  ultimately show ?case using Cons.IH by simp
qed

lemma length_replace_char [simp]: "length (replace_char a b s) = length s"
  by (simp add: replace_char_def)

lemma replace_char_id: "a \<notin> set s \<Longrightarrow> replace_char a b s = s"
  by (induction s) (auto simp: replace_char_def)

lemma replace_char_inverse: "b \<notin> set s \<Longrightarrow> replace_char b a (replace_char a b s) = s"
  by (induction s) (auto simp: replace_char_def)

lemma replace_char_append [simp]: "replace_char a b (s @ t) = replace_char a b s @ replace_char a b t"
  by (simp add: replace_char_def)

lemma replace_char_double:
  "b \<notin> set s \<Longrightarrow> sublist [b, b] (replace_char a b s) \<Longrightarrow> sublist [a, a] s"
proof (induction s)
  case (Cons c s)
  then show ?case
    by (cases s) (auto simp: replace_char_def sublist_Cons_right split: if_splits)
qed (simp add: replace_char_def)

subsection \<open>Runs of one character\<close>

lemma sublist_run_append:
  assumes "\<not> sublist (replicate n k) x" "\<not> sublist (replicate n k) y"
    and "x = [] \<or> y = [] \<or> last x \<noteq> k \<or> hd y \<noteq> k"
  shows "\<not> sublist (replicate n k) (x @ y)"
proof
  assume "sublist (replicate n k) (x @ y)"
  then obtain u v where uv: "replicate n k = u @ v" "suffix u x" "prefix v y"
    using assms(1,2) by (auto simp: sublist_append)
  have "u \<noteq> []" using uv assms(2) by (metis append_Nil prefix_imp_sublist)
  moreover have "v \<noteq> []" using uv assms(1) by (metis append_Nil2 suffix_imp_sublist)
  moreover have "set u \<union> set v \<subseteq> {k}"
    using uv(1) set_replicate_conv_if [of n k] by (metis set_append empty_subsetI subset_refl)
  ultimately have "last u = k" "hd v = k" using last_in_set [of u] hd_in_set [of v] by blast+
  then have "last x = k" "hd y = k" "x \<noteq> []" "y \<noteq> []"
    using uv(2,3) \<open>u \<noteq> []\<close> \<open>v \<noteq> []\<close> by (auto simp: suffix_def prefix_def)
  with assms(3) show False by blast
qed

lemma sublist_run_short: "length x < n \<Longrightarrow> \<not> sublist (replicate n k) x"
  using sublist_length_le by fastforce

lemma sublist_run_other: "k \<notin> set x \<Longrightarrow> 0 < n \<Longrightarrow> \<not> sublist (replicate n k) x"
  using set_mono_sublist by fastforce

subsection \<open>Order of elements in a list\<close>

text \<open>\<open>before xs a b\<close>: some occurrence of \<open>a\<close> in \<open>xs\<close> comes strictly before one of \<open>b\<close>.\<close>

fun before :: "'a list \<Rightarrow> 'a \<Rightarrow> 'a \<Rightarrow> bool" where
  "before [] a b = False"
| "before (x # xs) a b = ((x = a \<and> b \<in> set xs) \<or> before xs a b)"

lemma before_in_set: "before xs a b \<Longrightarrow> a \<in> set xs \<and> b \<in> set xs"
  by (induction xs) auto

lemma before_append:
  "before (xs @ ys) a b \<longleftrightarrow> before xs a b \<or> before ys a b \<or> (a \<in> set xs \<and> b \<in> set ys)"
  by (induction xs) auto

lemma before_asym: "distinct xs \<Longrightarrow> before xs a b \<Longrightarrow> \<not> before xs b a"
  by (induction xs) (auto dest: before_in_set)

lemma before_trans: "distinct xs \<Longrightarrow> before xs a b \<Longrightarrow> before xs b c \<Longrightarrow> before xs a c"
  by (induction xs) (auto dest: before_in_set)

lemma subseq_if_before:
  "distinct xs \<Longrightarrow> distinct ys \<Longrightarrow> set ys \<subseteq> set xs \<Longrightarrow>
   (\<And>a b. before ys a b \<Longrightarrow> before xs a b) \<Longrightarrow> subseq ys xs"
proof (induction xs arbitrary: ys)
  case Nil
  then show ?case by simp
next
  case (Cons x xs)
  show ?case
  proof (cases "x \<in> set ys")
    case False
    have "\<And>a b. before ys a b \<Longrightarrow> before xs a b"
      using Cons.prems(4) False by (fastforce dest: before_in_set)
    with False Cons.prems have "subseq ys xs"
      by (intro Cons.IH) auto
    then show ?thesis by (rule list_emb_Cons)
  next
    case True
    then obtain us vs where ys: "ys = us @ x # vs" by (auto dest: split_list)
    have "us = []"
    proof (rule ccontr)
      assume "us \<noteq> []"
      then obtain u where u: "u \<in> set us" by (cases us) auto
      with ys have "before ys u x" by (auto simp: before_append)
      then have "before (x # xs) u x" by (rule Cons.prems)
      with Cons.prems(1) show False by (auto dest: before_in_set)
    qed
    with ys have ys': "ys = x # vs" by simp
    have "subseq vs xs"
    proof (rule Cons.IH)
      show "distinct xs" "distinct vs" using Cons.prems ys' by auto
      show "set vs \<subseteq> set xs" using Cons.prems ys' by auto
      fix a b assume ab: "before vs a b"
      with ys' have "before (x # xs) a b" by (intro Cons.prems) simp
      moreover have "a \<noteq> x" using ab ys' Cons.prems by (auto dest: before_in_set)
      ultimately show "before xs a b" by auto
    qed
    with ys' show ?thesis by simp
  qed
qed

subsection \<open>Consecutive elements\<close>

fun pairs :: "'a list \<Rightarrow> ('a \<times> 'a) list" where
  "pairs (x # y # xs) = (x, y) # pairs (y # xs)"
| "pairs xs = []"

lemma pairs_in_set: "(a, b) \<in> set (pairs xs) \<Longrightarrow> a \<in> set xs \<and> b \<in> set xs"
  by (induction xs rule: pairs.induct) auto

lemma distinct_pairs: "distinct xs \<Longrightarrow> distinct (pairs xs)"
  by (induction xs rule: pairs.induct) (auto dest: pairs_in_set)

lemma before_of_pairs:
  assumes "distinct ys" and "\<And>a b. (a, b) \<in> set (pairs xs) \<Longrightarrow> before ys a b"
  shows "before xs a b \<Longrightarrow> before ys a b"
  using assms
proof (induction xs arbitrary: a b rule: pairs.induct)
  case (1 x y xs)
  have xy: "before ys x y" using "1.prems" by simp
  have IH: "\<And>a b. before (y # xs) a b \<Longrightarrow> before ys a b"
    using "1.IH" "1.prems" by auto
  show ?case
  proof (cases "before (y # xs) a b")
    case True
    then show ?thesis by (rule IH)
  next
    case False
    with "1.prems" have a: "a = x" and b: "b = y \<or> b \<in> set xs" by auto
    show ?thesis
    proof (cases "b = y")
      case True
      with xy a show ?thesis by simp
    next
      case False
      with b have "before (y # xs) y b" by simp
      then have "before ys y b" by (rule IH)
      with xy a "1.prems" show ?thesis by (blast intro: before_trans)
    qed
  qed
qed auto

subsection \<open>Splitting a range at an index\<close>

lemma take_Suc_nth: "i < length xs \<Longrightarrow> take (Suc i) xs = take i xs @ [xs ! i]"
  by (simp add: take_Suc_conv_app_nth)

subsection \<open>Encoders and their decoders\<close>

text \<open>
  The contract of a pair of an encoder and a decoder: encoding a value of the domain \<open>ok\<close>
  succeeds, and decoding gives the value back.
\<close>

locale codec =
  fixes ok :: "'a \<Rightarrow> bool"
    and enc :: "'a \<Rightarrow> 'b option"
    and dec :: "'b \<Rightarrow> 'a option"
  assumes enc_total: "ok x \<Longrightarrow> \<exists>y. enc x = Some y"
    and dec_enc: "ok x \<Longrightarrow> enc x = Some y \<Longrightarrow> dec y = Some x"
begin

lemma enc_inject: "ok x \<Longrightarrow> ok x' \<Longrightarrow> enc x = enc x' \<Longrightarrow> x = x'"
  using enc_total dec_enc by (metis option.inject)

lemma roundtrip: "ok x \<Longrightarrow> Option.bind (enc x) dec = Some x"
  using enc_total dec_enc by fastforce

lemma dec_surj: "ok x \<Longrightarrow> \<exists>y. dec y = Some x"
  using enc_total dec_enc by blast

end

subsection \<open>Runs of labelled step relations\<close>

inductive run :: "('s \<Rightarrow> 'e \<Rightarrow> 's \<Rightarrow> bool) \<Rightarrow> 's \<Rightarrow> 'e list \<Rightarrow> 's \<Rightarrow> bool" for step where
  run_nil: "run step s [] s"
| run_snoc: "run step s es s' \<Longrightarrow> step s' e s'' \<Longrightarrow> run step s (es @ [e]) s''"

lemma run_cons: "run step s' es s'' \<Longrightarrow> step s e s' \<Longrightarrow> run step s (e # es) s''"
proof (induction rule: run.induct)
  case (run_nil s')
  then show ?case using run_snoc [OF run.run_nil, of step s e s'] by simp
next
  case (run_snoc s' es t e' t')
  then show ?case using run.run_snoc [of step s "e # es" t e' t'] by simp
qed

end
