(* ===== verification/DependencyGraph.thy ===== *)
theory DependencyGraph
  imports Prelude
begin

section \<open>The dependency graph of the list merge\<close>

text \<open>
  Models the class \<open>DependencyGraph\<close> of \<open>include/mergebot/utils/stringop.h\<close> and
  \<open>mergeVectors\<close> of \<open>src/core/handler/TextBasedHandler.cpp\<close>, which merges two
  lists of declarations by a topological sort.

  An \<open>unordered_map\<close> is an association list with distinct keys and an \<open>unordered_set\<close> a
  distinct list; the order of the list is the order in which the container is iterated.
  The theorems hold for every well-formed graph, whatever the order of its lists, so
  they cover every iteration order an implementation may choose.
\<close>

subsection \<open>The priority queue interface\<close>

text \<open>
  \<open>std::priority_queue\<close> promises a multiset with its greatest element on top. The client
  of this interface is the loop of \<open>topologicalSort\<close>.
\<close>

locale max_queue =
  fixes empty :: 'q
    and is_empty :: "'q \<Rightarrow> bool"
    and push :: "'a::linorder \<Rightarrow> 'q \<Rightarrow> 'q"
    and top :: "'q \<Rightarrow> 'a"
    and pop :: "'q \<Rightarrow> 'q"
    and elems :: "'q \<Rightarrow> 'a multiset"
    and invar :: "'q \<Rightarrow> bool"
  assumes elems_empty: "elems empty = {#}"
    and is_empty: "invar q \<Longrightarrow> is_empty q \<longleftrightarrow> elems q = {#}"
    and elems_push: "invar q \<Longrightarrow> elems (push x q) = add_mset x (elems q)"
    and elems_pop: "invar q \<Longrightarrow> elems q \<noteq> {#} \<Longrightarrow> elems (pop q) = elems q - {#top q#}"
    and top_max: "invar q \<Longrightarrow> elems q \<noteq> {#} \<Longrightarrow> top q = Max_mset (elems q)"
    and invar_empty: "invar empty"
    and invar_push: "invar q \<Longrightarrow> invar (push x q)"
    and invar_pop: "invar q \<Longrightarrow> elems q \<noteq> {#} \<Longrightarrow> invar (pop q)"
begin

lemma top_in: "invar q \<Longrightarrow> elems q \<noteq> {#} \<Longrightarrow> top q \<in># elems q"
  by (simp add: top_max Max_in)

lemma top_greatest: "invar q \<Longrightarrow> x \<in># elems q \<Longrightarrow> x \<le> top q"
  by (cases "elems q = {#}") (auto simp: top_max)

lemma elems_pop_add: "invar q \<Longrightarrow> elems q \<noteq> {#} \<Longrightarrow> elems q = add_mset (top q) (elems (pop q))"
  by (simp add: elems_pop top_in)

end

text \<open>The model: a list in descending order.\<close>

type_synonym pqueue = "string list"

fun pq_push :: "string \<Rightarrow> pqueue \<Rightarrow> pqueue" where
  "pq_push x [] = [x]"
| "pq_push x (y # ys) = (if y \<le> x then x # y # ys else y # pq_push x ys)"

definition pq_top :: "pqueue \<Rightarrow> string" where
  "pq_top q = hd q"

definition pq_pop :: "pqueue \<Rightarrow> pqueue" where
  "pq_pop q = tl q"

definition pq_invar :: "pqueue \<Rightarrow> bool" where
  "pq_invar q \<longleftrightarrow> sorted_wrt (\<lambda>x y. y \<le> x) q"

lemma mset_pq_push [simp]: "mset (pq_push x q) = add_mset x (mset q)"
  by (induction q) auto

lemma set_pq_push [simp]: "set (pq_push x q) = insert x (set q)"
  by (induction q) auto

lemma length_pq_push [simp]: "length (pq_push x q) = Suc (length q)"
  by (induction q) auto

lemma distinct_pq_push [simp]: "distinct (pq_push x q) \<longleftrightarrow> x \<notin> set q \<and> distinct q"
  by (induction q) auto

lemma pq_invar_push: "pq_invar q \<Longrightarrow> pq_invar (pq_push x q)"
  by (induction q) (auto simp: pq_invar_def)

lemma pq_top_max: "pq_invar q \<Longrightarrow> q \<noteq> [] \<Longrightarrow> pq_top q = Max_mset (mset q)"
  by (cases q) (auto simp: pq_invar_def pq_top_def max_def intro!: Max_eqI [symmetric])

interpretation pq: max_queue "[]" "\<lambda>q. q = []" pq_push pq_top pq_pop mset pq_invar
proof (unfold_locales, goal_cases)
  case (4 q)
  then show ?case by (cases q) (auto simp: pq_pop_def pq_top_def)
next
  case (8 q)
  then show ?case by (cases q) (auto simp: pq_pop_def pq_invar_def)
qed (auto simp: pq_top_max pq_invar_push, simp add: pq_invar_def)

subsection \<open>The class\<close>

record depgraph =
  adjacencyList :: "(string \<times> string list) list"
  inDegree :: "(string \<times> int) list"
  visited :: "string list"

definition empty_graph :: depgraph where
  "empty_graph = \<lparr>adjacencyList = [], inDegree = [], visited = []\<rparr>"

abbreviation nodes :: "depgraph \<Rightarrow> string list" where
  "nodes g \<equiv> map fst (adjacencyList g)"

text \<open>\<open>operator[]\<close> of the two maps: the default for a missing key.\<close>

definition neighbors :: "depgraph \<Rightarrow> string \<Rightarrow> string list" where
  "neighbors g x = (case map_of (adjacencyList g) x of None \<Rightarrow> [] | Some ys \<Rightarrow> ys)"

definition degree :: "(string \<times> int) list \<Rightarrow> string \<Rightarrow> int" where
  "degree d x = (case map_of d x of None \<Rightarrow> 0 | Some n \<Rightarrow> n)"

definition set_insert :: "'a \<Rightarrow> 'a list \<Rightarrow> 'a list" where
  "set_insert x xs = (if x \<in> set xs then xs else xs @ [x])"

definition addNode :: "depgraph \<Rightarrow> string \<Rightarrow> bool \<times> depgraph" where
  "addNode g n =
     (if map_of (adjacencyList g) n = None
      then (True, g\<lparr>adjacencyList := AList.update n [] (adjacencyList g),
                    inDegree := AList.update n 0 (inDegree g)\<rparr>)
      else (False, g))"

definition addEdge :: "depgraph \<Rightarrow> string \<Rightarrow> string \<Rightarrow> bool \<times> depgraph" where
  "addEdge g a b =
     (if map_of (adjacencyList g) a = None \<or> map_of (adjacencyList g) b = None
      then (False, g)
      else (True, g\<lparr>adjacencyList :=
                       AList.update a (set_insert b (neighbors g a)) (adjacencyList g),
                    inDegree := AList.update b (degree (inDegree g) b + 1) (inDegree g)\<rparr>))"

definition clear_graph :: "depgraph \<Rightarrow> depgraph" where
  "clear_graph g = \<lparr>adjacencyList = [], inDegree = [], visited = []\<rparr>"

text \<open>
  \<open>hasCycleDFS\<close> recurses on unvisited neighbours and threads the two sets \<open>visited\<close> (V) and
  \<open>path\<close> (P). The model has fuel; \<open>None\<close> is running out of it.
\<close>

fun hasCycleDFS :: "nat \<Rightarrow> depgraph \<Rightarrow> string \<Rightarrow> string list \<Rightarrow> string list
    \<Rightarrow> (bool \<times> string list \<times> string list) option"
  and hasCycleDFS_loop :: "nat \<Rightarrow> depgraph \<Rightarrow> string \<Rightarrow> string list \<Rightarrow> string list \<Rightarrow> string list
    \<Rightarrow> (bool \<times> string list \<times> string list) option" where
  "hasCycleDFS 0 g u V P = None"
| "hasCycleDFS (Suc n) g u V P =
     hasCycleDFS_loop n g u (neighbors g u) (set_insert u V) (set_insert u P)"
| "hasCycleDFS_loop n g u [] V P = Some (False, V, removeAll u P)"
| "hasCycleDFS_loop n g u (v # vs) V P =
     (if v \<in> set P then Some (True, V, P)
      else if v \<notin> set V
      then (case hasCycleDFS n g v V P of
              None \<Rightarrow> None
            | Some (True, V', P') \<Rightarrow> Some (True, V', P')
            | Some (False, V', P') \<Rightarrow> hasCycleDFS_loop n g u vs V' P')
      else hasCycleDFS_loop n g u vs V P)"

fun hasCycle_loop :: "nat \<Rightarrow> depgraph \<Rightarrow> string list \<Rightarrow> string list \<Rightarrow> string list
    \<Rightarrow> (bool \<times> string list) option" where
  "hasCycle_loop n g [] V P = Some (False, V)"
| "hasCycle_loop n g (u # us) V P =
     (if u \<notin> set V
      then (case hasCycleDFS n g u V P of
              None \<Rightarrow> None
            | Some (True, V', P') \<Rightarrow> Some (True, V')
            | Some (False, V', P') \<Rightarrow> hasCycle_loop n g us V' P')
      else hasCycle_loop n g us V P)"

text \<open>The recursion is never deeper than the number of nodes, so that much fuel is enough.\<close>

definition hasCycle :: "depgraph \<Rightarrow> (bool \<times> depgraph) option" where
  "hasCycle g =
     map_option (\<lambda>(b, V). (b, g\<lparr>visited := V\<rparr>))
       (hasCycle_loop (Suc (length (adjacencyList g))) g (nodes g) [] [])"

text \<open>
  The loop of \<open>topologicalSort\<close>: \<open>relax\<close> is the inner \<open>for\<close> over the neighbours of the node just
  popped, \<open>sort_loop\<close> the outer \<open>while\<close>.
\<close>

fun relax :: "string list \<Rightarrow> (string \<times> int) list \<Rightarrow> pqueue \<Rightarrow> (string \<times> int) list \<times> pqueue" where
  "relax [] d q = (d, q)"
| "relax (v # vs) d q =
     (let d' = AList.update v (degree d v - 1) d
      in relax vs d' (if degree d' v = 0 then pq_push v q else q))"

definition positive :: "(string \<times> int) list \<Rightarrow> nat" where
  "positive d = card {v. 0 < degree d v}"

lemma degree_update: "degree (AList.update v n d) w = (if w = v then n else degree d w)"
  by (simp add: degree_def AList.update_conv)

lemma finite_positive: "finite {v. 0 < degree d v}"
proof (rule finite_subset)
  show "{v. 0 < degree d v} \<subseteq> fst ` set d"
    by (force simp: degree_def split: option.splits dest: map_of_SomeD)
qed simp

lemma relax_measure: "relax vs d q = (d', q') \<Longrightarrow> length q' + positive d' \<le> length q + positive d"
proof (induction vs arbitrary: d q)
  case Nil
  then show ?case by simp
next
  case (Cons v vs)
  let ?d = "AList.update v (degree d v - 1) d"
  let ?q = "if degree ?d v = 0 then pq_push v q else q"
  from Cons.prems have "relax vs ?d ?q = (d', q')" by (simp add: Let_def)
  then have IH: "length q' + positive d' \<le> length ?q + positive ?d" by (rule Cons.IH)
  have sub: "{w. 0 < degree ?d w} \<subseteq> {w. 0 < degree d w}"
    by (auto simp: degree_update split: if_splits)
  have "length ?q + positive ?d \<le> length q + positive d"
  proof (cases "degree d v = 1")
    case True
    then have "{w. 0 < degree ?d w} = {w. 0 < degree d w} - {v}"
      by (auto simp: degree_update split: if_splits)
    moreover have "v \<in> {w. 0 < degree d w}" using True by simp
    ultimately have "positive d = Suc (positive ?d)"
      unfolding positive_def using card.remove [OF finite_positive] by metis
    with True show ?thesis by (simp add: degree_update)
  next
    case False
    then have "?q = q" by (simp add: degree_update)
    moreover have "positive ?d \<le> positive d"
      unfolding positive_def by (rule card_mono [OF finite_positive sub])
    ultimately show ?thesis by simp
  qed
  with IH show ?case by linarith
qed

function sort_loop :: "depgraph \<Rightarrow> pqueue \<Rightarrow> (string \<times> int) list \<Rightarrow> string list \<Rightarrow> string list" where
  "sort_loop g q d result =
     (if q = [] then result
      else let current = pq_top q;
               (d', q') = relax (neighbors g current) d (pq_pop q)
           in sort_loop g q' d' (result @ [current]))"
  by pat_completeness auto
termination
proof (relation "measure (\<lambda>(g, q, d, result). length q + positive d)", goal_cases)
  case 1
  then show ?case by simp
next
  case (2 g q d result x p d' q')
  then have "relax (neighbors g (pq_top q)) d (pq_pop q) = (d', q')" by simp
  from relax_measure [OF this] show ?case
    using 2 by (cases q) (auto simp: pq_pop_def)
qed

declare sort_loop.simps [simp del]

definition topologicalSort :: "depgraph \<Rightarrow> (bool \<times> string list \<times> depgraph) option" where
  "topologicalSort g =
     (case hasCycle g of
        None \<Rightarrow> None
      | Some (True, g') \<Rightarrow> Some (False, [], g')
      | Some (False, g') \<Rightarrow>
          let pq = foldl (\<lambda>q n. if degree (inDegree g') n = 0 then pq_push n q else q) []
                     (nodes g');
              result = sort_loop g' pq (inDegree g') []
          in Some (length result = length (adjacencyList g'), result, g'))"

subsection \<open>mergeVectors\<close>

fun dedup :: "string list \<Rightarrow> string list \<Rightarrow> string list" where
  "dedup seen [] = []"
| "dedup seen (x # xs) = (if x \<in> set seen then dedup seen xs else x # dedup (x # seen) xs)"

fun add_nodes :: "depgraph \<Rightarrow> string list \<Rightarrow> depgraph" where
  "add_nodes g [] = g"
| "add_nodes g (x # xs) = add_nodes (snd (addNode g x)) xs"

fun add_chain :: "depgraph \<Rightarrow> string list \<Rightarrow> bool \<times> depgraph" where
  "add_chain g (x # y # xs) =
     (case addEdge g x y of
        (False, g') \<Rightarrow> (False, g')
      | (True, g') \<Rightarrow> add_chain g' (y # xs))"
| "add_chain g xs = (True, g)"

text \<open>
  The result is the returned flag and the final value of the output vector, whose
  initial value is \<open>res0\<close>.
\<close>

definition mergeVectors :: "string list \<Rightarrow> string list \<Rightarrow> string list \<Rightarrow> (bool \<times> string list) option" where
  "mergeVectors Vec1 Vec2 res0 =
     (if Vec1 = [] \<and> Vec2 = [] then Some (True, [])
      else
        let uniqueVec1 = dedup [] Vec1;
            uniqueVec2 = dedup [] Vec2;
            graph = add_nodes (add_nodes empty_graph uniqueVec1) uniqueVec2
        in case add_chain graph uniqueVec1 of
             (False, _) \<Rightarrow> Some (False, res0)
           | (True, g1) \<Rightarrow>
               (case add_chain g1 uniqueVec2 of
                  (False, _) \<Rightarrow> Some (False, res0)
                | (True, g2) \<Rightarrow>
                    (case topologicalSort g2 of
                       None \<Rightarrow> None
                     | Some (success, result, _) \<Rightarrow>
                         Some (success, if success then result else []))))"

subsection \<open>The well-formedness invariant\<close>

definition edges :: "depgraph \<Rightarrow> (string \<times> string) set" where
  "edges g = {(a, b). b \<in> set (neighbors g a)}"

definition preds :: "depgraph \<Rightarrow> string \<Rightarrow> string set" where
  "preds g b = {a. (a, b) \<in> edges g}"

definition wf_graph :: "depgraph \<Rightarrow> bool" where
  "wf_graph g \<longleftrightarrow>
     distinct (nodes g) \<and> edges g \<subseteq> set (nodes g) \<times> set (nodes g) \<and>
     (\<forall>a. distinct (neighbors g a)) \<and>
     (\<forall>b. int (card (preds g b)) \<le> degree (inDegree g) b)"

lemma edges_nodes: "wf_graph g \<Longrightarrow> (a, b) \<in> edges g \<Longrightarrow> a \<in> set (nodes g) \<and> b \<in> set (nodes g)"
  by (auto simp: wf_graph_def)

lemma finite_preds: "wf_graph g \<Longrightarrow> finite (preds g b)"
  by (rule finite_subset [of _ "set (nodes g)"]) (auto simp: preds_def dest: edges_nodes)

lemma map_of_None_nodes: "map_of (adjacencyList g) a = None \<longleftrightarrow> a \<notin> set (nodes g)"
  by (simp add: map_of_eq_None_iff)

lemma set_set_insert [simp]: "set (set_insert x xs) = insert x (set xs)"
  by (auto simp: set_insert_def)

lemma distinct_set_insert [simp]: "distinct (set_insert x xs) \<longleftrightarrow> distinct xs"
  by (auto simp: set_insert_def)

lemma nodes_update [simp]: "set (map fst (AList.update k v al)) = insert k (set (map fst al))"
  by (simp add: dom_update)

lemma wf_empty: "wf_graph empty_graph"
  by (simp add: wf_graph_def empty_graph_def edges_def neighbors_def preds_def degree_def)

lemma addNode_simps:
  "nodes (snd (addNode g n)) = (if n \<in> set (nodes g) then nodes g else nodes g @ [n])"
  "neighbors (snd (addNode g n)) = neighbors g"
  "edges (snd (addNode g n)) = edges g"
proof -
  show 1: "nodes (snd (addNode g n)) = (if n \<in> set (nodes g) then nodes g else nodes g @ [n])"
    by (auto simp: addNode_def map_of_None_nodes update_keys)
  show 2: "neighbors (snd (addNode g n)) = neighbors g"
    by (rule ext) (auto simp: addNode_def neighbors_def AList.update_conv')
  show "edges (snd (addNode g n)) = edges g"
    by (simp only: edges_def 2)
qed

lemma preds_addNode: "preds (snd (addNode g n)) b = preds g b"
  by (simp add: preds_def addNode_simps)

lemma degree_addNode:
  "wf_graph g \<Longrightarrow> int (card (preds g b)) \<le> degree (inDegree (snd (addNode g n))) b"
proof -
  assume wf: "wf_graph g"
  then have le: "int (card (preds g b)) \<le> degree (inDegree g) b" by (simp add: wf_graph_def)
  have "preds g n = {}" if "n \<notin> set (nodes g)"
    using wf that by (auto simp: preds_def dest: edges_nodes)
  with le show ?thesis by (auto simp: addNode_def degree_update map_of_None_nodes)
qed

lemma wf_addNode: "wf_graph g \<Longrightarrow> wf_graph (snd (addNode g n))"
  unfolding wf_graph_def [of "snd (addNode g n)"]
  by (auto simp: addNode_simps preds_addNode degree_addNode wf_graph_def)

lemma addEdge_simps:
  assumes "a \<in> set (nodes g)" "b \<in> set (nodes g)"
  shows "fst (addEdge g a b)"
    and "nodes (snd (addEdge g a b)) = nodes g"
    and "neighbors (snd (addEdge g a b)) = (neighbors g)(a := set_insert b (neighbors g a))"
    and "edges (snd (addEdge g a b)) = insert (a, b) (edges g)"
    and "inDegree (snd (addEdge g a b)) =
           AList.update b (degree (inDegree g) b + 1) (inDegree g)"
proof -
  from assms have n: "map_of (adjacencyList g) a \<noteq> None" "map_of (adjacencyList g) b \<noteq> None"
    by (simp_all add: map_of_None_nodes)
  then show "fst (addEdge g a b)"
    and "inDegree (snd (addEdge g a b)) =
           AList.update b (degree (inDegree g) b + 1) (inDegree g)"
    by (auto simp: addEdge_def)
  show "nodes (snd (addEdge g a b)) = nodes g"
    using n assms(1) by (auto simp: addEdge_def update_keys)
  show nb: "neighbors (snd (addEdge g a b)) = (neighbors g)(a := set_insert b (neighbors g a))"
    by (rule ext) (use n in \<open>auto simp: addEdge_def neighbors_def AList.update_conv\<close>)
  show "edges (snd (addEdge g a b)) = insert (a, b) (edges g)"
    by (auto simp: edges_def nb split: if_splits)
qed

lemma preds_addEdge:
  assumes "a \<in> set (nodes g)" "b \<in> set (nodes g)"
  shows "preds (snd (addEdge g a b)) c = (if c = b then insert a (preds g c) else preds g c)"
  using assms by (auto simp: preds_def addEdge_simps)

lemma wf_addEdge: "wf_graph g \<Longrightarrow> wf_graph (snd (addEdge g a b))"
proof (cases "a \<in> set (nodes g) \<and> b \<in> set (nodes g)")
  case False
  assume "wf_graph g"
  with False show ?thesis by (auto simp: addEdge_def map_of_None_nodes)
next
  case True
  assume wf: "wf_graph g"
  have "card (insert a (preds g b)) \<le> Suc (card (preds g b))"
    by (rule card_insert_le_m1) auto
  moreover have "int (card (preds g c)) \<le> degree (inDegree g) c" for c
    using wf by (simp add: wf_graph_def)
  ultimately have "int (card (preds (snd (addEdge g a b)) c)) \<le>
      degree (inDegree (snd (addEdge g a b))) c" for c
    using True by (cases "c = b") (auto simp: addEdge_simps preds_addEdge degree_update
        intro: order_trans [OF of_nat_mono])
  moreover have "edges (snd (addEdge g a b)) \<subseteq> set (nodes g) \<times> set (nodes g)"
    using wf True by (simp add: addEdge_simps wf_graph_def)
  ultimately show ?thesis
    using wf True by (simp add: wf_graph_def addEdge_simps)
qed

lemma wf_clear_graph: "wf_graph (clear_graph g)"
  using wf_empty by (simp add: clear_graph_def empty_graph_def)

lemma wf_visited [simp]: "wf_graph (g\<lparr>visited := V\<rparr>) \<longleftrightarrow> wf_graph g"
  by (simp add: wf_graph_def edges_def neighbors_def preds_def)

lemma neighbors_visited [simp]: "neighbors (g\<lparr>visited := V\<rparr>) = neighbors g"
  by (rule ext) (simp add: neighbors_def)

lemma edges_visited [simp]: "edges (g\<lparr>visited := V\<rparr>) = edges g"
  by (simp add: edges_def)

lemma preds_visited [simp]: "preds (g\<lparr>visited := V\<rparr>) = preds g"
  by (rule ext) (simp add: preds_def)

subsection \<open>Cycle detection\<close>

text \<open>
  The invariant of the depth-first search: the path is part of the visited nodes, and the
  visited nodes that have left the path are closed under edges and lie on no cycle.
\<close>

definition on_cycle :: "depgraph \<Rightarrow> string set" where
  "on_cycle g = {x. (x, x) \<in> (edges g)\<^sup>+}"

definition dfs_inv :: "depgraph \<Rightarrow> string list \<Rightarrow> string list \<Rightarrow> bool" where
  "dfs_inv g V P \<longleftrightarrow>
     set P \<subseteq> set V \<and> set V \<subseteq> set (nodes g) \<and>
     edges g `` (set V - set P) \<subseteq> set V - set P \<and> (set V - set P) \<inter> on_cycle g = {}"

lemma dfs_closed_trancl:
  assumes "dfs_inv g V P" "(x, y) \<in> (edges g)\<^sup>*" "x \<in> set V - set P"
  shows "y \<in> set V - set P"
proof -
  have "(edges g)\<^sup>* `` (set V - set P) = set V - set P"
    using assms(1) by (intro Image_closed_trancl) (simp add: dfs_inv_def)
  with assms(2,3) show ?thesis by blast
qed

text \<open>Leaving a node all of whose neighbours are finished keeps the invariant.\<close>

lemma dfs_inv_finish:
  assumes inv: "dfs_inv g V P" and u: "u \<in> set P"
    and fin: "\<And>w. (u, w) \<in> edges g \<Longrightarrow> w \<in> set V - set P"
  shows "dfs_inv g V (removeAll u P)"
proof -
  have nc: "u \<notin> on_cycle g"
  proof
    assume "u \<in> on_cycle g"
    then obtain w where "(u, w) \<in> edges g" "(w, u) \<in> (edges g)\<^sup>*"
      unfolding on_cycle_def by (auto dest: tranclD)
    with dfs_closed_trancl [OF inv] fin have "u \<in> set V - set P" by blast
    with u show False by simp
  qed
  have "u \<in> set V" using inv u by (auto simp: dfs_inv_def)
  then have B: "set V - set (removeAll u P) = insert u (set V - set P)" by auto
  have "edges g `` insert u (set V - set P) \<subseteq> insert u (set V - set P)"
    using inv fin by (auto simp: dfs_inv_def)
  moreover have "insert u (set V - set P) \<inter> on_cycle g = {}"
    using inv nc by (auto simp: dfs_inv_def)
  ultimately show ?thesis
    using inv unfolding dfs_inv_def B by auto
qed

lemma dfs_inv_enter:
  assumes "dfs_inv g V P" "u \<in> set (nodes g)" "u \<notin> set V"
  shows "dfs_inv g (set_insert u V) (set_insert u P)"
proof -
  have "set (set_insert u V) - set (set_insert u P) = set V - set P"
    using assms by (auto simp: dfs_inv_def)
  with assms show ?thesis unfolding dfs_inv_def by auto
qed

lemma on_cycleI: "(a, b) \<in> edges g \<Longrightarrow> (b, a) \<in> (edges g)\<^sup>* \<Longrightarrow> b \<in> on_cycle g"
  unfolding on_cycle_def by (simp add: rtrancl_into_trancl1)

lemma reach_step: "(\<forall>p\<in>A. (p, a) \<in> (edges g)\<^sup>*) \<Longrightarrow> (a, b) \<in> edges g \<Longrightarrow> (\<forall>p\<in>A. (p, b) \<in> (edges g)\<^sup>*)"
  by (meson rtrancl.rtrancl_into_rtrancl)

lemma hasCycleDFS_correct:
  "hasCycleDFS n g u V P = Some (b, V', P') \<Longrightarrow> wf_graph g \<Longrightarrow> dfs_inv g V P \<Longrightarrow>
     u \<in> set (nodes g) \<Longrightarrow> u \<notin> set V \<Longrightarrow> (\<forall>p\<in>set P. (p, u) \<in> (edges g)\<^sup>*) \<Longrightarrow>
     (if b then on_cycle g \<noteq> {}
      else P' = P \<and> insert u (set V) \<subseteq> set V' \<and> dfs_inv g V' P)"
  "hasCycleDFS_loop n g u vs V P = Some (b, V', P') \<Longrightarrow> wf_graph g \<Longrightarrow> dfs_inv g V P \<Longrightarrow>
     u \<in> set P \<Longrightarrow> (\<forall>p\<in>set P. (p, u) \<in> (edges g)\<^sup>*) \<Longrightarrow> (\<forall>w\<in>set vs. (u, w) \<in> edges g) \<Longrightarrow>
     (\<forall>w. (u, w) \<in> edges g \<longrightarrow> w \<in> set vs \<or> w \<in> set V - set P) \<Longrightarrow>
     (if b then on_cycle g \<noteq> {}
      else P' = removeAll u P \<and> set V \<subseteq> set V' \<and> dfs_inv g V' P')"
proof (induction n g u V P and n g u vs V P arbitrary: b V' P' and b V' P'
    rule: hasCycleDFS_hasCycleDFS_loop.induct)
  case (1 g u V P)
  then show ?case by simp
next
  case (2 n g u V P)
  have uP: "u \<notin> set P" using "2.prems"(3,5) by (auto simp: dfs_inv_def)
  have eq: "hasCycleDFS_loop n g u (neighbors g u) (set_insert u V) (set_insert u P) = Some (b, V', P')"
    using "2.prems"(1) by simp
  have enter: "dfs_inv g (set_insert u V) (set_insert u P)"
    by (rule dfs_inv_enter) fact+
  have reach: "\<forall>p\<in>set (set_insert u P). (p, u) \<in> (edges g)\<^sup>*"
    using "2.prems"(6) by simp
  have "if b then on_cycle g \<noteq> {}
    else P' = removeAll u (set_insert u P) \<and> set (set_insert u V) \<subseteq> set V' \<and> dfs_inv g V' P'"
    by (rule "2.IH" [OF eq "2.prems"(2) enter _ reach]) (simp_all add: edges_def)
  moreover have "removeAll u (set_insert u P) = P" using uP by (simp add: set_insert_def)
  ultimately show ?case by (auto split: if_splits)
next
  case (3 n g u V P)
  then show ?case using dfs_inv_finish [of g V P u] by auto
next
  case (4 n g u v vs V P)
  have uv: "(u, v) \<in> edges g" using "4.prems" by simp
  consider (gray) "v \<in> set P" | (white) "v \<notin> set P" "v \<notin> set V" | (black) "v \<notin> set P" "v \<in> set V"
    by blast
  then show ?case
  proof cases
    case gray
    then have "(v, u) \<in> (edges g)\<^sup>*" using "4.prems"(5) by simp
    with uv have "v \<in> on_cycle g" by (rule on_cycleI)
    then have "on_cycle g \<noteq> {}" by blast
    with gray "4.prems"(1) show ?thesis by simp
  next
    case black
    have rest: "hasCycleDFS_loop n g u vs V P = Some (b, V', P')"
      using black "4.prems"(1) by simp
    show ?thesis
    proof (rule "4.IH"(3) [OF black(1) _ rest "4.prems"(2-5)])
    qed (use "4.prems"(6,7) black in auto)
  next
    case white
    then obtain b1 V1 P1 where r: "hasCycleDFS n g v V P = Some (b1, V1, P1)"
      using "4.prems"(1) by (auto split: option.splits)
    have reach: "\<forall>p\<in>set P. (p, v) \<in> (edges g)\<^sup>*"
      by (rule reach_step [OF "4.prems"(5) uv])
    have vn: "v \<in> set (nodes g)" using uv "4.prems"(2) by (blast dest: edges_nodes)
    have spec: "if b1 then on_cycle g \<noteq> {}
      else P1 = P \<and> insert v (set V) \<subseteq> set V1 \<and> dfs_inv g V1 P"
      by (rule "4.IH"(1) [OF white r "4.prems"(2,3) vn white(2) reach])
    show ?thesis
    proof (cases b1)
      case True
      with spec r white "4.prems"(1) show ?thesis by simp
    next
      case False
      with spec have P1: "P1 = P" and V1: "insert v (set V) \<subseteq> set V1" "dfs_inv g V1 P" by auto
      have rest: "hasCycleDFS_loop n g u vs V1 P1 = Some (b, V', P')"
        using r white False "4.prems"(1) by simp
      have "if b then on_cycle g \<noteq> {}
        else P' = removeAll u P1 \<and> set V1 \<subseteq> set V' \<and> dfs_inv g V' P'"
      proof (rule "4.IH"(2) [OF white r refl _ refl rest "4.prems"(2)])
        show "b1 = False" using False by simp
        show "dfs_inv g V1 P1" "u \<in> set P1" "\<forall>p\<in>set P1. (p, u) \<in> (edges g)\<^sup>*"
          using V1 P1 "4.prems"(4,5) by simp_all
        show "\<forall>w\<in>set vs. (u, w) \<in> edges g" using "4.prems"(6) by simp
        show "\<forall>w. (u, w) \<in> edges g \<longrightarrow> w \<in> set vs \<or> w \<in> set V1 - set P1"
          using "4.prems"(7) V1(1) P1 white by auto
      qed
      with V1 P1 show ?thesis by (auto split: if_splits)
    qed
  qed
qed


text \<open>Enough fuel: one unit for every node not yet visited.\<close>

lemma hasCycleDFS_visited:
  "hasCycleDFS n g u V P = Some (b, V', P') \<Longrightarrow> insert u (set V) \<subseteq> set V'"
  "hasCycleDFS_loop n g u vs V P = Some (b, V', P') \<Longrightarrow> set V \<subseteq> set V'"
proof (induction n g u V P and n g u vs V P arbitrary: b V' P' and b V' P'
    rule: hasCycleDFS_hasCycleDFS_loop.induct)
  case (2 n g u V P)
  from "2.IH" [OF "2.prems" [unfolded hasCycleDFS.simps]] show ?case by simp
next
  case (4 n g u v vs V P)
  show ?case
  proof (cases "v \<in> set P \<or> v \<in> set V")
    case True
    with 4 show ?thesis by (auto split: if_splits)
  next
    case False
    then obtain b1 V1 P1 where r: "hasCycleDFS n g v V P = Some (b1, V1, P1)"
      using "4.prems" by (auto split: option.splits)
    then have "set V \<subseteq> set V1" using "4.IH"(1) False by blast
    moreover have "set V1 \<subseteq> set V'"
      using r False "4.prems" "4.IH"(2) [OF _ _ r refl _ refl] by (cases b1) auto
    ultimately show ?thesis by blast
  qed
qed auto

abbreviation unvisited :: "depgraph \<Rightarrow> string list \<Rightarrow> nat" where
  "unvisited g V \<equiv> card (set (nodes g) - set V)"

lemma unvisited_less:
  "u \<in> set (nodes g) \<Longrightarrow> u \<notin> set V \<Longrightarrow> unvisited g V = Suc (unvisited g (set_insert u V))"
proof -
  assume u: "u \<in> set (nodes g)" "u \<notin> set V"
  have "set (nodes g) - set (set_insert u V) = (set (nodes g) - set V) - {u}" by auto
  with u card.remove [of "set (nodes g) - set V" u] show ?thesis by simp
qed

lemma unvisited_mono: "set V \<subseteq> set V' \<Longrightarrow> unvisited g V' \<le> unvisited g V"
  by (rule card_mono) auto

lemma hasCycleDFS_enough_fuel:
  "wf_graph g \<Longrightarrow> u \<in> set (nodes g) \<Longrightarrow> u \<notin> set V \<Longrightarrow> unvisited g V \<le> n \<Longrightarrow>
     hasCycleDFS n g u V P \<noteq> None"
  "wf_graph g \<Longrightarrow> set vs \<subseteq> set (nodes g) \<Longrightarrow> unvisited g V \<le> n \<Longrightarrow>
     hasCycleDFS_loop n g u vs V P \<noteq> None"
proof (induction n g u V P and n g u vs V P rule: hasCycleDFS_hasCycleDFS_loop.induct)
  case (1 g u V P)
  then show ?case using unvisited_less [of u g V] by linarith
next
  case (2 n g u V P)
  have "unvisited g (set_insert u V) \<le> n" using "2.prems"(4) unvisited_less [OF "2.prems"(2,3)] by linarith
  moreover have "set (neighbors g u) \<subseteq> set (nodes g)"
    using "2.prems"(1) by (auto simp: wf_graph_def edges_def)
  ultimately show ?case using "2.IH" "2.prems"(1) by simp
next
  case (4 n g u v vs V P)
  show ?case
  proof (cases "v \<in> set P \<or> v \<in> set V")
    case True
    with 4 show ?thesis by auto
  next
    case False
    have "hasCycleDFS n g v V P \<noteq> None" using "4.IH"(1) "4.prems" False by auto
    then obtain b1 V1 P1 where r: "hasCycleDFS n g v V P = Some (b1, V1, P1)" by auto
    have "unvisited g V1 \<le> n"
      using unvisited_mono [of V V1 g] hasCycleDFS_visited(1) [OF r] "4.prems"(3) by simp
    with r False show ?thesis using "4.IH"(2) [OF _ _ r refl _ refl] "4.prems"(1,2)
      by (cases b1) auto
  qed
qed auto

lemma hasCycle_loop_correct:
  "wf_graph g \<Longrightarrow> dfs_inv g V [] \<Longrightarrow> set us \<subseteq> set (nodes g) \<Longrightarrow> unvisited g V \<le> n \<Longrightarrow>
     \<exists>b V'. hasCycle_loop n g us V [] = Some (b, V') \<and>
       (if b then on_cycle g \<noteq> {} else dfs_inv g V' [] \<and> set us \<union> set V \<subseteq> set V')"
proof (induction us arbitrary: V)
  case Nil
  then show ?case by (intro exI [of _ False] exI [of _ V]) simp
next
  case (Cons u us)
  show ?case
  proof (cases "u \<in> set V")
    case True
    from Cons.prems Cons.IH [of V] obtain b V' where
      "hasCycle_loop n g us V [] = Some (b, V')"
      "if b then on_cycle g \<noteq> {} else dfs_inv g V' [] \<and> set us \<union> set V \<subseteq> set V'"
      by auto
    with True show ?thesis by (intro exI [of _ b] exI [of _ V']) (cases b; auto)
  next
    case False
    have "hasCycleDFS n g u V [] \<noteq> None"
      using Cons.prems False by (intro hasCycleDFS_enough_fuel(1)) auto
    then obtain b1 V1 P1 where r: "hasCycleDFS n g u V [] = Some (b1, V1, P1)" by auto
    have sp: "if b1 then on_cycle g \<noteq> {}
        else P1 = [] \<and> insert u (set V) \<subseteq> set V1 \<and> dfs_inv g V1 []"
      using Cons.prems False by (intro hasCycleDFS_correct(1) [OF r]) auto
    show ?thesis
    proof (cases b1)
      case True
      with sp r False show ?thesis by (intro exI [of _ True] exI [of _ V1]) simp
    next
      case nb1: False
      with sp have V1: "P1 = []" "insert u (set V) \<subseteq> set V1" "dfs_inv g V1 []" by auto
      have "unvisited g V1 \<le> n"
        using unvisited_mono [of V V1 g] V1(2) Cons.prems(4) by simp
      with V1 Cons.prems Cons.IH [of V1] obtain b V' where
        "hasCycle_loop n g us V1 [] = Some (b, V')"
        "if b then on_cycle g \<noteq> {} else dfs_inv g V' [] \<and> set us \<union> set V1 \<subseteq> set V'"
        by auto
      with r False nb1 V1 show ?thesis
        by (intro exI [of _ b] exI [of _ V']) (cases b; auto)
    qed
  qed
qed

text \<open>\<open>hasCycle\<close> always returns, and it returns true exactly when some node is on a cycle.\<close>

lemma hasCycle_correct:
  assumes "wf_graph g"
  shows "\<exists>V. hasCycle g = Some (on_cycle g \<noteq> {}, g\<lparr>visited := V\<rparr>)"
proof -
  have "unvisited g [] \<le> Suc (length (adjacencyList g))"
    using card_length [of "nodes g"] by simp
  moreover have "dfs_inv g [] []" by (simp add: dfs_inv_def)
  ultimately obtain b V' where
    r: "hasCycle_loop (Suc (length (adjacencyList g))) g (nodes g) [] [] = Some (b, V')"
    and sp: "if b then on_cycle g \<noteq> {} else dfs_inv g V' [] \<and> set (nodes g) \<union> set [] \<subseteq> set V'"
    using hasCycle_loop_correct [OF assms] by blast
  have "on_cycle g \<subseteq> set (nodes g)"
    unfolding on_cycle_def using assms by (auto dest!: tranclD edges_nodes)
  then have "b \<longleftrightarrow> on_cycle g \<noteq> {}" using sp by (cases b) (auto simp: dfs_inv_def, blast)
  with r show ?thesis by (auto simp: hasCycle_def)
qed

subsection \<open>The sorting loop\<close>

text \<open>
  The invariant of the loop: a node is in the queue or in the result exactly when its
  remaining degree is zero, the remaining degree is the initial one less the
  predecessors already emitted, and every emitted node follows all its predecessors.
\<close>

lemma relax_degree:
  "relax vs d q = (d', q') \<Longrightarrow> distinct vs \<Longrightarrow>
   degree d' v = degree d v - (if v \<in> set vs then 1 else 0)"
  by (induction vs arbitrary: d q) (auto simp: Let_def degree_update split: if_splits)

lemma relax_set:
  "relax vs d q = (d', q') \<Longrightarrow> distinct vs \<Longrightarrow>
   set q' = set q \<union> {v \<in> set vs. degree d v = 1}"
proof (induction vs arbitrary: d q)
  case (Cons w vs)
  then show ?case
    by (cases "degree d w = 1") (force simp: Let_def degree_update)+
qed simp

lemma relax_distinct:
  "relax vs d q = (d', q') \<Longrightarrow> distinct vs \<Longrightarrow> distinct q \<Longrightarrow>
   (\<forall>v\<in>set vs. degree d v = 1 \<longrightarrow> v \<notin> set q) \<Longrightarrow> distinct q'"
proof (induction vs arbitrary: d q)
  case (Cons w vs)
  show ?case
    by (rule Cons.IH [of "AList.update w (degree d w - 1) d" "if degree d w = 1 then pq_push w q else q"])
      (use Cons.prems in \<open>auto simp: Let_def degree_update split: if_splits\<close>)
qed simp

lemma relax_pq_invar: "relax vs d q = (d', q') \<Longrightarrow> pq_invar q \<Longrightarrow> pq_invar q'"
proof (induction vs arbitrary: d q)
  case (Cons w vs)
  show ?case
    by (rule Cons.IH [of "AList.update w (degree d w - 1) d" "if degree d w = 1 then pq_push w q else q"])
      (use Cons.prems in \<open>auto simp: Let_def degree_update pq_invar_push split: if_splits\<close>)
qed simp

definition kahn_inv :: "depgraph \<Rightarrow> pqueue \<Rightarrow> (string \<times> int) list \<Rightarrow> string list \<Rightarrow> bool" where
  "kahn_inv g q d res \<longleftrightarrow>
     pq_invar q \<and> distinct q \<and> distinct res \<and> set q \<inter> set res = {} \<and>
     set q \<union> set res \<subseteq> set (nodes g) \<and>
     (\<forall>v. degree d v = degree (inDegree g) v - int (card (preds g v \<inter> set res))) \<and>
     (\<forall>v\<in>set (nodes g). v \<in> set q \<union> set res \<longleftrightarrow> degree d v = 0) \<and>
     (\<forall>v\<in>set res. \<forall>u\<in>preds g v. before res u v)"

lemma kahn_invD:
  assumes "kahn_inv g q d res"
  shows "pq_invar q" "distinct q" "distinct res" "set q \<inter> set res = {}"
    "set q \<union> set res \<subseteq> set (nodes g)"
    "degree d v = degree (inDegree g) v - int (card (preds g v \<inter> set res))"
    "v \<in> set (nodes g) \<Longrightarrow> v \<in> set q \<union> set res \<longleftrightarrow> degree d v = 0"
    "\<forall>v\<in>set res. \<forall>u\<in>preds g v. before res u v"
  using assms unfolding kahn_inv_def by blast+

definition greedy :: "depgraph \<Rightarrow> string list \<Rightarrow> bool" where
  "greedy g res \<longleftrightarrow>
     (\<forall>i<length res. \<forall>v\<in>set (nodes g).
        degree (inDegree g) v = int (card (preds g v)) \<and>
        v \<notin> set (take i res) \<and> preds g v \<subseteq> set (take i res) \<longrightarrow> v \<le> res ! i)"

lemma kahn_ready:
  assumes wf: "wf_graph g" and inv: "kahn_inv g q d res" and v: "v \<in> set q \<union> set res"
  shows "preds g v \<subseteq> set res" and "degree (inDegree g) v = int (card (preds g v))"
proof -
  have "degree d v = 0" using kahn_invD(5,7) [OF inv] v by blast
  then have eq: "degree (inDegree g) v = int (card (preds g v \<inter> set res))"
    using kahn_invD(6) [OF inv, of v] by simp
  moreover have le: "int (card (preds g v)) \<le> degree (inDegree g) v" using wf by (simp add: wf_graph_def)
  moreover have "card (preds g v \<inter> set res) \<le> card (preds g v)"
    by (rule card_mono [OF finite_preds [OF wf]]) simp
  ultimately have c: "card (preds g v \<inter> set res) = card (preds g v)" by linarith
  then have "preds g v \<inter> set res = preds g v"
    by (intro card_subset_eq [OF finite_preds [OF wf]]) auto
  then show "preds g v \<subseteq> set res" by blast
  from c eq show "degree (inDegree g) v = int (card (preds g v))" by simp
qed

lemma kahn_step:
  assumes wf: "wf_graph g" and inv: "kahn_inv g q d res" and ne: "q \<noteq> []"
    and r: "relax (neighbors g (pq_top q)) d (pq_pop q) = (d', q')"
  shows "kahn_inv g q' d' (res @ [pq_top q])"
proof -
  let ?u = "pq_top q"
  have q: "q = ?u # pq_pop q" using ne by (simp add: pq_top_def pq_pop_def)
  have dn: "distinct (neighbors g ?u)" using wf by (simp add: wf_graph_def)
  have nb: "v \<in> set (neighbors g ?u) \<longleftrightarrow> ?u \<in> preds g v" for v
    by (simp add: preds_def edges_def)
  note I = kahn_invD [OF inv]
  have uq: "?u \<in> set q" "?u \<notin> set res" "?u \<notin> set (pq_pop q)" "distinct (pq_pop q)"
    "set q = insert ?u (set (pq_pop q))"
    using q I(2,4) by (metis distinct.simps(2) list.set_intros(1), metis disjoint_iff list.set_intros(1),
      metis distinct.simps(2), metis distinct.simps(2), metis list.set(2))
  have no_edge: "?u \<notin> preds g v" if "v \<in> set q \<union> set res" for v
    using kahn_ready(1) [OF wf inv that] uq(2) by blast
  have nbn: "set (neighbors g ?u) \<subseteq> set (nodes g)"
    using wf by (auto simp: wf_graph_def edges_def)
  have inv1: "pq_invar q'" using relax_pq_invar [OF r] pq.invar_pop [of q] I(1) ne by simp
  have inv2: "distinct q'" using relax_distinct [OF r dn uq(4)] uq(5) no_edge nb by blast
  have inv4: "set q' \<inter> set (res @ [?u]) = {}"
    using relax_set [OF r dn] I(4) uq no_edge nb by auto
  have inv5: "set q' \<union> set (res @ [?u]) \<subseteq> set (nodes g)" using relax_set [OF r dn] uq I(5) nbn by auto
  have inv6: "degree d' v = degree (inDegree g) v - int (card (preds g v \<inter> set (res @ [?u])))" for v
  proof (cases "?u \<in> preds g v")
    case True
    then have "preds g v \<inter> set (res @ [?u]) = insert ?u (preds g v \<inter> set res)" by auto
    with True uq(2) show ?thesis by (simp add: relax_degree [OF r dn] nb I(6))
  next
    case False
    then have "preds g v \<inter> set (res @ [?u]) = preds g v \<inter> set res" by auto
    with False show ?thesis by (simp add: relax_degree [OF r dn] nb I(6))
  qed
  have inv7: "v \<in> set q' \<union> set (res @ [?u]) \<longleftrightarrow> degree d' v = 0" if "v \<in> set (nodes g)" for v
  proof -
    have "v \<in> set q' \<union> set (res @ [?u]) \<longleftrightarrow>
        v \<in> set q \<union> set res \<or> (?u \<in> preds g v \<and> degree d v = 1)"
      using relax_set [OF r dn] uq(5) by (auto simp: nb)
    also have "\<dots> \<longleftrightarrow> degree d' v = 0"
      using I(7) [OF that] no_edge [of v] by (auto simp: relax_degree [OF r dn] nb)
    finally show ?thesis .
  qed
  have inv8: "\<forall>v\<in>set (res @ [?u]). \<forall>w\<in>preds g v. before (res @ [?u]) w v"
    using I(8) kahn_ready(1) [OF wf inv, of ?u] uq(1) by (auto simp: before_append)
  show ?thesis
    unfolding kahn_inv_def using inv1 inv2 inv4 inv5 inv6 inv7 inv8 I(3) uq(2) by simp
qed

lemma greedy_step:
  assumes wf: "wf_graph g" and inv: "kahn_inv g q d res" and ne: "q \<noteq> []" and gr: "greedy g res"
  shows "greedy g (res @ [pq_top q])"
  unfolding greedy_def
proof (intro allI impI ballI)
  fix i v
  assume i: "i < length (res @ [pq_top q])" and v: "v \<in> set (nodes g)"
    and h: "degree (inDegree g) v = int (card (preds g v)) \<and>
      v \<notin> set (take i (res @ [pq_top q])) \<and> preds g v \<subseteq> set (take i (res @ [pq_top q]))"
  show "v \<le> (res @ [pq_top q]) ! i"
  proof (cases "i < length res")
    case True
    with h v gr show ?thesis by (auto simp: greedy_def nth_append)
  next
    case False
    with i have il: "i = length res" by simp
    with h have "v \<notin> set res" "preds g v \<subseteq> set res" by auto
    moreover have "preds g v \<inter> set res = preds g v" using \<open>preds g v \<subseteq> set res\<close> by blast
    ultimately have "degree d v = 0" using kahn_invD(6) [OF inv, of v] h by simp
    with \<open>v \<notin> set res\<close> have "v \<in># mset q" using kahn_invD(7) [OF inv v] by simp
    moreover have "pq_invar q" by (rule kahn_invD(1) [OF inv])
    ultimately have "v \<le> pq_top q" by (rule pq.top_greatest [rotated])
    with il show ?thesis by simp
  qed
qed

lemma sort_loop_inv:
  assumes "wf_graph g" "kahn_inv g q d res" "greedy g res"
  shows "\<exists>d'. kahn_inv g [] d' (sort_loop g q d res) \<and> greedy g (sort_loop g q d res)"
  using assms
proof (induction g q d res rule: sort_loop.induct)
  case (1 g q d res)
  show ?case
  proof (cases "q = []")
    case True
    with "1.prems" show ?thesis by (auto simp: sort_loop.simps [of g "[]" d res])
  next
    case False
    obtain d' q' where r: "relax (neighbors g (pq_top q)) d (pq_pop q) = (d', q')" by fastforce
    have "\<exists>d''. kahn_inv g [] d'' (sort_loop g q' d' (res @ [pq_top q])) \<and>
        greedy g (sort_loop g q' d' (res @ [pq_top q]))"
      using "1.prems" False r by (intro "1.IH" kahn_step greedy_step) auto
    with False r show ?thesis by (simp add: sort_loop.simps [of g q d res])
  qed
qed

lemma foldl_push:
  "distinct ns \<Longrightarrow> distinct q \<Longrightarrow> set ns \<inter> set q = {} \<Longrightarrow> pq_invar q \<Longrightarrow>
   (let q' = foldl (\<lambda>q n. if P n then pq_push n q else q) q ns
    in distinct q' \<and> pq_invar q' \<and> set q' = set q \<union> {n \<in> set ns. P n})"
proof (induction ns arbitrary: q)
  case Nil
  then show ?case by simp
next
  case (Cons n ns)
  show ?case
  proof (cases "P n")
    case True
    with Cons.prems Cons.IH [of "pq_push n q"] show ?thesis
      by (auto simp: Let_def pq_invar_push)
  next
    case False
    with Cons.prems Cons.IH [of q] show ?thesis by (auto simp: Let_def)
  qed
qed

text \<open>An exact count of predecessors and no cycle: the loop emits every node.\<close>

lemma kahn_complete:
  assumes wf: "wf_graph g" and inv: "kahn_inv g [] d res"
    and ac: "on_cycle g = {}" and ex: "\<And>v. v \<in> set (nodes g) \<Longrightarrow> degree (inDegree g) v = int (card (preds g v))"
  shows "set res = set (nodes g)"
proof (rule ccontr)
  assume "set res \<noteq> set (nodes g)"
  moreover have "set res \<subseteq> set (nodes g)" using kahn_invD(5) [OF inv] by simp
  ultimately obtain x where x: "x \<in> set (nodes g) - set res" by blast
  have "finite (edges g)"
    by (rule finite_subset [of _ "set (nodes g) \<times> set (nodes g)"]) (use wf in \<open>auto simp: wf_graph_def\<close>)
  moreover have "acyclic (edges g)" using ac by (auto simp: acyclic_def on_cycle_def)
  ultimately have "wf (edges g)" by (rule finite_acyclic_wf)
  then obtain v where v: "v \<in> set (nodes g) - set res"
    and min: "\<And>u. (u, v) \<in> edges g \<Longrightarrow> u \<notin> set (nodes g) - set res"
    using x by (rule wfE_min) blast
  have "preds g v \<subseteq> set res" using min wf by (auto simp: preds_def dest: edges_nodes)
  then have "preds g v \<inter> set res = preds g v" by blast
  then have "degree d v = 0" using kahn_invD(6) [OF inv, of v] ex v by simp
  with kahn_invD(7) [OF inv, of v] v show False by simp
qed

lemma topologicalSort_cases:
  assumes wf: "wf_graph g"
  obtains (cyclic) V where "topologicalSort g = Some (False, [], g\<lparr>visited := V\<rparr>)" "on_cycle g \<noteq> {}"
  | (acyclic) V d res where "on_cycle g = {}" "kahn_inv g [] d res" "greedy g res"
      "topologicalSort g = Some (length res = length (nodes g), res, g\<lparr>visited := V\<rparr>)"
proof -
  obtain V where hc: "hasCycle g = Some (on_cycle g \<noteq> {}, g\<lparr>visited := V\<rparr>)"
    using hasCycle_correct [OF wf] by blast
  show ?thesis
  proof (cases "on_cycle g = {}")
    case False
    with hc show ?thesis by (intro cyclic) (auto simp: topologicalSort_def)
  next
    case True
    let ?g = "g\<lparr>visited := V\<rparr>"
    let ?q = "foldl (\<lambda>q n. if degree (inDegree g) n = 0 then pq_push n q else q) [] (nodes g)"
    have "distinct (nodes g)" using wf by (simp add: wf_graph_def)
    then have q: "distinct ?q" "pq_invar ?q" "set ?q = {n \<in> set (nodes g). degree (inDegree g) n = 0}"
      using foldl_push [of "nodes g" "[]" "\<lambda>n. degree (inDegree g) n = 0"]
      by (simp_all add: Let_def pq_invar_def)
    have "kahn_inv ?g ?q (inDegree g) []" using q by (auto simp: kahn_inv_def)
    moreover have "greedy ?g []" by (simp add: greedy_def)
    ultimately have "\<exists>d. kahn_inv ?g [] d (sort_loop ?g ?q (inDegree g) []) \<and>
        greedy ?g (sort_loop ?g ?q (inDegree g) [])"
      by (intro sort_loop_inv) (simp add: wf)
    then obtain d where
      "kahn_inv ?g [] d (sort_loop ?g ?q (inDegree g) [])" "greedy ?g (sort_loop ?g ?q (inDegree g) [])"
      by blast
    then show ?thesis
      using hc True by (intro acyclic [of d "sort_loop ?g ?q (inDegree g) []"])
        (auto simp: topologicalSort_def kahn_inv_def greedy_def Let_def)
  qed
qed

subsection \<open>What a sort returns\<close>

definition exact :: "depgraph \<Rightarrow> bool" where
  "exact g \<longleftrightarrow> (\<forall>v\<in>set (nodes g). degree (inDegree g) v = int (card (preds g v)))"

lemma topologicalSort_spec:
  assumes wf: "wf_graph g"
  shows "\<exists>ok res V. topologicalSort g = Some (ok, res, g\<lparr>visited := V\<rparr>) \<and>
    (ok \<longleftrightarrow> on_cycle g = {} \<and> exact g) \<and>
    (ok \<longrightarrow> distinct res \<and> set res = set (nodes g) \<and>
       (\<forall>(u, v)\<in>edges g. before res u v) \<and>
       (\<forall>i<length res. \<forall>v\<in>set (nodes g) - set (take i res).
          preds g v \<subseteq> set (take i res) \<longrightarrow> v \<le> res ! i))"
proof (rule topologicalSort_cases [OF wf])
  fix V
  assume "topologicalSort g = Some (False, [], g\<lparr>visited := V\<rparr>)" "on_cycle g \<noteq> {}"
  then show ?thesis by (intro exI [of _ False] exI [of _ "[]"] exI [of _ V]) simp
next
  fix V d res
  assume ac: "on_cycle g = {}" and inv: "kahn_inv g [] d res" and gr: "greedy g res"
    and ts: "topologicalSort g = Some (length res = length (nodes g), res, g\<lparr>visited := V\<rparr>)"
  note I = kahn_invD [OF inv]
  have dn: "distinct (nodes g)" using wf by (simp add: wf_graph_def)
  have all_iff: "length res = length (nodes g) \<longleftrightarrow> set res = set (nodes g)"
  proof
    assume "length res = length (nodes g)"
    then have "card (set res) = card (set (nodes g))"
      using dn I(3) by (metis distinct_card)
    then show "set res = set (nodes g)" using I(5) by (intro card_subset_eq) auto
  next
    assume "set res = set (nodes g)"
    then show "length res = length (nodes g)" using dn I(3) by (metis distinct_card)
  qed
  have ok_iff: "length res = length (nodes g) \<longleftrightarrow> exact g"
    using kahn_ready(2) [OF wf inv] kahn_complete [OF wf inv ac]
    by (auto simp only: all_iff exact_def)
  have edge: "before res u v" if "set res = set (nodes g)" "(u, v) \<in> edges g" for u v
    using that I(8) edges_nodes [OF wf that(2)] by (auto simp: preds_def)
  have top: "v \<le> res ! i" if "exact g" "i < length res" "v \<in> set (nodes g) - set (take i res)"
    "preds g v \<subseteq> set (take i res)" for i v
    using gr that by (auto simp: greedy_def exact_def)
  show ?thesis
  proof (intro exI conjI impI)
    show "topologicalSort g = Some (length res = length (nodes g), res, g\<lparr>visited := V\<rparr>)" by (rule ts)
    show "length res = length (nodes g) \<longleftrightarrow> on_cycle g = {} \<and> exact g" using ok_iff ac by simp
  qed (use I(3) all_iff ok_iff edge top in \<open>auto\<close>)
qed

subsection \<open>The graph built by mergeVectors\<close>

lemma dedup_set: "set (dedup seen xs) = set xs - set seen"
  by (induction xs arbitrary: seen) auto

lemma dedup_distinct: "distinct (dedup seen xs)"
  by (induction xs arbitrary: seen) (auto simp: dedup_set)

lemma dedup_subseq: "subseq (dedup seen xs) xs"
  by (induction xs arbitrary: seen) auto

lemma dedup_id: "distinct xs \<Longrightarrow> set xs \<inter> set seen = {} \<Longrightarrow> dedup seen xs = xs"
  by (induction xs arbitrary: seen) auto

definition fresh_graph :: "depgraph \<Rightarrow> bool" where
  "fresh_graph g \<longleftrightarrow> wf_graph g \<and> edges g = {} \<and> (\<forall>v. degree (inDegree g) v = 0)"

lemma fresh_empty: "fresh_graph empty_graph"
  using wf_empty by (simp add: fresh_graph_def edges_def neighbors_def empty_graph_def degree_def)

lemma add_nodes_spec:
  "fresh_graph g \<Longrightarrow> fresh_graph (add_nodes g xs) \<and> set (nodes (add_nodes g xs)) = set (nodes g) \<union> set xs"
proof (induction xs arbitrary: g)
  case Nil
  then show ?case by simp
next
  case (Cons x xs)
  have "fresh_graph (snd (addNode g x))"
  proof -
    have "degree (inDegree (snd (addNode g x))) v = 0" for v
      using Cons.prems by (simp add: fresh_graph_def addNode_def degree_update)
    then show ?thesis
      using Cons.prems wf_addNode [of g x] by (simp add: fresh_graph_def addNode_simps)
  qed
  moreover have "set (nodes (snd (addNode g x))) = insert x (set (nodes g))"
    unfolding addNode_simps by auto
  ultimately show ?case using Cons.IH [of "snd (addNode g x)"] by auto
qed

text \<open>How often \<open>addEdge\<close> is called with the target \<open>v\<close> along a chain.\<close>

definition arrivals :: "string list \<Rightarrow> string \<Rightarrow> int" where
  "arrivals xs v = int (length (filter (\<lambda>p. snd p = v) (pairs xs)))"

lemma add_chain_spec:
  "wf_graph g \<Longrightarrow> set xs \<subseteq> set (nodes g) \<Longrightarrow>
   \<exists>g'. add_chain g xs = (True, g') \<and> wf_graph g' \<and> nodes g' = nodes g \<and>
     edges g' = edges g \<union> set (pairs xs) \<and>
     (\<forall>v. degree (inDegree g') v = degree (inDegree g) v + arrivals xs v)"
proof (induction g xs rule: add_chain.induct)
  case (1 g x y xs)
  have xy: "x \<in> set (nodes g)" "y \<in> set (nodes g)" using "1.prems"(2) by simp_all
  define g1 where "g1 = snd (addEdge g x y)"
  have e: "addEdge g x y = (True, g1)"
    using addEdge_simps(1) [OF xy] by (simp add: g1_def prod_eq_iff)
  have n1: "nodes g1 = nodes g" and e1: "edges g1 = insert (x, y) (edges g)"
    and d1: "inDegree g1 = AList.update y (degree (inDegree g) y + 1) (inDegree g)"
    unfolding g1_def by (rule addEdge_simps [OF xy])+
  have "wf_graph g1" unfolding g1_def by (rule wf_addEdge) fact
  moreover have "set (y # xs) \<subseteq> set (nodes g1)" using "1.prems"(2) unfolding n1 by simp
  ultimately obtain g' where g': "add_chain g1 (y # xs) = (True, g')" "wf_graph g'"
    "nodes g' = nodes g1" "edges g' = edges g1 \<union> set (pairs (y # xs))"
    "\<forall>v. degree (inDegree g') v = degree (inDegree g1) v + arrivals (y # xs) v"
    using "1.IH" [OF e [symmetric] refl] by auto
  show ?case
    by (intro exI [of _ g']) (use e g' n1 e1 d1 in \<open>auto simp: arrivals_def degree_update\<close>)
qed (auto simp: arrivals_def)

definition merge_graph :: "string list \<Rightarrow> string list \<Rightarrow> depgraph" where
  "merge_graph Vec1 Vec2 =
     (let u1 = dedup [] Vec1; u2 = dedup [] Vec2;
          g = add_nodes (add_nodes empty_graph u1) u2
      in snd (add_chain (snd (add_chain g u1)) u2))"

definition chain_edges :: "string list \<Rightarrow> string list \<Rightarrow> (string \<times> string) set" where
  "chain_edges Vec1 Vec2 = set (pairs (dedup [] Vec1)) \<union> set (pairs (dedup [] Vec2))"

lemma merge_graph_spec:
  fixes Vec1 Vec2
  defines "u1 \<equiv> dedup [] Vec1" and "u2 \<equiv> dedup [] Vec2"
  shows "wf_graph (merge_graph Vec1 Vec2)"
    and "set (nodes (merge_graph Vec1 Vec2)) = set Vec1 \<union> set Vec2"
    and "edges (merge_graph Vec1 Vec2) = chain_edges Vec1 Vec2"
    and "degree (inDegree (merge_graph Vec1 Vec2)) v = arrivals u1 v + arrivals u2 v"
    and "mergeVectors Vec1 Vec2 r =
      (if Vec1 = [] \<and> Vec2 = [] then Some (True, [])
       else map_option (\<lambda>(ok, res, _). (ok, if ok then res else []))
              (topologicalSort (merge_graph Vec1 Vec2)))"
proof -
  define g where "g = add_nodes (add_nodes empty_graph u1) u2"
  have f1: "fresh_graph (add_nodes empty_graph u1)" "set (nodes (add_nodes empty_graph u1)) = set u1"
    using add_nodes_spec [OF fresh_empty, of u1] by (simp_all add: empty_graph_def)
  have f: "fresh_graph g" and ng: "set (nodes g) = set u1 \<union> set u2"
    using add_nodes_spec [OF f1(1), of u2] f1(2) by (simp_all add: g_def)
  obtain g1 where g1: "add_chain g u1 = (True, g1)" "wf_graph g1" "nodes g1 = nodes g"
    "edges g1 = edges g \<union> set (pairs u1)"
    "\<forall>v. degree (inDegree g1) v = degree (inDegree g) v + arrivals u1 v"
    using add_chain_spec [of g u1] f ng by (auto simp: fresh_graph_def)
  obtain g2 where g2: "add_chain g1 u2 = (True, g2)" "wf_graph g2" "nodes g2 = nodes g1"
    "edges g2 = edges g1 \<union> set (pairs u2)"
    "\<forall>v. degree (inDegree g2) v = degree (inDegree g1) v + arrivals u2 v"
    using add_chain_spec [of g1 u2] g1 ng by auto
  have mg: "merge_graph Vec1 Vec2 = g2"
    unfolding merge_graph_def Let_def u1_def [symmetric] u2_def [symmetric] g_def [symmetric]
    by (simp add: g1 g2)
  show "wf_graph (merge_graph Vec1 Vec2)" using g2 mg by simp
  show "set (nodes (merge_graph Vec1 Vec2)) = set Vec1 \<union> set Vec2"
    unfolding mg g2(3) g1(3) ng by (simp add: u1_def u2_def dedup_set)
  show "edges (merge_graph Vec1 Vec2) = chain_edges Vec1 Vec2"
    using f unfolding mg g2(4) g1(4) by (simp add: chain_edges_def u1_def u2_def fresh_graph_def)
  show "degree (inDegree (merge_graph Vec1 Vec2)) v = arrivals u1 v + arrivals u2 v"
    using f unfolding mg by (simp add: g2(5) g1(5) fresh_graph_def)
  show "mergeVectors Vec1 Vec2 r =
      (if Vec1 = [] \<and> Vec2 = [] then Some (True, [])
       else map_option (\<lambda>(ok, res, _). (ok, if ok then res else []))
              (topologicalSort (merge_graph Vec1 Vec2)))"
    unfolding mergeVectors_def Let_def u1_def [symmetric] u2_def [symmetric] g_def [symmetric] mg
    by (simp add: g1(1) g2(1) split: option.splits)
qed


lemma card_preds_chain:
  "distinct xs \<Longrightarrow> int (card {a. (a, v) \<in> set (pairs xs)}) = arrivals xs v"
proof -
  assume d: "distinct xs"
  have "{a. (a, v) \<in> set (pairs xs)} = fst ` set (filter (\<lambda>p. snd p = v) (pairs xs))"
    by force
  moreover have "inj_on fst (set (filter (\<lambda>p. snd p = v) (pairs xs)))"
    by (auto simp: inj_on_def)
  ultimately have "card {a. (a, v) \<in> set (pairs xs)} = card (set (filter (\<lambda>p. snd p = v) (pairs xs)))"
    by (simp add: card_image)
  also have "\<dots> = length (filter (\<lambda>p. snd p = v) (pairs xs))"
    by (rule distinct_card) (simp add: distinct_pairs d)
  finally show ?thesis by (simp add: arrivals_def)
qed

lemma finite_pairs: "finite {a. (a, v) \<in> set (pairs xs)}"
  by (rule finite_subset [of _ "set xs"]) (auto dest: pairs_in_set)

lemma merge_graph_exact:
  "exact (merge_graph Vec1 Vec2) \<longleftrightarrow>
     set (pairs (dedup [] Vec1)) \<inter> set (pairs (dedup [] Vec2)) = {}"
proof -
  let ?u1 = "dedup [] Vec1" and ?u2 = "dedup [] Vec2"
  let ?A = "\<lambda>v. {a. (a, v) \<in> set (pairs ?u1)}" and ?B = "\<lambda>v. {a. (a, v) \<in> set (pairs ?u2)}"
  have P: "preds (merge_graph Vec1 Vec2) v = ?A v \<union> ?B v" for v
    by (auto simp: preds_def merge_graph_spec(3) chain_edges_def)
  have D: "degree (inDegree (merge_graph Vec1 Vec2)) v =
      int (card (?A v \<union> ?B v)) + int (card (?A v \<inter> ?B v))" for v
    using card_Un_Int [OF finite_pairs finite_pairs, of v ?u1 v ?u2]
      card_preds_chain [OF dedup_distinct, of v "[]" Vec1] card_preds_chain [OF dedup_distinct, of v "[]" Vec2]
    by (simp add: merge_graph_spec(4))
  have "degree (inDegree (merge_graph Vec1 Vec2)) v = int (card (preds (merge_graph Vec1 Vec2) v))
      \<longleftrightarrow> ?A v \<inter> ?B v = {}" for v
    unfolding D P using finite_pairs [of v ?u1] by simp
  moreover have "?A v \<inter> ?B v = {}" if "v \<notin> set (nodes (merge_graph Vec1 Vec2))" for v
    using that unfolding merge_graph_spec(2) by (auto dest!: pairs_in_set simp: dedup_set)
  ultimately have "exact (merge_graph Vec1 Vec2) \<longleftrightarrow> (\<forall>v. ?A v \<inter> ?B v = {})"
    unfolding exact_def by blast
  then show ?thesis by auto
qed

lemma on_cycle_acyclic: "on_cycle g = {} \<longleftrightarrow> acyclic (edges g)"
  by (auto simp: on_cycle_def acyclic_def)

lemma mergeVectors_cases:
  assumes "\<not> (Vec1 = [] \<and> Vec2 = [])"
  obtains ok res where "mergeVectors Vec1 Vec2 r = Some (ok, if ok then res else [])"
    "ok \<longleftrightarrow> acyclic (chain_edges Vec1 Vec2) \<and>
        set (pairs (dedup [] Vec1)) \<inter> set (pairs (dedup [] Vec2)) = {}"
    "ok \<Longrightarrow> distinct res" "ok \<Longrightarrow> set res = set Vec1 \<union> set Vec2"
    "\<And>u v. ok \<Longrightarrow> (u, v) \<in> chain_edges Vec1 Vec2 \<Longrightarrow> before res u v"
proof -
  let ?g = "merge_graph Vec1 Vec2"
  obtain ok res V where ts: "topologicalSort ?g = Some (ok, res, ?g\<lparr>visited := V\<rparr>)"
    and ok: "ok \<longleftrightarrow> on_cycle ?g = {} \<and> exact ?g"
    and sp: "ok \<longrightarrow> distinct res \<and> set res = set (nodes ?g) \<and> (\<forall>(u, v)\<in>edges ?g. before res u v)"
    using topologicalSort_spec [OF merge_graph_spec(1)] by blast
  show thesis
  proof (rule that [of ok res])
    show "mergeVectors Vec1 Vec2 r = Some (ok, if ok then res else [])"
      using assms ts by (auto simp: merge_graph_spec(5))
    show "ok \<longleftrightarrow> acyclic (chain_edges Vec1 Vec2) \<and>
        set (pairs (dedup [] Vec1)) \<inter> set (pairs (dedup [] Vec2)) = {}"
      using ok by (simp add: merge_graph_spec(3) merge_graph_exact on_cycle_acyclic)
    show "set res = set Vec1 \<union> set Vec2" if ok
      using sp that merge_graph_spec(2) by simp
  qed (use sp merge_graph_spec(3) in auto)
qed

text \<open>
  C30: \<open>mergeVectors\<close> always returns. It succeeds exactly when the chains of the two
  deduplicated vectors have no cycle together and no consecutive pair in common, and on
  failure it leaves the output empty.
\<close>

theorem mergeVectors_total:
  "\<exists>res. mergeVectors Vec1 Vec2 r =
     (if acyclic (chain_edges Vec1 Vec2) \<and>
         set (pairs (dedup [] Vec1)) \<inter> set (pairs (dedup [] Vec2)) = {}
      then Some (True, res) else Some (False, []))"
proof (cases "Vec1 = [] \<and> Vec2 = []")
  case True
  then show ?thesis
    by (intro exI [of _ "[]"]) (simp add: mergeVectors_def chain_edges_def acyclic_def)
next
  case False
  then show ?thesis
    by (rule mergeVectors_cases [of Vec1 Vec2 r]) auto
qed

lemma mergeVectors_merges:
  assumes "mergeVectors Vec1 Vec2 r = Some (True, res)"
  shows "distinct res \<and> set res = set Vec1 \<union> set Vec2 \<and>
    subseq (dedup [] Vec1) res \<and> subseq (dedup [] Vec2) res"
proof (cases "Vec1 = [] \<and> Vec2 = []")
  case True
  with assms show ?thesis by (simp add: mergeVectors_def)
next
  case False
  then obtain res' where res: "res = res'" "distinct res'" "set res' = set Vec1 \<union> set Vec2"
    "\<And>u v. (u, v) \<in> chain_edges Vec1 Vec2 \<Longrightarrow> before res' u v"
    by (rule mergeVectors_cases [of Vec1 Vec2 r]) (use assms in auto)
  have sub: "subseq (dedup [] V) res'"
    if "set V \<subseteq> set res'" "set (pairs (dedup [] V)) \<subseteq> chain_edges Vec1 Vec2" for V
  proof (rule subseq_if_before [OF res(2) dedup_distinct])
    show "set (dedup [] V) \<subseteq> set res'" using that(1) by (simp add: dedup_set)
    show "before res' a b" if "before (dedup [] V) a b" for a b
      using that by (rule before_of_pairs [OF res(2), rotated]) (use res(4) \<open>set (pairs (dedup [] V)) \<subseteq> chain_edges Vec1 Vec2\<close> in auto)
  qed
  show ?thesis
    unfolding res(1) using res(2,3) sub [of Vec1] sub [of Vec2] by (simp add: chain_edges_def)
qed

lemma mergeVectors_returns: "\<exists>ok res. mergeVectors Vec1 Vec2 r = Some (ok, res)"
proof (cases "Vec1 = [] \<and> Vec2 = []")
  case True
  then have "mergeVectors Vec1 Vec2 r = Some (True, [])" by (simp add: mergeVectors_def)
  then show ?thesis by blast
next
  case False
  then show ?thesis by (rule mergeVectors_cases) blast
qed

text \<open>
  C6: a successful \<open>mergeVectors\<close> returns every line of the two vectors exactly once, with
  the order of both vectors kept: each deduplicated input is a subsequence of the result.
\<close>

theorem mergeVectors_sound:
  assumes "mergeVectors Vec1 Vec2 r = Some (True, res)"
  shows "distinct res \<and> set res = set Vec1 \<union> set Vec2 \<and>
    subseq (dedup [] Vec1) res \<and> subseq (dedup [] Vec2) res"
  using assms by (rule mergeVectors_merges)

theorem mergeVectors_sound_witness:
  "mergeVectors [''a'', ''b''] [''a'', ''c'', ''b''] [] = Some (True, [''a'', ''c'', ''b''])
   \<and> subseq (dedup [] [''a'', ''b'']) [''a'', ''c'', ''b'']"
proof -
  have "mergeVectors [''a'', ''b''] [''a'', ''c'', ''b''] [] = Some (True, [''a'', ''c'', ''b''])"
    by code_simp
  with mergeVectors_sound [OF this] show ?thesis by simp
qed

text \<open>
  two vectors that agree on two consecutive lines are never merged: \<open>addEdge\<close> counts the
  repeated edge twice in the in-degree but stores it once, so the sort cannot finish.
\<close>

theorem mergeVectors_common_pair_fails:
  assumes "(a, b) \<in> set (pairs (dedup [] Vec1))" "(a, b) \<in> set (pairs (dedup [] Vec2))"
  shows "mergeVectors Vec1 Vec2 r = Some (False, [])"
proof (cases "Vec1 = [] \<and> Vec2 = []")
  case True
  with assms show ?thesis by simp
next
  case False
  then show ?thesis
    by (rule mergeVectors_cases [of Vec1 Vec2 r]) (use assms in auto)
qed

theorem mergeVectors_common_pair_witness:
  "mergeVectors [''x'', ''y''] [''x'', ''y''] [] = Some (False, [])"
  by (rule mergeVectors_common_pair_fails [of "''x''" "''y''"]) simp_all

subsection \<open>Histories of calls\<close>

text \<open>The states the public methods of the class can reach from a new object.\<close>

inductive reachable_graph :: "depgraph \<Rightarrow> bool" where
  new_graph: "reachable_graph empty_graph"
| call_addNode: "reachable_graph g \<Longrightarrow> reachable_graph (snd (addNode g n))"
| call_addEdge: "reachable_graph g \<Longrightarrow> reachable_graph (snd (addEdge g a b))"
| call_hasCycle: "reachable_graph g \<Longrightarrow> hasCycle g = Some (r, g') \<Longrightarrow> reachable_graph g'"
| call_topologicalSort:
    "reachable_graph g \<Longrightarrow> topologicalSort g = Some (r, res, g') \<Longrightarrow> reachable_graph g'"
| call_clear: "reachable_graph g \<Longrightarrow> reachable_graph (clear_graph g)"

lemma reachable_wf: "reachable_graph g \<Longrightarrow> wf_graph g"
proof (induction rule: reachable_graph.induct)
  case (call_hasCycle g r g')
  then show ?case using hasCycle_correct [of g] by auto
next
  case (call_topologicalSort g r res g')
  from call_topologicalSort.IH show ?case
    by (rule topologicalSort_cases) (use call_topologicalSort in auto)
qed (simp_all add: wf_empty wf_addNode wf_addEdge wf_clear_graph)

text \<open>
  C33: after any sequence of calls on a new graph object, \<open>hasCycle\<close> terminates and returns
  true exactly when the stored edges have a cycle.
\<close>

theorem hasCycle_decides:
  assumes "reachable_graph g"
  shows "\<exists>V. hasCycle g = Some (\<not> acyclic (edges g), g\<lparr>visited := V\<rparr>)"
  using hasCycle_correct [OF reachable_wf [OF assms]] by (simp add: on_cycle_acyclic)

theorem hasCycle_decides_witness:
  "reachable_graph empty_graph \<and>
   (\<exists>V. hasCycle empty_graph = Some (\<not> acyclic (edges empty_graph), empty_graph\<lparr>visited := V\<rparr>))"
  using hasCycle_decides [OF new_graph] new_graph by blast

text \<open>
  C16: on a well-formed graph \<open>topologicalSort\<close> terminates. It reports success exactly when the
  edges are acyclic and every recorded in-degree is the number of predecessors; then the
  result lists every node once, every edge points forward, and at every position stands the
  greatest of the nodes whose predecessors have all been listed, so the result does not
  depend on the iteration order of the hash containers.
\<close>

theorem topologicalSort_correct:
  assumes "wf_graph g"
  shows "\<exists>ok res V. topologicalSort g = Some (ok, res, g\<lparr>visited := V\<rparr>) \<and>
    (ok \<longleftrightarrow> on_cycle g = {} \<and> exact g) \<and>
    (ok \<longrightarrow> distinct res \<and> set res = set (nodes g) \<and>
       (\<forall>(u, v)\<in>edges g. before res u v) \<and>
       (\<forall>i<length res. \<forall>v\<in>set (nodes g) - set (take i res).
          preds g v \<subseteq> set (take i res) \<longrightarrow> v \<le> res ! i))"
  using assms by (rule topologicalSort_spec)

theorem topologicalSort_correct_witness:
  "wf_graph (merge_graph [''a''] [''b'']) \<and>
   (\<exists>ok res V. topologicalSort (merge_graph [''a''] [''b'']) =
      Some (ok, res, (merge_graph [''a''] [''b''])\<lparr>visited := V\<rparr>) \<and>
      (ok \<longrightarrow> set res = {''a'', ''b''}))"
proof -
  have gen: "\<exists>ok res V. topologicalSort g = Some (ok, res, g\<lparr>visited := V\<rparr>) \<and>
      (ok \<longrightarrow> set res = set (nodes g))" if "wf_graph g" for g
    using topologicalSort_correct [OF that] by blast
  have nodes: "set (nodes (merge_graph [''a''] [''b''])) = {''a'', ''b''}"
    unfolding merge_graph_spec(2) by auto
  show ?thesis
    using gen [OF merge_graph_spec(1), of "[''a'']" "[''b'']"] merge_graph_spec(1)
    unfolding nodes by (intro conjI)
qed

end
