(* ===== verification/StringOp.thy ===== *)
theory StringOp
  imports Prelude
begin

section \<open>String utilities\<close>

text \<open>
  Models the free functions of \<open>include/mergebot/utils/stringop.h\<close>: hexadecimal digits,
  splitting, trimming and joining, the comment and space remover, prefix and suffix tests and
  the macro expansion. An \<open>assert\<close> that fails is \<^term>\<open>None\<close>.
\<close>

subsection \<open>Hexadecimal digits\<close>

text \<open>The table of \<open>hexDigitValue\<close>, row by row; its entries are \<open>int16_t\<close>.\<close>

definition hexLUT :: "16 word list" where
  "hexLUT =
     replicate 48 (- 1)
     @ [0, 1, 2, 3, 4, 5, 6, 7, 8, 9, - 1, - 1, - 1, - 1, - 1, - 1]
     @ [- 1, 10, 11, 12, 13, 14, 15, - 1, - 1, - 1, - 1, - 1, - 1, - 1, - 1, - 1]
     @ replicate 16 (- 1)
     @ [- 1, 10, 11, 12, 13, 14, 15, - 1, - 1, - 1, - 1, - 1, - 1, - 1, - 1, - 1]
     @ replicate 144 (- 1)"

text \<open>The \<open>int16_t\<close> entry is sign-extended to the \<open>unsigned\<close> result.\<close>

definition hexDigitValue :: "char \<Rightarrow> u32" where
  "hexDigitValue c = word_of_int (sint (hexLUT ! code_of c))"

definition hexdigit :: "nat \<Rightarrow> bool \<Rightarrow> char option" where
  "hexdigit X lower =
     (if X < 16
      then Some (char_of (code_of (''0123456789ABCDEF'' ! X) OR (if lower then 32 else 0)))
      else None)"

definition isHexDigit :: "char \<Rightarrow> bool" where
  "isHexDigit c \<longleftrightarrow> hexDigitValue c \<noteq> NOT 0"

definition tryGetHexFromNibbles :: "char \<Rightarrow> char \<Rightarrow> u8 option" where
  "tryGetHexFromNibbles msb lsb =
     (let u1 = hexDigitValue msb; u2 = hexDigitValue lsb
      in if u1 = NOT 0 \<or> u2 = NOT 0 then None
         else Some (ucast (push_bit 4 u1 OR u2)))"

text \<open>The result of \<open>hexFromNibbles\<close> is asserted to exist.\<close>

definition hexFromNibbles :: "char \<Rightarrow> char \<Rightarrow> u8 option" where
  "hexFromNibbles msb lsb = tryGetHexFromNibbles msb lsb"

subsection \<open>Splitting, trimming and joining\<close>

text \<open>
  The loop of \<open>string_split\<close>: \<open>rest\<close> is the text from \<open>first\<close> to \<open>last\<close>. A round that finds no
  delimiter leaves \<open>second = last\<close> and is the final one.
\<close>

function string_split :: "string \<Rightarrow> string \<Rightarrow> bool \<Rightarrow> string list" where
  "string_split rest delims with_empty =
     (if rest = [] then []
      else case find_idx (\<lambda>c. c \<in> set delims) rest of
             None \<Rightarrow> [rest]
           | Some k \<Rightarrow>
               (if k \<noteq> 0 \<or> with_empty then [take k rest] else [])
               @ string_split (drop (Suc k) rest) delims with_empty)"
  by pat_completeness auto
termination
  by (relation "measure (\<lambda>(rest, delims, we). length rest)") auto

declare string_split.simps [simp del]

definition string_trim :: "string \<Rightarrow> string \<Rightarrow> string" where
  "string_trim str whitespace =
     (case find_idx (\<lambda>c. c \<notin> set whitespace) str of
        None \<Rightarrow> []
      | Some start \<Rightarrow>
          (case find_last_idx (\<lambda>c. c \<notin> set whitespace) str of
             None \<Rightarrow> drop start str
           | Some stop \<Rightarrow> substr str start (stop - start + 1)))"

definition string_join :: "string list \<Rightarrow> string \<Rightarrow> string" where
  "string_join xs separator =
     (if xs = [] then []
      else let concatenated = concat (map (\<lambda>x. x @ separator) xs)
           in case find_last_idx (\<lambda>c. c \<in> set separator) concatenated of
                None \<Rightarrow> concatenated
              | Some pos \<Rightarrow> take pos concatenated)"

subsection \<open>Removing comments and spaces\<close>

record scan_state =
  inSingleLineComment :: bool
  inMultiLineComment :: bool
  inString :: bool
  stringDelimiter :: char

definition scan_init :: scan_state where
  "scan_init = \<lparr>inSingleLineComment = False, inMultiLineComment = False,
                inString = False, stringDelimiter = CHR 0x00\<rparr>"

text \<open>
  \<open>prev\<close> is \<open>code[i - 1]\<close>, the list argument the text from \<open>code[i]\<close> on; the result is what is
  pushed from there on. \<open>tl cs\<close> is the effect of the extra \<open>++i\<close>.
\<close>

function scan :: "scan_state \<Rightarrow> char \<Rightarrow> string \<Rightarrow> string" where
  "scan st prev [] = []"
| "scan st prev (c # cs) =
     (let nxt = (if cs = [] then CHR 0x00 else hd cs) in
      if inString st then
        c # scan (if c = stringDelimiter st \<and> prev \<noteq> BSLASH then st\<lparr>inString := False\<rparr> else st) c cs
      else if c = DQUOTE \<or> c = SQUOTE then
        c # scan (st\<lparr>inString := True, stringDelimiter := c\<rparr>) c cs
      else if inMultiLineComment st then
        (if c = CHR ''*'' \<and> nxt = CHR ''/''
         then scan (st\<lparr>inMultiLineComment := False\<rparr>) nxt (tl cs)
         else scan st c cs)
      else if inSingleLineComment st then
        scan (if c = NL then st\<lparr>inSingleLineComment := False\<rparr> else st) c cs
      else if c = CHR ''/'' \<and> nxt = CHR ''/'' then
        scan (st\<lparr>inSingleLineComment := True\<rparr>) nxt (tl cs)
      else if c = CHR ''/'' \<and> nxt = CHR ''*'' then
        scan (st\<lparr>inMultiLineComment := True\<rparr>) nxt (tl cs)
      else if \<not> isspace c then c # scan st c cs
      else scan st c cs)"
  by pat_completeness auto
termination
  by (relation "measure (\<lambda>(st, prev, s). length s)") auto

definition removeCommentsAndSpaces :: "string \<Rightarrow> string" where
  "removeCommentsAndSpaces code = scan scan_init (CHR 0x00) code"

subsection \<open>Prefixes and suffixes\<close>

definition starts_with :: "string \<Rightarrow> string \<Rightarrow> bool" where
  "starts_with str pre =
     (if length str < length pre then False else take (length pre) str = pre)"

definition ends_with :: "string \<Rightarrow> string \<Rightarrow> bool" where
  "ends_with str suf =
     (if length str < length suf then False
      else take (length suf) (drop (length str - length suf) str) = suf)"

subsection \<open>Macro expansion\<close>

definition macroReplacements :: "(string \<times> string) list" where
  "macroReplacements =
    [(''AT_LEAST_V_OR_202404'', ''API_LEVEL_AT_LEAST(__ANDROID_API_V__, 202404)''),
     (''AT_LEAST_U_OR_202304'', ''API_LEVEL_AT_LEAST(__ANDROID_API_U__, 202304)''),
     (''AT_LEAST_T_OR_202204'', ''API_LEVEL_AT_LEAST(__ANDROID_API_T__, 202204)''),
     (''AT_LEAST_S_OR_202104'', ''API_LEVEL_AT_LEAST(__ANDROID_API_S__, 202104)''),
     (''AT_LEAST_R_OR_202004'', ''API_LEVEL_AT_LEAST(__ANDROID_API_R__, 202004)''),
     (''AT_LEAST_Q_OR_201904'', ''API_LEVEL_AT_LEAST(__ANDROID_API_Q__, 201904)''),
     (''ANDROID_VERSION_V'', ''__ANDROID_API_V__''),
     (''ANDROID_VERSION_U'', ''__ANDROID_API_U__''),
     (''ANDROID_VERSION_T'', ''__ANDROID_API_T__''),
     (''ANDROID_VERSION_S'', ''__ANDROID_API_S__''),
     (''ANDROID_VERSION_R'', ''__ANDROID_API_R__''),
     (''ANDROID_VERSION_Q'', ''__ANDROID_API_Q__''),
     (''API_CHECK_V'', ''(__ANDROID_API__ >= __ANDROID_API_V__)''),
     (''API_CHECK_U'', ''(__ANDROID_API__ >= __ANDROID_API_U__)''),
     (''API_CHECK_T'', ''(__ANDROID_API__ >= __ANDROID_API_T__)''),
     (''API_CHECK_S'', ''(__ANDROID_API__ >= __ANDROID_API_S__)''),
     (''API_CHECK_R'', ''(__ANDROID_API__ >= __ANDROID_API_R__)''),
     (''API_CHECK_Q'', ''(__ANDROID_API__ >= __ANDROID_API_Q__)'')]"

text \<open>
  The inner \<open>while\<close> for one macro. No macro of the table is empty; the guard on the empty one
  only serves the termination proof.
\<close>

function expand_macro :: "string \<Rightarrow> string \<Rightarrow> string \<Rightarrow> nat \<Rightarrow> string" where
  "expand_macro macro expansion result pos =
     (if macro = [] then result
      else case find_str macro result pos of
        None \<Rightarrow> result
      | Some p \<Rightarrow>
          let isValidStart = (p = 0 \<or> \<not> isalnum (result ! (p - 1)));
              isValidEnd = (p + length macro = length result \<or>
                            \<not> isalnum (result ! (p + length macro)))
          in if isValidStart \<and> isValidEnd
             then expand_macro macro expansion
                    (take p result @ expansion @ drop (p + length macro) result)
                    (p + length expansion)
             else expand_macro macro expansion result (p + 1))"
  by pat_completeness auto
termination
proof (relation "measure (\<lambda>(macro, expansion, result, pos). Suc (length result) - pos)", goal_cases)
  case (2 macro expansion result pos p s e)
  from 2(2) have "pos \<le> p" "p + length macro \<le> length result" by (auto dest: find_str_bounds)
  with 2(1) show ?case by (cases macro) auto
next
  case (3 macro expansion result pos p s e)
  from 3(2) have "pos \<le> p" "p + length macro \<le> length result" by (auto dest: find_str_bounds)
  with 3(1) show ?case by (cases macro) auto
qed simp

declare expand_macro.simps [simp del]

definition doMacroExpansion :: "string \<Rightarrow> string" where
  "doMacroExpansion code =
     foldl (\<lambda>result (macro, expansion). expand_macro macro expansion result 0) code macroReplacements"

subsection \<open>Laws of splitting, trimming and joining\<close>

lemma find_last_idx_None_iff: "find_last_idx P xs = None \<longleftrightarrow> (\<forall>x\<in>set xs. \<not> P x)"
  by (induction xs) (auto split: option.splits)

lemma find_last_idx_append:
  "find_last_idx P (xs @ ys) =
     (case find_last_idx P ys of Some i \<Rightarrow> Some (length xs + i) | None \<Rightarrow> find_last_idx P xs)"
  by (induction xs) (auto split: option.splits)

lemma string_split_Nil [simp]: "string_split [] delims we = []"
  by (simp add: string_split.simps)

lemma string_split_no_delim:
  "r \<noteq> [] \<Longrightarrow> \<forall>c\<in>set r. c \<notin> set delims \<Longrightarrow> string_split r delims we = [r]"
  using find_idx_None_iff [of "\<lambda>c. c \<in> set delims" r] by (simp add: string_split.simps [of r])

lemma string_split_delim:
  "\<forall>c\<in>set w. c \<notin> set delims \<Longrightarrow> d \<in> set delims \<Longrightarrow>
   string_split (w @ d # r) delims we =
     (if w \<noteq> [] \<or> we then [w] else []) @ string_split r delims we"
  by (simp add: string_split.simps [of "w @ d # r"]
      find_idx_append_left [of w "\<lambda>c. c \<in> set delims" d r])

text \<open>Induction over the pieces that the delimiters cut a text into.\<close>

lemma delim_induct [case_names Nil Last Piece]:
  assumes "P []"
    and "\<And>w. w \<noteq> [] \<Longrightarrow> \<forall>c\<in>set w. c \<notin> D \<Longrightarrow> P w"
    and "\<And>w d r. \<forall>c\<in>set w. c \<notin> D \<Longrightarrow> d \<in> D \<Longrightarrow> P r \<Longrightarrow> P (w @ d # r)"
  shows "P s"
proof (induction s rule: length_induct)
  case (1 s)
  show ?case
  proof (cases "\<forall>c\<in>set s. c \<notin> D")
    case True
    then show ?thesis using assms(1,2) by (cases "s = []") auto
  next
    case False
    then obtain w d r where s: "s = w @ d # r" "d \<in> D" "\<forall>c\<in>set w. c \<notin> D"
      using split_list_first_prop [of s "\<lambda>c. c \<in> D"] by blast
    then have "length r < length s" by simp
    with 1 have "P r" by simp
    then show ?thesis using assms(3) s by blast
  qed
qed

lemma string_split_concat: "concat (string_split s delims we) = filter (\<lambda>c. c \<notin> set delims) s"
proof (induction s rule: delim_induct [where D = "set delims"])
  case (Last w)
  then show ?case by (simp add: string_split_no_delim filter_id_conv)
next
  case (Piece w d r)
  then show ?case by (simp add: string_split_delim filter_id_conv)
qed simp

lemma string_split_without_empty:
  "string_split s delims False = filter (\<lambda>p. p \<noteq> []) (string_split s delims True)"
proof (induction s rule: delim_induct [where D = "set delims"])
  case (Last w)
  then show ?case by (simp add: string_split_no_delim)
next
  case (Piece w d r)
  then show ?case by (simp add: string_split_delim)
qed simp

lemma string_split_pieces: "p \<in> set (string_split s delims we) \<Longrightarrow> set p \<inter> set delims = {}"
proof (induction s rule: delim_induct [where D = "set delims"])
  case (Last w)
  then show ?case by (auto simp: string_split_no_delim)
next
  case (Piece w d r)
  then show ?case by (auto simp: string_split_delim split: if_splits)
qed simp

lemma string_join_single_sep:
  "string_join xs [d] = (if xs = [] then [] else butlast (concat (map (\<lambda>x. x @ [d]) xs)))"
proof (cases xs rule: rev_cases)
  case (snoc ys y)
  have "find_last_idx (\<lambda>c. c \<in> set [d]) (concat (map (\<lambda>x. x @ [d]) xs)) =
        Some (length (concat (map (\<lambda>x. x @ [d]) ys)) + length y)"
    by (simp add: snoc find_last_idx_append)
  then show ?thesis
    by (simp add: string_join_def snoc butlast_append Let_def)
qed (simp add: string_join_def)

lemma split_terminated:
  "concat (map (\<lambda>x. x @ [d]) (string_split s [d] True)) =
     (if s = [] \<or> last s = d then s else s @ [d])"
proof (induction s rule: delim_induct [where D = "{d}"])
  case (Last w)
  then have "last w \<noteq> d" using last_in_set [of w] by auto
  with Last show ?case by (simp add: string_split_no_delim)
next
  case (Piece w e r)
  then show ?case by (simp add: string_split_delim)
qed simp

lemma split_Nil_iff: "string_split s delims True = [] \<longleftrightarrow> s = []"
proof (induction s rule: delim_induct [where D = "set delims"])
  case (Last w)
  then show ?case by (simp add: string_split_no_delim)
next
  case (Piece w d r)
  then show ?case by (simp add: string_split_delim)
qed simp

lemma join_split:
  "string_join (string_split s [d] True) [d] = (if s \<noteq> [] \<and> last s = d then butlast s else s)"
  by (auto simp: string_join_single_sep split_terminated split_Nil_iff)

lemma string_trim_dropWhile:
  "string_trim s ws =
     rev (dropWhile (\<lambda>c. c \<in> set ws) (rev (dropWhile (\<lambda>c. c \<in> set ws) s)))"
proof (cases "\<forall>c\<in>set s. c \<in> set ws")
  case True
  then have "find_idx (\<lambda>c. c \<notin> set ws) s = None" by (simp add: find_idx_None_iff)
  moreover have "dropWhile (\<lambda>c. c \<in> set ws) s = []" using True by (simp add: dropWhile_eq_Nil_conv)
  ultimately show ?thesis by (simp only: string_trim_def option.case rev.simps dropWhile.simps)
next
  case False
  then obtain a b t where s: "s = a @ b # t" "b \<notin> set ws" "\<forall>c\<in>set a. c \<in> set ws"
    using split_list_first_prop [of s "\<lambda>c. c \<notin> set ws"] by blast
  obtain u c v where t: "b # t = u @ c # v" "c \<notin> set ws" "\<forall>x\<in>set v. x \<in> set ws"
    using split_list_last_prop [of "b # t" "\<lambda>c. c \<notin> set ws"] s(2) by auto
  have i: "find_idx (\<lambda>c. c \<notin> set ws) s = Some (length a)"
    unfolding s(1) by (rule find_idx_append_left) (use s in auto)
  have "find_last_idx (\<lambda>c. c \<notin> set ws) (c # v) = Some 0"
    using t find_last_idx_None_iff [of "\<lambda>c. c \<notin> set ws" v] by simp
  then have j: "find_last_idx (\<lambda>c. c \<notin> set ws) s = Some (length a + length u)"
    by (simp only: s(1) t(1) find_last_idx_append) simp
  have "string_trim s ws = u @ [c]"
    unfolding string_trim_def i j by (simp add: s(1) t(1) substr_def)
  moreover have "dropWhile (\<lambda>c. c \<in> set ws) s = u @ c # v"
    using s by (simp add: dropWhile_append2 flip: t(1))
  moreover have "dropWhile (\<lambda>c. c \<in> set ws) (rev v @ c # rev u) = c # rev u"
    using t(2,3) dropWhile_append2 [of "rev v" "\<lambda>c. c \<in> set ws" "c # rev u"] by auto
  ultimately show ?thesis by simp
qed

lemma starts_with_prefix: "starts_with s p \<longleftrightarrow> prefix p s"
  by (auto simp: starts_with_def prefix_def not_less) (metis append_take_drop_id)

lemma ends_with_suffix: "ends_with s p \<longleftrightarrow> suffix p s"
  by (auto simp: ends_with_def suffix_def not_less) (metis append_take_drop_id)


subsection \<open>Laws of the comment remover\<close>

text \<open>
  A source text as a sequence of segments: plain text, a line comment, a block comment and a
  literal. \<open>render\<close> writes the text, \<open>kept\<close> is what remains of it.
\<close>

datatype segment =
    Plain string
  | LineComment string
  | BlockComment string
  | Literal char string

fun render :: "segment \<Rightarrow> string" where
  "render (Plain p) = p"
| "render (LineComment b) = ''//'' @ b @ [NL]"
| "render (BlockComment b) = ''/*'' @ b @ ''*/''"
| "render (Literal q b) = [q] @ b @ [q]"

fun kept :: "segment \<Rightarrow> string" where
  "kept (Plain p) = filter (\<lambda>c. \<not> isspace c) p"
| "kept (LineComment b) = []"
| "kept (BlockComment b) = []"
| "kept (Literal q b) = [q] @ b @ [q]"

definition no_quote :: "string \<Rightarrow> bool" where
  "no_quote b \<longleftrightarrow> DQUOTE \<notin> set b \<and> SQUOTE \<notin> set b"

fun wf_segment :: "segment \<Rightarrow> bool" where
  "wf_segment (Plain p) = (no_quote p \<and> CHR ''/'' \<notin> set p)"
| "wf_segment (LineComment b) = (no_quote b \<and> NL \<notin> set b)"
| "wf_segment (BlockComment b) = (no_quote b \<and> CHR ''/'' \<notin> set b)"
| "wf_segment (Literal q b) = ((q = DQUOTE \<or> q = SQUOTE) \<and> q \<notin> set b \<and> (b = [] \<or> last b \<noteq> BSLASH))"

lemma scan_prev: "\<not> inString st \<Longrightarrow> scan st p s = scan st q s"
  by (cases s) auto


text \<open>The scanner outside of comments and literals; \<open>d\<close> is the last delimiter it met.\<close>

definition in_code :: "char \<Rightarrow> scan_state" where
  "in_code d = scan_init\<lparr>stringDelimiter := d\<rparr>"

lemma in_code_simps [simp]:
  "\<not> inString (in_code d)" "\<not> inMultiLineComment (in_code d)" "\<not> inSingleLineComment (in_code d)"
  "stringDelimiter (in_code d) = d"
  by (simp_all add: in_code_def scan_init_def)

lemma in_code_updates [simp]:
  "in_code d\<lparr>inSingleLineComment := False\<rparr> = in_code d"
  "in_code d\<lparr>inMultiLineComment := False\<rparr> = in_code d"
  "in_code d\<lparr>stringDelimiter := e\<rparr> = in_code e"
  "in_code d\<lparr>inString := False\<rparr> = in_code d"
  "in_code d\<lparr>inString := True, stringDelimiter := e\<rparr> = in_code e\<lparr>inString := True\<rparr>"
  by (simp_all add: in_code_def scan_init_def)

lemma scan_plain:
  "no_quote p \<Longrightarrow> CHR ''/'' \<notin> set p \<Longrightarrow>
   scan (in_code d) pr (p @ s) = filter (\<lambda>c. \<not> isspace c) p @ scan (in_code d) pr' s"
proof (induction p arbitrary: pr)
  case Nil
  show ?case by (simp add: scan_prev [of "in_code d" pr s pr'])
next
  case (Cons c p)
  then have "scan (in_code d) c (p @ s) = filter (\<lambda>c. \<not> isspace c) p @ scan (in_code d) pr' s"
    by (simp add: no_quote_def)
  with Cons.prems show ?case by (auto simp: no_quote_def)
qed

lemma scan_line_comment:
  "no_quote b \<Longrightarrow> NL \<notin> set b \<Longrightarrow>
   scan (in_code d\<lparr>inSingleLineComment := True\<rparr>) pr (b @ NL # s) = scan (in_code d) pr' s"
proof (induction b arbitrary: pr)
  case Nil
  show ?case by (simp add: scan_prev [of "in_code d" NL s pr'])
next
  case (Cons c b)
  then have "scan (in_code d\<lparr>inSingleLineComment := True\<rparr>) c (b @ NL # s) = scan (in_code d) pr' s"
    by (simp add: no_quote_def)
  with Cons.prems show ?case by (auto simp: no_quote_def)
qed

lemma scan_block_comment:
  "no_quote b \<Longrightarrow> CHR ''/'' \<notin> set b \<Longrightarrow>
   scan (in_code d\<lparr>inMultiLineComment := True\<rparr>) pr (b @ ''*/'' @ s) = scan (in_code d) pr' s"
proof (induction b arbitrary: pr)
  case Nil
  show ?case by (simp add: scan_prev [of "in_code d" "CHR ''/''" s pr'])
next
  case (Cons c b)
  then have IH: "scan (in_code d\<lparr>inMultiLineComment := True\<rparr>) c (b @ ''*/'' @ s) = scan (in_code d) pr' s"
    by (simp add: no_quote_def)
  have "hd (b @ ''*/'' @ s) \<noteq> CHR ''/''" using Cons.prems by (cases b) auto
  with IH Cons.prems show ?case by (auto simp: no_quote_def)
qed

lemma scan_literal:
  "q \<notin> set b \<Longrightarrow> (if b = [] then pr \<noteq> BSLASH else last b \<noteq> BSLASH) \<Longrightarrow>
   scan (in_code q\<lparr>inString := True\<rparr>) pr (b @ q # s) = b @ q # scan (in_code q) pr' s"
proof (induction b arbitrary: pr)
  case Nil
  then show ?case by (simp add: scan_prev [of "in_code q" q s pr'])
next
  case (Cons c b)
  then have "scan (in_code q\<lparr>inString := True\<rparr>) c (b @ q # s) = b @ q # scan (in_code q) pr' s"
    by (intro Cons.IH) (auto split: if_splits)
  with Cons.prems show ?case by auto
qed

lemma scan_segment:
  assumes "wf_segment g"
  shows "\<exists>d'. \<forall>s. scan (in_code d) pr (render g @ s) = kept g @ scan (in_code d') pr' s"
proof (cases g)
  case (Plain p)
  with assms show ?thesis by (intro exI [of _ d]) (simp add: scan_plain)
next
  case (LineComment b)
  with assms show ?thesis
    by (intro exI [of _ d]) (simp add: scan_line_comment [where pr' = pr'])
next
  case (BlockComment b)
  with assms show ?thesis
    using scan_block_comment [where pr' = pr' and b = b and d = d]
    by (intro exI [of _ d]) simp
next
  case (Literal q b)
  have "scan (in_code q\<lparr>inString := True\<rparr>) q (b @ q # s) = b @ q # scan (in_code q) pr' s" for s
    using assms Literal by (intro scan_literal) auto
  then have "\<forall>s. scan (in_code d) pr (q # b @ q # s) = q # b @ q # scan (in_code q) pr' s"
    using assms Literal by (simp add: Let_def)
  with Literal show ?thesis by (intro exI [of _ q]) simp
qed

lemma scan_segments:
  "list_all wf_segment gs \<Longrightarrow> scan (in_code d) pr (concat (map render gs)) = concat (map kept gs)"
proof (induction gs arbitrary: d)
  case (Cons g gs)
  then obtain d' where "\<forall>s. scan (in_code d) pr (render g @ s) = kept g @ scan (in_code d') pr s"
    using scan_segment [of g d pr pr] by auto
  with Cons show ?case by simp
qed simp

lemma removeComments_segments:
  "list_all wf_segment gs \<Longrightarrow>
   removeCommentsAndSpaces (concat (map render gs)) = concat (map kept gs)"
  using scan_segments [of gs "CHR 0x00"] by (simp add: removeCommentsAndSpaces_def in_code_def scan_init_def)

lemma scan_in_string_rest:
  "stringDelimiter st \<notin> set t \<Longrightarrow> inString st \<Longrightarrow> scan st pr t = t"
proof (induction t arbitrary: pr)
  case (Cons c t)
  then have "scan st c t = t" by simp
  with Cons.prems show ?case by auto
qed simp

lemma scan_comment_apostrophe:
  "no_quote b \<Longrightarrow> NL \<notin> set b \<Longrightarrow> SQUOTE \<notin> set t \<Longrightarrow>
   scan (in_code d\<lparr>inSingleLineComment := True\<rparr>) pr (b @ SQUOTE # t) = SQUOTE # t"
proof (induction b arbitrary: pr)
  case Nil
  then show ?case by (simp add: scan_in_string_rest)
next
  case (Cons c b)
  then have "scan (in_code d\<lparr>inSingleLineComment := True\<rparr>) c (b @ SQUOTE # t) = SQUOTE # t"
    by (simp add: no_quote_def)
  with Cons.prems show ?case by (auto simp: no_quote_def)
qed

lemma scan_init_in_code: "scan_init = in_code (CHR 0x00)"
  by (simp add: in_code_def scan_init_def)

lemma removeComments_apostrophe:
  "no_quote b \<and> NL \<notin> set b \<and> SQUOTE \<notin> set t \<longrightarrow>
   removeCommentsAndSpaces (''//'' @ b @ [SQUOTE] @ t) = [SQUOTE] @ t"
  by (simp add: removeCommentsAndSpaces_def scan_init_in_code scan_comment_apostrophe Let_def)

subsection \<open>Laws of the macro expansion\<close>

lemma expand_macro_absent: "\<not> sublist macro s \<Longrightarrow> expand_macro macro e s 0 = s"
  by (simp add: expand_macro.simps [of macro e s] find_str_def flip: search_None_iff)

lemma doMacroExpansion_absent:
  assumes "\<And>m e. (m, e) \<in> set macroReplacements \<Longrightarrow> \<not> sublist m s"
  shows "doMacroExpansion s = s"
proof -
  have "foldl (\<lambda>r (m, e). expand_macro m e r 0) s ms = s"
    if "\<And>m e. (m, e) \<in> set ms \<Longrightarrow> \<not> sublist m s" for ms
    using that
  proof (induction ms)
    case (Cons p ms)
    obtain m e where "p = (m, e)" by (cases p)
    moreover from this have "\<not> sublist m s" using Cons.prems [of m e] by simp
    moreover have "foldl (\<lambda>r (m, e). expand_macro m e r 0) s ms = s"
      by (rule Cons.IH) (use Cons.prems in auto)
    ultimately show ?case by (simp add: expand_macro_absent)
  qed simp
  with assms show ?thesis unfolding doMacroExpansion_def by blast
qed

text \<open>One whole-word occurrence is replaced, and the scan goes on behind the replacement.\<close>

lemma expand_macro_word:
  assumes "macro \<noteq> []" and "\<not> sublist macro (a @ butlast macro)"
    and "a = [] \<or> \<not> isalnum (last a)" and "b = [] \<or> \<not> isalnum (hd b)"
  shows "expand_macro macro e (a @ macro @ b) 0 =
         expand_macro macro e (a @ e @ b) (length (a @ e))"
proof -
  have "search macro (a @ macro @ b) = Some (length a)" using search_at [OF assms(1,2)] .
  then have "find_str macro (a @ macro @ b) 0 = Some (length a)" by (simp add: find_str_def)
  moreover have "length a = 0 \<or> \<not> isalnum ((a @ macro @ b) ! (length a - 1))"
    using assms(3) by (cases a rule: rev_cases) (auto simp: nth_append)
  moreover have "b = [] \<or> \<not> isalnum ((a @ macro @ b) ! (length a + length macro))"
    using assms(4) by (cases b) (auto simp: nth_append)
  ultimately show ?thesis using assms(1)
    by (subst expand_macro.simps) auto
qed

subsection \<open>Hexadecimal round trip\<close>

definition byte_char :: "u8 \<Rightarrow> char" where
  "byte_char w = char_of (unat w)"

lemma hexdigit_value_upto:
  "list_all (\<lambda>x. \<forall>l. case hexdigit x l of Some c \<Rightarrow> hexDigitValue c = of_nat x | None \<Rightarrow> False)
     [0, 1, 2, 3, 4, 5, 6, 7, 8, 9, 10, 11, 12, 13, 14, 15]"
  by (simp add: hexdigit_def hexDigitValue_def hexLUT_def nth_append all_bool_eq)

lemma hexdigit_Some:
  assumes "x < 16"
  shows "\<exists>c. hexdigit x l = Some c \<and> hexDigitValue c = of_nat x"
proof -
  have "x \<in> set [0..<16]" using assms by simp
  also have "[0..<16] = [0, 1, 2, 3, 4, 5, 6, 7, 8, 9, 10, 11, 12, 13, 14, 15]" by (simp add: upt_rec)
  finally have "case hexdigit x l of Some c \<Rightarrow> hexDigitValue c = of_nat x | None \<Rightarrow> False"
    using hexdigit_value_upto unfolding list_all_iff by blast
  then show ?thesis by (auto split: option.splits)
qed

lemma small_not_all_ones: "a < 16 \<Longrightarrow> (of_nat a :: u32) \<noteq> - 1"
proof
  assume a: "a < 16" and "(of_nat a :: u32) = - 1"
  then have "(of_nat (Suc a) :: u32) = 0" by simp
  then have "2 ^ 32 dvd Suc a" by (simp only: word_of_nat_eq_0_iff) simp
  then have "2 ^ 32 \<le> Suc a" by (rule dvd_imp_le) simp
  with a show False by simp
qed

lemma nibbles_upto:
  "\<forall>a\<in>set [0..<16]. \<forall>b\<in>set [0..<16].
     ucast (push_bit 4 (of_nat a :: u32) OR of_nat b) = (of_nat (16 * a + b) :: u8)"
  by code_simp

lemma tryGetHex_hexdigit:
  assumes "a < 16" "b < 16" "hexdigit a l = Some c" "hexdigit b m = Some d"
  shows "tryGetHexFromNibbles c d = Some (of_nat (16 * a + b))"
proof -
  have "hexDigitValue c = of_nat a" "hexDigitValue d = of_nat b"
    using hexdigit_Some [OF assms(1), of l] hexdigit_Some [OF assms(2), of m] assms(3,4) by auto
  moreover have "(of_nat a :: u32) \<noteq> NOT 0" "(of_nat b :: u32) \<noteq> NOT 0"
    using assms(1,2) by (simp_all add: small_not_all_ones)
  moreover have "ucast (push_bit 4 (of_nat a :: u32) OR of_nat b) = (of_nat (16 * a + b) :: u8)"
    using nibbles_upto assms(1,2) by auto
  ultimately show ?thesis by (simp add: tryGetHexFromNibbles_def)
qed

subsection \<open>Properties\<close>

text \<open>
  Splitting a text at any of the delimiters and concatenating the pieces gives the text
  without its delimiters; the pieces without the empty ones are those of the default call;
  splitting at one character and joining with it gives the text back, less one trailing
  delimiter.
\<close>

theorem string_split_join:
  "concat (string_split s delims with_empty) = filter (\<lambda>c. c \<notin> set delims) s \<and>
   string_split s delims False = filter (\<lambda>p. p \<noteq> []) (string_split s delims True) \<and>
   string_join (string_split s [d] True) [d] = (if s \<noteq> [] \<and> last s = d then butlast s else s)"
  using string_split_concat string_split_without_empty join_split by blast

text \<open>
  \<open>removeCommentsAndSpaces\<close> on a text made of plain code, line comments, block comments and
  literals keeps the literals as they are, drops every comment, and of the plain code drops
  the white space and nothing else.
\<close>

theorem removeCommentsAndSpaces_segments:
  "list_all wf_segment gs \<Longrightarrow>
   removeCommentsAndSpaces (concat (map render gs)) = concat (map kept gs)"
  by (rule removeComments_segments)

theorem removeCommentsAndSpaces_segments_witness:
  "removeCommentsAndSpaces
     (concat (map render [Plain ''int x ='', BlockComment '' one '', Literal DQUOTE ''a b'',
                          LineComment '' two'', Plain ''; y'']))
   = ''intx='' @ [DQUOTE] @ ''a b'' @ [DQUOTE] @ '';y''"
  using removeCommentsAndSpaces_segments
    [of "[Plain ''int x ='', BlockComment '' one '', Literal DQUOTE ''a b'',
          LineComment '' two'', Plain ''; y'']"]
  by (simp add: no_quote_def isspace_def)

text \<open>
  An apostrophe inside a line comment is taken for the start of a literal, so that the rest
  of the text, spaces and comments included, is kept as it is up to the next apostrophe.
\<close>

theorem removeCommentsAndSpaces_apostrophe:
  "no_quote b \<and> NL \<notin> set b \<and> SQUOTE \<notin> set t \<longrightarrow>
   removeCommentsAndSpaces (''//'' @ b @ [SQUOTE] @ t) = [SQUOTE] @ t"
  by (rule removeComments_apostrophe)

theorem removeCommentsAndSpaces_apostrophe_witness:
  "removeCommentsAndSpaces (''// don'' @ [SQUOTE] @ ''t'' @ [NL] @ ''x = 1; // y'')
   = [SQUOTE] @ ''t'' @ [NL] @ ''x = 1; // y''"
  using removeCommentsAndSpaces_apostrophe [of "'' don''" "''t'' @ [NL] @ ''x = 1; // y''"]
  by (simp add: no_quote_def)

text \<open>
  \<open>doMacroExpansion\<close> leaves a text in which no macro of the table occurs as it is, and of the
  first macro of the table replaces a whole-word occurrence.
\<close>

theorem doMacroExpansion_unchanged:
  "list_all (\<lambda>(macro, _). \<not> contains_str s macro) macroReplacements \<Longrightarrow> doMacroExpansion s = s"
  by (rule doMacroExpansion_absent) (auto simp: list_all_iff contains_str_sublist)

theorem doMacroExpansion_unchanged_witness:
  "doMacroExpansion ''if (API_CHECK)'' = ''if (API_CHECK)''"
  by (rule doMacroExpansion_unchanged) code_simp

end
