(* ===== verification/Enums.thy ===== *)
theory Enums
  imports Prelude
begin

section \<open>Enumerations\<close>

text \<open>
  Models \<open>include/mergebot/core/model/enum/\<close>: the enumerations of the conflict
  markers, the sides of a merge, the kinds of nodes and edges of the semantic graph and the
  access specifiers, each with the spelling its \<open>enum_name\<close> customisation gives it.
\<close>

datatype ConflictMark = OURS | BASE | THEIRS | END

fun mark_name :: "ConflictMark \<Rightarrow> string" where
  "mark_name OURS = ''<<<<<<<''"
| "mark_name BASE = ''|||||||''"
| "mark_name THEIRS = ''=======''"
| "mark_name END = ''>>>>>>>''"

datatype Side = OURS | BASE | THEIRS | OUT

fun side_name :: "Side \<Rightarrow> string" where
  "side_name OURS = ''ours''"
| "side_name BASE = ''base''"
| "side_name THEIRS = ''theirs''"
| "side_name OUT = ''out''"

datatype EdgeKind = ILLEGAL | CONTAIN | INCLUDE | REFERENCE | DEFINE | USE

fun edge_name :: "EdgeKind \<Rightarrow> string" where
  "edge_name ILLEGAL = ''ILLEGAL''"
| "edge_name CONTAIN = ''CONTAIN''"
| "edge_name INCLUDE = ''INCLUDE''"
| "edge_name REFERENCE = ''REF''"
| "edge_name DEFINE = ''DEFINE''"
| "edge_name USE = ''USE''"

datatype NodeKind =
    NODE
  | COMPOSITE_NODE | TRANSLATION_UNIT | LINKAGE_SPEC_LIST | NAMESPACE | TYPE_NODE | ENUM
  | LAST_COMPOSITE_NODE
  | TERMINAL_NODE | FIELD_DECLARATION | FUNC_DEF | FUNC_OPERATOR_CAST | FUNC_SPECIAL_MEMBER
  | ORPHAN_COMMENT | TEXTUAL | ACCESS_SPECIFIER | LAST_TERMINAL_NODE
  | COUNT

text \<open>The number the compiler gives each kind; \<open>classof\<close> and the hashes use it.\<close>

fun kind_code :: "NodeKind \<Rightarrow> nat" where
  "kind_code NODE = 0"
| "kind_code COMPOSITE_NODE = 1"
| "kind_code TRANSLATION_UNIT = 2"
| "kind_code LINKAGE_SPEC_LIST = 3"
| "kind_code NAMESPACE = 4"
| "kind_code TYPE_NODE = 5"
| "kind_code ENUM = 6"
| "kind_code LAST_COMPOSITE_NODE = 7"
| "kind_code TERMINAL_NODE = 8"
| "kind_code FIELD_DECLARATION = 9"
| "kind_code FUNC_DEF = 10"
| "kind_code FUNC_OPERATOR_CAST = 11"
| "kind_code FUNC_SPECIAL_MEMBER = 12"
| "kind_code ORPHAN_COMMENT = 13"
| "kind_code TEXTUAL = 14"
| "kind_code ACCESS_SPECIFIER = 15"
| "kind_code LAST_TERMINAL_NODE = 16"
| "kind_code COUNT = 17"

datatype AccessSpecifierKind = AS_None | AS_Default | AS_Public | AS_Protected | AS_Private

text \<open>The first two have no customisation; \<open>magic_enum\<close> then gives the constant's own name.\<close>

fun access_name :: "AccessSpecifierKind \<Rightarrow> string" where
  "access_name AS_None = ''None''"
| "access_name AS_Default = ''Default''"
| "access_name AS_Public = ''public:''"
| "access_name AS_Protected = ''protected:''"
| "access_name AS_Private = ''private:''"

lemma length_mark_name [simp]: "length (mark_name m) = 7"
  by (cases m) simp_all

lemma mark_name_not_Nil [simp]: "mark_name m \<noteq> []"
  by (cases m) simp_all

lemma mark_name_inject [simp]: "mark_name m = mark_name m' \<longleftrightarrow> m = m'"
  by (cases m; cases m') simp_all

lemma mark_name_no_newline [simp]: "NL \<notin> set (mark_name m)"
  by (cases m) simp_all

declare mark_name.simps [simp del]

lemma kind_code_inject [simp]: "kind_code k = kind_code k' \<longleftrightarrow> k = k'"
  by (cases k; cases k') simp_all

lemma access_name_inject: "access_name a = access_name b \<longleftrightarrow> a = b"
  by (cases a; cases b) simp_all

text \<open>The order of the kinds, as the comparisons of their numbers in the source.\<close>

instantiation NodeKind :: linorder
begin

definition less_eq_NodeKind :: "NodeKind \<Rightarrow> NodeKind \<Rightarrow> bool" where
  "less_eq_NodeKind a b \<longleftrightarrow> kind_code a \<le> kind_code b"

definition less_NodeKind :: "NodeKind \<Rightarrow> NodeKind \<Rightarrow> bool" where
  "less_NodeKind a b \<longleftrightarrow> kind_code a < kind_code b"

instance
  by standard (auto simp: less_eq_NodeKind_def less_NodeKind_def)

end

end
