(* ===== verification/Conflict.thy ===== *)
theory Conflict
  imports Complex_Main StringOp Enums
begin

section \<open>Conflict blocks and files\<close>

text \<open>
  Models \<open>ConflictBlock.h\<close>, \<open>ConflictFile.h\<close>, \<open>ResolutionResultVO.h\<close> and the helpers of
  \<open>src/core/sa_utility.cpp\<close>: finding the conflict blocks of a file, dropping resolved blocks
  and files, extracting one side of a block, accumulating resolution results, the names of cache files and
  of qualified declarations, and running a command.
\<close>

record ConflictBlock =
  Index :: int
  ConflictRange :: string
  Resolved :: bool

record ConflictFile =
  Filename :: string
  ConflictBlocks :: "ConflictBlock list"
  FileResolved :: bool

text \<open>The model does no arithmetic on the confidence, a \<open>double\<close> of the source.\<close>

record BlockResolutionResult =
  index :: int
  desc :: string
  code :: string
  confidence :: real

record FileResolutionResult =
  filepath :: string
  resolutions :: "BlockResolutionResult list"

subsection \<open>Finding the blocks of a file\<close>

text \<open>A read behind the end of the buffer.\<close>

datatype scan_error = Past_end

text \<open>\<open>std::find(Pos, End, NL)\<close>, as a position.\<close>

definition find_nl :: "string \<Rightarrow> nat \<Rightarrow> nat" where
  "find_nl buf pos =
     (case find_idx (\<lambda>c. c = NL) (drop pos buf) of None \<Rightarrow> length buf | Some k \<Rightarrow> pos + k)"

lemma find_nl_bounds: "pos \<le> length buf \<Longrightarrow> pos \<le> find_nl buf pos \<and> find_nl buf pos \<le> length buf"
  by (auto simp: find_nl_def split: option.splits dest!: find_idx_SomeD)

text \<open>
  The inner loop of \<open>constructConflictFile\<close>, from the line that opened the block at
  \<open>blockStart\<close>. It ends at \<open>Pos = End\<close>; a position behind \<open>End\<close> is read as text by the code,
  and so is the byte at \<open>End\<close> when the closing line has no newline. The result is the position
  and the range of the block, if it was closed.
\<close>

function block_loop :: "string \<Rightarrow> nat \<Rightarrow> nat \<Rightarrow> nat \<Rightarrow> scan_error + nat \<times> string option" where
  "block_loop buf blockStart lineStart pos =
     (if pos = length buf then Inr (pos, None)
      else if length buf < pos then Inl Past_end
      else let p = find_nl buf pos; line = substr buf lineStart (p - lineStart) in
        if length line < 7 then block_loop buf blockStart (p + 1) (p + 1)
        else if take 7 line = mark_name END then
          (if p < length buf then Inr (p, Some (substr buf blockStart (p - blockStart + 1)))
           else Inl Past_end)
        else block_loop buf blockStart (p + 1) (p + 1))"
  by pat_completeness auto
termination
proof (relation "measure (\<lambda>(buf, bs, ls, pos). Suc (length buf) - pos)", goal_cases)
  case (2 buf bs ls pos p line)
  then show ?case using find_nl_bounds [of pos buf] by auto
next
  case (3 buf bs ls pos p line)
  then show ?case using find_nl_bounds [of pos buf] by auto
qed simp

declare block_loop.simps [simp del]

lemma block_loop_pos:
  "block_loop buf bs ls pos = Inr (p, r) \<Longrightarrow> pos \<le> p \<and> p \<le> length buf"
proof (induction buf bs ls pos rule: block_loop.induct)
  case (1 buf bs ls pos)
  show ?case
  proof (cases "pos < length buf")
    case True
    let ?p = "find_nl buf pos"
    have *: "pos \<le> ?p" "?p \<le> length buf" using find_nl_bounds True by auto
    show ?thesis
    proof (cases "\<exists>r'. block_loop buf bs (?p + 1) (?p + 1) = Inr (p, r')")
      case True
      then have "?p + 1 \<le> p \<and> p \<le> length buf" if "length (substr buf ls (?p - ls)) < 7 \<or>
        take 7 (substr buf ls (?p - ls)) \<noteq> mark_name END"
        using that 1 \<open>pos < length buf\<close>
        by (subst (asm) block_loop.simps [of buf bs ls pos]) (auto simp: Let_def split: if_splits)
      then show ?thesis using * 1(3) \<open>pos < length buf\<close>
        by (subst (asm) block_loop.simps) (auto simp: Let_def split: if_splits)
    next
      case False
      then show ?thesis using * 1(3) \<open>pos < length buf\<close>
        by (subst (asm) block_loop.simps) (auto simp: Let_def split: if_splits)
    qed
  next
    case False
    with 1(3) show ?thesis by (subst (asm) block_loop.simps) (auto split: if_splits)
  qed
qed

text \<open>The outer loop; at its head \<open>LineStart\<close> and \<open>Pos\<close> are equal.\<close>

function file_loop :: "string \<Rightarrow> nat \<Rightarrow> int \<Rightarrow> scan_error + ConflictBlock list" where
  "file_loop buf pos idx =
     (if pos < length buf then
        let p = find_nl buf pos; line = substr buf pos (p - pos) in
        if length line < 7 then file_loop buf (p + 1) idx
        else if take 7 line = mark_name ConflictMark.OURS then
          (case block_loop buf pos pos p of
             Inl e \<Rightarrow> Inl e
           | Inr (q, None) \<Rightarrow> file_loop buf (q + 1) (idx + 1)
           | Inr (q, Some text) \<Rightarrow>
               map_sum id (Cons \<lparr>Index = idx + 1, ConflictRange = text, Resolved = False\<rparr>)
                 (file_loop buf (q + 1) (idx + 1)))
        else file_loop buf (p + 1) idx
      else Inr [])"
  by pat_completeness auto
termination
proof (relation "measure (\<lambda>(buf, pos, idx). Suc (length buf) - pos)", goal_cases)
  case (2 buf pos idx p line)
  then show ?case using find_nl_bounds [of pos buf] by auto
next
  case (3 buf pos idx p line r q)
  then show ?case using find_nl_bounds [of pos buf] by (auto dest!: block_loop_pos)
next
  case (4 buf pos idx p line r q)
  then show ?case using find_nl_bounds [of pos buf] by (auto dest!: block_loop_pos)
next
  case (5 buf pos idx p line)
  then show ?case using find_nl_bounds [of pos buf] by auto
qed simp

declare file_loop.simps [simp del]

definition constructConflictFile :: "string \<Rightarrow> scan_error + ConflictBlock list" where
  "constructConflictFile buf = file_loop buf 0 0"

text \<open>
  \<open>constructConflictFiles\<close>: \<open>toabs\<close> makes a path absolute and \<open>getFile\<close> reads it, with
  \<^term>\<open>None\<close> for an error, after which the file is skipped.
\<close>

fun constructConflictFiles ::
  "(string \<Rightarrow> string) \<Rightarrow> (string \<Rightarrow> string option) \<Rightarrow> string list \<Rightarrow> scan_error + ConflictFile list" where
  "constructConflictFiles toabs getFile [] = Inr []"
| "constructConflictFiles toabs getFile (path # paths) =
     (case getFile (toabs path) of
        None \<Rightarrow> constructConflictFiles toabs getFile paths
      | Some buf \<Rightarrow>
          (case constructConflictFile buf of
             Inl e \<Rightarrow> Inl e
           | Inr blocks \<Rightarrow>
               map_sum id (Cons \<lparr>Filename = toabs path, ConflictBlocks = blocks, FileResolved = False\<rparr>)
                 (constructConflictFiles toabs getFile paths)))"

subsection \<open>Dropping what is resolved\<close>

definition tidyUpConflictBlocks :: "ConflictBlock list \<Rightarrow> ConflictBlock list" where
  "tidyUpConflictBlocks blocks =
     (let shrunk = list_ex Resolved blocks
      in if shrunk
         then foldl (\<lambda>new cb. if \<not> Resolved cb then new @ [cb] else new) [] blocks
         else blocks)"

definition tidyUpConflictFiles :: "ConflictFile list \<Rightarrow> ConflictFile list" where
  "tidyUpConflictFiles files =
     (let shrunk = list_ex FileResolved files
      in if shrunk
         then foldl (\<lambda>new cf. if \<not> FileResolved cf
                             then new @ [cf\<lparr>ConflictBlocks := tidyUpConflictBlocks (ConflictBlocks cf)\<rparr>]
                             else new) [] files
         else map (\<lambda>cf. cf\<lparr>ConflictBlocks := tidyUpConflictBlocks (ConflictBlocks cf)\<rparr>) files)"

subsection \<open>Lines\<close>

definition isBlankLine :: "string \<Rightarrow> bool" where
  "isBlankLine line \<longleftrightarrow> list_all isspace line"

fun remove_comment_loop :: "bool \<Rightarrow> bool \<Rightarrow> string \<Rightarrow> string" where
  "remove_comment_loop inSingle inDouble [] = []"
| "remove_comment_loop inSingle inDouble (c # cs) =
     (if c = SQUOTE then c # remove_comment_loop (\<not> inSingle) inDouble cs
      else if c = DQUOTE then c # remove_comment_loop inSingle (\<not> inDouble) cs
      else if inSingle \<or> inDouble then c # remove_comment_loop inSingle inDouble cs
      else if cs \<noteq> [] \<and> c = CHR ''/'' \<and> hd cs = CHR ''/'' then []
      else c # remove_comment_loop inSingle inDouble cs)"

definition removeComment :: "string \<Rightarrow> string" where
  "removeComment line = remove_comment_loop False False line"

text \<open>The two \<open>while\<close> loops of \<open>trim\<close>.\<close>

fun erase_leading :: "string \<Rightarrow> string" where
  "erase_leading (c # s) = (if c = NL then erase_leading s else c # s)"
| "erase_leading [] = []"

function erase_trailing :: "string \<Rightarrow> string" where
  "erase_trailing s = (if s \<noteq> [] \<and> last s = NL then erase_trailing (butlast s) else s)"
  by pat_completeness auto
termination
  by (relation "measure length") auto

declare erase_trailing.simps [simp del]

definition trim :: "string \<Rightarrow> string" where
  "trim c = erase_trailing (erase_leading c)"

subsection \<open>One side of a conflict block\<close>

text \<open>The empty-bodied \<open>while\<close>: behind the next newline, or to the end of the text.\<close>

function skip_line :: "string \<Rightarrow> nat \<Rightarrow> nat" where
  "skip_line s pos =
     (if length s \<le> pos then pos
      else if s ! pos = NL then pos + 1
      else skip_line s (pos + 1))"
  by pat_completeness auto
termination
  by (relation "measure (\<lambda>(s, pos). length s - pos)") auto

declare skip_line.simps [simp del]

text \<open>\<^term>\<open>None\<close> is the failed assertion on the line of the start marker.\<close>

definition extractCodeFromConflictRange :: "string \<Rightarrow> string \<Rightarrow> string \<Rightarrow> string option" where
  "extractCodeFromConflictRange source startMark endMarker =
     (case find_str startMark source 0 of
        None \<Rightarrow> None
      | Some p \<Rightarrow>
          let startPos = skip_line source p in
          if startPos = length source then None
          else case find_str endMarker source startPos of
                 None \<Rightarrow> Some []
               | Some endPos \<Rightarrow> Some (substr source startPos (endPos - startPos)))"

subsection \<open>Accumulating resolution results\<close>

definition hasSameElements :: "('a \<Rightarrow> 'b \<Rightarrow> bool) \<Rightarrow> 'a list \<Rightarrow> 'b list \<Rightarrow> bool" where
  "hasSameElements cmp xs ys = list_ex (\<lambda>x. find_idx (\<lambda>v. cmp x v) ys \<noteq> None) xs"

text \<open>
  The JSON library and the file system are parameters, and so is the type \<open>'doc\<close> of the texts they
  exchange: \<open>accept\<close> tells whether a text is JSON,
  \<open>of_json\<close> reads a result from it (\<^term>\<open>None\<close> where it throws), \<open>dump\<close> writes one, and \<open>writable\<close> tells whether the
  destination can be written. The destination holds \<^term>\<open>None\<close> when the file does not exist.
  The outer option is the exception of the reading; the flag is whether an overlap of the
  results was logged.
\<close>

definition marshalResolutionResult ::
  "('doc \<Rightarrow> bool) \<Rightarrow> ('doc \<Rightarrow> FileResolutionResult option) \<Rightarrow> (FileResolutionResult \<Rightarrow> 'doc) \<Rightarrow>
   bool \<Rightarrow> string \<Rightarrow> BlockResolutionResult list \<Rightarrow> 'doc option \<Rightarrow> ('doc option \<times> bool) option" where
  "marshalResolutionResult accept of_json dump writable fileName results dest =
     (if dest = None \<or> (dest \<noteq> None \<and> \<not> accept (the dest)) then
        let fr = \<lparr>filepath = fileName, resolutions = results\<rparr>
        in Some (if writable then Some (dump fr) else dest, False)
      else case of_json (the dest) of
             None \<Rightarrow> None
           | Some fileResolved \<Rightarrow>
               let hasSame = hasSameElements (\<lambda>a b. index a = index b) (resolutions fileResolved) results;
                   merged = fileResolved\<lparr>resolutions := resolutions fileResolved @ results\<rparr>
               in Some (if writable then Some (dump merged) else dest, hasSame))"

subsection \<open>Names\<close>

text \<open>On POSIX \<open>generic_string\<close> is the path itself.\<close>

definition pathToName :: "string \<Rightarrow> string" where
  "pathToName path =
     (let sep = (if CHR ''/'' \<in> set path then ''/'' else [BSLASH]);
          parts = string_split path sep True;
          replaced = string_join parts ''@''
      in replace_char (CHR '':'') (CHR ''#'') replaced)"

definition nameToPath :: "string \<Rightarrow> string" where
  "nameToPath name =
     (let sep = (if CHR ''#'' \<in> set name \<or> contains_str name ''@@'' then [BSLASH] else ''/'');
          replaced = replace_char (CHR ''#'') (CHR '':'') (replace_char (CHR ''@'') (CHR ''/'') name)
      in string_join (getlines (CHR ''/'') [] replaced) sep)"

definition getUnqualifiedName :: "string \<Rightarrow> string" where
  "getUnqualifiedName name =
     (case rfind_str ''::'' name of None \<Rightarrow> name | Some pos \<Rightarrow> drop (pos + 2) name)"

definition getFullQualifiedName :: "string \<Rightarrow> string \<Rightarrow> NodeKind \<Rightarrow> string" where
  "getFullQualifiedName qualifiedName displayName kind =
     (if kind = TRANSLATION_UNIT \<or> kind = LINKAGE_SPEC_LIST then qualifiedName @ displayName
      else if kind = ORPHAN_COMMENT \<or> kind = TEXTUAL then qualifiedName
      else if qualifiedName = [] then displayName
      else if ends_with qualifiedName ''::'' then qualifiedName @ getUnqualifiedName displayName
      else qualifiedName @ ''::'' @ getUnqualifiedName displayName)"

text \<open>\<open>operator/\<close> of \<open>std::filesystem::path\<close> on POSIX.\<close>

definition path_join :: "string \<Rightarrow> string \<Rightarrow> string" where
  "path_join a b =
     (if starts_with b ''/'' then b
      else if a = [] \<or> last a = CHR ''/'' then a @ b
      else a @ ''/'' @ b)"

subsection \<open>Hash combination\<close>

definition hash_combine :: "u64 \<Rightarrow> u64 \<Rightarrow> u64" where
  "hash_combine seed h =
     seed XOR (h + 0x9e3779b9 + push_bit 6 seed + drop_bit 2 seed)"

definition VectorHash :: "('a \<Rightarrow> u64) \<Rightarrow> 'a list \<Rightarrow> u64" where
  "VectorHash hasher vec = foldl (\<lambda>seed elem. hash_combine seed (hasher elem)) 0 vec"

subsection \<open>Running a command\<close>

text \<open>
  \<open>ExecCommand\<close> polls its child: a poll reads the seconds that have passed and calls
  \<open>waitpid\<close>, which returns a number and, unless that is 0 (no child changed its state), writes the
  status word. The model takes the polls as a list; \<^term>\<open>None\<close> is a loop that still runs when the
  list is used up.
\<close>

record poll =
  elapsed :: int
  wait_res :: int
  wait_status :: nat

datatype exec_error = Io_error | Timed_out | Wait_failed | Exit_status nat | Interrupted

definition WIFEXITED :: "nat \<Rightarrow> bool" where
  "WIFEXITED st \<longleftrightarrow> st mod 128 = 0"

definition WEXITSTATUS :: "nat \<Rightarrow> nat" where
  "WEXITSTATUS st = st div 256 mod 256"

definition WIFSIGNALED :: "nat \<Rightarrow> bool" where
  "WIFSIGNALED st \<longleftrightarrow> 0 < st mod 128 \<and> st mod 128 < 127"

text \<open>The output loses its last character, unless that is NUL.\<close>

definition pop_last :: "string \<Rightarrow> string" where
  "pop_last result = (if result \<noteq> [] \<and> last result \<noteq> CHR 0x00 then butlast result else result)"

fun exec_loop ::
  "int \<Rightarrow> nat \<Rightarrow> bool \<Rightarrow> string \<Rightarrow> nat \<Rightarrow> poll list \<Rightarrow> (exec_error + string) option" where
  "exec_loop timeout exitCode checkExitCode output status [] = None"
| "exec_loop timeout exitCode checkExitCode output status (p # ps) =
     (if timeout \<le> elapsed p then Some (Inl Timed_out)
      else if wait_res p = - 1 then Some (Inl Wait_failed)
      else let st = (if wait_res p = 0 then status else wait_status p) in
        if WIFEXITED st then
          (if checkExitCode \<and> WEXITSTATUS st \<noteq> 0 \<and> WEXITSTATUS st \<noteq> exitCode
           then Some (Inl (Exit_status st))
           else Some (Inr (pop_last output)))
        else if WIFSIGNALED st then Some (Inl Interrupted)
        else exec_loop timeout exitCode checkExitCode output st ps)"

definition ExecCommand ::
  "bool \<Rightarrow> string \<Rightarrow> int \<Rightarrow> nat \<Rightarrow> bool \<Rightarrow> poll list \<Rightarrow> (exec_error + string) option" where
  "ExecCommand opened output timeout exitCode checkExitCode polls =
     (if \<not> opened then Some (Inl Io_error)
      else exec_loop timeout exitCode checkExitCode output 0 polls)"

subsection \<open>The blocks of a file, line by line\<close>

definition unlines :: "string list \<Rightarrow> string" where
  "unlines ls = concat (map (\<lambda>l. l @ [NL]) ls)"

definition is_mark :: "ConflictMark \<Rightarrow> string \<Rightarrow> bool" where
  "is_mark m l \<longleftrightarrow> take 7 l = mark_name m"

lemma is_mark_length: "length l < 7 \<Longrightarrow> \<not> is_mark m l"
  using length_mark_name [of m] by (auto simp: is_mark_def simp del: length_mark_name)

lemma unlines_simps [simp]:
  "unlines [] = []" "unlines (l # ls) = l @ NL # unlines ls" "unlines (ls @ ls') = unlines ls @ unlines ls'"
  by (simp_all add: unlines_def)

text \<open>
  The specification: a block starts at a line with the first marker and ends with the next line
  that has the last one; a block that is never closed is dropped with all that follows.
\<close>

function conflict_ranges :: "string list \<Rightarrow> string list" where
  "conflict_ranges [] = []"
| "conflict_ranges (l # ls) =
     (if is_mark ConflictMark.OURS l then
        (case dropWhile (\<lambda>l. \<not> is_mark END l) ls of
           [] \<Rightarrow> []
         | e # rest \<Rightarrow> unlines (l # takeWhile (\<lambda>l. \<not> is_mark END l) ls @ [e]) # conflict_ranges rest)
      else conflict_ranges ls)"
  by pat_completeness auto
termination
proof (relation "measure length", goal_cases)
  case (2 l ls e rest)
  then have "length (e # rest) \<le> length ls" by (metis length_dropWhile_le)
  then show ?case by simp
qed auto

fun number_blocks :: "int \<Rightarrow> string list \<Rightarrow> ConflictBlock list" where
  "number_blocks n [] = []"
| "number_blocks n (r # rs) =
     \<lparr>Index = n + 1, ConflictRange = r, Resolved = False\<rparr> # number_blocks (n + 1) rs"

lemma find_nl_line: "NL \<notin> set l \<Longrightarrow> find_nl (pre @ l @ NL # rest) (length pre) = length pre + length l"
  by (simp add: find_nl_def find_idx_char)

lemma find_nl_at: "find_nl (pre @ NL # rest) (length pre) = length pre"
  by (simp add: find_nl_def)

lemma substr_line: "substr (pre @ l @ r) (length pre) (length l) = l"
  by (simp add: substr_def)

text \<open>One round of the inner loop over a line that does not close the block.\<close>

lemma block_loop_line:
  assumes "NL \<notin> set l"
  shows "block_loop (pre @ l @ NL # rest) bs (length pre) (length pre) =
    (if is_mark END l
     then Inr (length pre + length l, Some (substr (pre @ l @ NL # rest) bs (length pre + length l - bs + 1)))
     else block_loop (pre @ l @ NL # rest) bs (length (pre @ l @ [NL])) (length (pre @ l @ [NL])))"
  by (subst block_loop.simps) (simp add: find_nl_line [OF assms] substr_line Let_def is_mark_length flip: is_mark_def)

lemma block_loop_lines:
  assumes "list_all (\<lambda>l. NL \<notin> set l) ls"
  shows "block_loop (pre @ unlines ls) bs (length pre) (length pre) =
    (case dropWhile (\<lambda>l. \<not> is_mark END l) ls of
       [] \<Rightarrow> Inr (length pre + length (unlines ls), None)
     | e # rest \<Rightarrow>
         let p = length pre + length (unlines (takeWhile (\<lambda>l. \<not> is_mark END l) ls)) + length e
         in Inr (p, Some (substr (pre @ unlines ls) bs (p - bs + 1))))"
  using assms
proof (induction ls arbitrary: pre)
  case Nil
  then show ?case by (simp add: block_loop.simps)
next
  case (Cons l ls)
  have IH: "block_loop (pre @ l @ NL # unlines ls) bs (length (pre @ l @ [NL])) (length (pre @ l @ [NL])) =
    (case dropWhile (\<lambda>l. \<not> is_mark END l) ls of
       [] \<Rightarrow> Inr (length (pre @ l @ [NL]) + length (unlines ls), None)
     | e # rest \<Rightarrow>
         let p = length (pre @ l @ [NL]) + length (unlines (takeWhile (\<lambda>l. \<not> is_mark END l) ls)) + length e
         in Inr (p, Some (substr (pre @ l @ NL # unlines ls) bs (p - bs + 1))))"
    using Cons.IH [of "pre @ l @ [NL]"] Cons.prems by (simp only: list.pred_inject simp_thms append_assoc append_Cons append_Nil)
  show ?case
  proof (cases "dropWhile (\<lambda>l. \<not> is_mark END l) ls")
    case Nil
    then show ?thesis using Cons.prems IH unfolding Nil by (simp add: block_loop_line Nil Let_def add.assoc del: dropWhile_eq_Nil_conv)
  next
    case (Cons e rest)
    then show ?thesis using Cons.prems IH by (simp add: block_loop_line Let_def add.assoc)
  qed
qed

text \<open>The first round finds the newline of the opening line, which does not close the block.\<close>

lemma block_loop_enter:
  assumes "NL \<notin> set l" "is_mark ConflictMark.OURS l"
  shows "block_loop (pre @ l @ NL # rest) (length pre) (length pre) (length pre + length l) =
         block_loop (pre @ l @ NL # rest) (length pre) (length (pre @ l @ [NL])) (length (pre @ l @ [NL]))"
proof -
  have "find_nl (pre @ l @ NL # rest) (length pre + length l) = length pre + length l"
    using find_nl_at [of "pre @ l" rest] by simp
  then show ?thesis using assms by (subst block_loop.simps) (simp add: substr_def is_mark_def Let_def)
qed


lemma file_loop_line:
  assumes "NL \<notin> set l"
  shows "file_loop (pre @ l @ NL # rest) (length pre) idx =
    (if is_mark ConflictMark.OURS l then
       (case block_loop (pre @ l @ NL # rest) (length pre) (length pre) (length pre + length l) of
             Inl e \<Rightarrow> Inl e
           | Inr (q, None) \<Rightarrow> file_loop (pre @ l @ NL # rest) (q + 1) (idx + 1)
           | Inr (q, Some text) \<Rightarrow>
               map_sum id (Cons \<lparr>Index = idx + 1, ConflictRange = text, Resolved = False\<rparr>)
                 (file_loop (pre @ l @ NL # rest) (q + 1) (idx + 1)))
     else file_loop (pre @ l @ NL # rest) (length (pre @ l @ [NL])) idx)"
  by (subst file_loop.simps)
     (simp add: find_nl_line [OF assms] substr_line Let_def is_mark_length flip: is_mark_def)

lemma file_loop_lines:
  "list_all (\<lambda>l. NL \<notin> set l) ls \<Longrightarrow>
   file_loop (pre @ unlines ls) (length pre) idx = Inr (number_blocks idx (conflict_ranges ls))"
proof (induction ls arbitrary: pre idx rule: conflict_ranges.induct)
  case 1
  then show ?case by (simp add: file_loop.simps)
next
  case (2 l ls)
  let ?buf = "pre @ l @ NL # unlines ls"
  have nl: "NL \<notin> set l" and ls: "list_all (\<lambda>l. NL \<notin> set l) ls" using "2.prems" by auto
  note step = file_loop_line [OF nl, of pre "unlines ls" idx]
  show ?case
  proof (cases "is_mark ConflictMark.OURS l")
    case False
    with 2(2) [OF False ls, of "pre @ l @ [NL]" idx] step show ?thesis by simp
  next
    case True
    let ?body = "takeWhile (\<lambda>l. \<not> is_mark END l) ls"
    have loop: "block_loop ?buf (length pre) (length pre) (length pre + length l) =
      block_loop ((pre @ l @ [NL]) @ unlines ls) (length pre) (length (pre @ l @ [NL])) (length (pre @ l @ [NL]))"
      using block_loop_enter [OF nl True, of pre "unlines ls"] by simp
    show ?thesis
    proof (cases "dropWhile (\<lambda>l. \<not> is_mark END l) ls")
      case Nil
      have "file_loop ?buf (length ?buf + 1) (idx + 1) = Inr []" by (simp add: file_loop.simps)
      moreover have "block_loop ?buf (length pre) (length pre) (length pre + length l) = Inr (length ?buf, None)"
        using loop block_loop_lines [OF ls, of "pre @ l @ [NL]" "length pre"] unfolding Nil by simp
      moreover have "conflict_ranges (l # ls) = []" using True by (simp add: Nil del: dropWhile_eq_Nil_conv)
      ultimately show ?thesis using True step by simp
    next
      case (Cons e rest)
      have split: "ls = ?body @ e # rest" using takeWhile_dropWhile_id [of "\<lambda>l. \<not> is_mark END l" ls] Cons by simp
      then have whole: "unlines ls = unlines ?body @ e @ NL # unlines rest"
        by (metis unlines_simps(2,3))
      have rest: "list_all (\<lambda>l. NL \<notin> set l) rest"
        using ls by (subst (asm) split) simp
      let ?p = "length pre + length (l @ NL # unlines ?body @ e)"
      have "block_loop ?buf (length pre) (length pre) (length pre + length l) =
        Inr (?p, Some (substr ?buf (length pre) (?p - length pre + 1)))"
        using block_loop_lines [OF ls, of "pre @ l @ [NL]" "length pre"] Cons
        by (simp add: loop Let_def)
      moreover have "substr ?buf (length pre) (?p - length pre + 1) = unlines (l # ?body @ [e])"
        by (simp add: substr_def whole)
      moreover have "file_loop ?buf (?p + 1) (idx + 1) = Inr (number_blocks (idx + 1) (conflict_ranges rest))"
        using 2(1) [OF True Cons rest, of "pre @ l @ NL # unlines ?body @ e @ [NL]" "idx + 1"]
        by (simp add: whole)
      ultimately show ?thesis using True Cons step by simp
    qed
  qed
qed

lemma constructConflictFile_lines:
  "list_all (\<lambda>l. NL \<notin> set l) ls \<Longrightarrow>
   constructConflictFile (unlines ls) = Inr (number_blocks 0 (conflict_ranges ls))"
  using file_loop_lines [of ls "[]" 0] by (simp add: constructConflictFile_def)

text \<open>A block that is still open at a last line without a newline makes the loop run past the end.\<close>

lemma block_loop_overrun:
  assumes "w \<noteq> []" "NL \<notin> set w"
  shows "list_all (\<lambda>l. NL \<notin> set l \<and> \<not> is_mark END l) ls \<Longrightarrow>
    block_loop (pre @ unlines ls @ w) bs (length pre) (length pre) = Inl Past_end"
proof (induction ls arbitrary: pre)
  case Nil
  have "find_nl (pre @ w) (length pre) = length (pre @ w)"
    using assms by (simp add: find_nl_def find_idx_char_None)
  moreover have "block_loop (pre @ w) bs (length (pre @ w) + 1) (length (pre @ w) + 1) = Inl Past_end"
    by (simp add: block_loop.simps)
  ultimately show ?case using assms by (subst block_loop.simps) (simp add: Let_def)
next
  case (Cons l ls)
  then have "block_loop (pre @ l @ NL # unlines ls @ w) bs (length (pre @ l @ [NL])) (length (pre @ l @ [NL])) = Inl Past_end"
    using Cons.IH [of "pre @ l @ [NL]"] by simp
  with Cons.prems show ?case by (simp add: block_loop_line)
qed

lemma file_loop_overrun:
  assumes "w \<noteq> []" "NL \<notin> set w" "NL \<notin> set l" "is_mark ConflictMark.OURS l"
    and "list_all (\<lambda>l. NL \<notin> set l \<and> \<not> is_mark END l) ls"
  shows "list_all (\<lambda>l. NL \<notin> set l \<and> \<not> is_mark ConflictMark.OURS l) as \<Longrightarrow>
    file_loop (pre @ unlines as @ unlines (l # ls) @ w) (length pre) idx = Inl Past_end"
proof (induction as arbitrary: pre)
  case Nil
  have "block_loop (pre @ l @ NL # unlines ls @ w) (length pre) (length pre) (length pre + length l) = Inl Past_end"
    using block_loop_overrun [OF assms(1,2,5), of "pre @ l @ [NL]" "length pre"] assms(3,4)
    by (simp add: block_loop_enter)
  then show ?case using assms(3,4) by (simp add: file_loop_line)
next
  case (Cons a as)
  then show ?case using Cons.IH [of "pre @ a @ [NL]"] by (simp add: file_loop_line)
qed

subsection \<open>Tidying up\<close>

lemma foldl_append_filter:
  "foldl (\<lambda>new x. if P x then new @ [f x] else new) acc xs = acc @ map f (filter P xs)"
  by (induction xs arbitrary: acc) auto

lemma tidyUpConflictBlocks_filter: "tidyUpConflictBlocks bs = filter (\<lambda>cb. \<not> Resolved cb) bs"
  using foldl_append_filter [of "\<lambda>cb. \<not> Resolved cb" "\<lambda>cb. cb" "[]" bs]
  by (auto simp: tidyUpConflictBlocks_def list_ex_iff filter_id_conv)

lemma tidyUpConflictFiles_filter:
  "tidyUpConflictFiles fs =
     map (\<lambda>cf. cf\<lparr>ConflictBlocks := filter (\<lambda>cb. \<not> Resolved cb) (ConflictBlocks cf)\<rparr>)
       (filter (\<lambda>cf. \<not> FileResolved cf) fs)"
proof (cases "list_ex FileResolved fs")
  case True
  then show ?thesis
    by (simp add: tidyUpConflictFiles_def foldl_append_filter tidyUpConflictBlocks_filter)
next
  case False
  then have "filter (\<lambda>cf. \<not> FileResolved cf) fs = fs" by (auto simp: list_ex_iff filter_id_conv)
  with False show ?thesis by (simp add: tidyUpConflictFiles_def tidyUpConflictBlocks_filter)
qed

subsection \<open>The sides of a block\<close>

lemma skip_line_text: "NL \<notin> set w \<Longrightarrow> skip_line (pre @ w @ NL # rest) (length pre) = length pre + length w + 1"
proof (induction w arbitrary: pre)
  case Nil
  then show ?case by (simp add: skip_line.simps)
next
  case (Cons c w)
  then have "skip_line (pre @ c # w @ NL # rest) (length (pre @ [c])) = length (pre @ [c]) + length w + 1"
    using Cons.IH [of "pre @ [c]"] by simp
  with Cons.prems show ?case by (subst skip_line.simps) (auto simp: nth_append)
qed

lemma skip_line_bounds: "p \<le> length s \<Longrightarrow> p \<le> skip_line s p \<and> skip_line s p \<le> length s"
proof (induction s p rule: skip_line.induct)
  case (1 s p)
  then show ?case by (subst (1 2) skip_line.simps) auto
qed

lemma extract_between:
  assumes "m1 \<noteq> []" "m2 \<noteq> []" "\<not> sublist m1 (a @ butlast m1)" "NL \<notin> set m1" "NL \<notin> set lab"
    and "\<not> sublist m2 (x @ butlast m2)"
  shows "extractCodeFromConflictRange (a @ m1 @ lab @ NL # x @ m2 @ b) m1 m2 = Some x"
proof -
  let ?s = "a @ m1 @ lab @ NL # x @ m2 @ b"
  have p: "find_str m1 ?s 0 = Some (length a)" using search_at [OF assms(1,3)] by (simp add: find_str_def)
  have q: "skip_line ?s (length a) = length a + length (m1 @ lab) + 1"
    using skip_line_text [of "m1 @ lab" a "x @ m2 @ b"] assms(4,5) by simp
  have "search m2 (x @ m2 @ b) = Some (length x)" using search_at [OF assms(2,6)] .
  then have "find_str m2 ?s (length a + length (m1 @ lab) + 1) =
      Some (length a + length (m1 @ lab) + 1 + length x)"
    by (simp add: find_str_def)
  with p q assms(2) show ?thesis
    by (simp add: extractCodeFromConflictRange_def substr_def)
qed

text \<open>A marker is a run of seven equal characters.\<close>

fun mark_char :: "ConflictMark \<Rightarrow> char" where
  "mark_char ConflictMark.OURS = CHR ''<''"
| "mark_char ConflictMark.BASE = CHR ''|''"
| "mark_char ConflictMark.THEIRS = CHR ''=''"
| "mark_char END = CHR ''>''"

lemma mark_name_run: "mark_name m = replicate 7 (mark_char m)"
  by (cases m) (simp_all add: mark_name.simps eval_nat_numeral)

lemma mark_char_inject [simp]: "mark_char m = mark_char m' \<longleftrightarrow> m = m'"
  by (cases m; cases m') simp_all

lemma mark_char_not_NL [simp]: "mark_char m \<noteq> NL" "NL \<noteq> mark_char m"
  by (cases m; simp)+

definition no_mark :: "string \<Rightarrow> bool" where
  "no_mark x \<longleftrightarrow> list_all (\<lambda>m. \<not> contains_str x (mark_name m))
     [ConflictMark.OURS, ConflictMark.BASE, ConflictMark.THEIRS, END]"

lemma no_markD: "no_mark x \<Longrightarrow> \<not> sublist (replicate 7 (mark_char m)) x"
  by (cases m) (simp_all add: no_mark_def contains_str_sublist mark_name_run)

text \<open>Text of one side: whole lines without a marker.\<close>

definition side_text :: "string \<Rightarrow> bool" where
  "side_text x \<longleftrightarrow> (x = [] \<or> last x = NL) \<and> no_mark x"

definition label :: "string \<Rightarrow> bool" where
  "label l \<longleftrightarrow> NL \<notin> set l \<and> no_mark l"

lemma side_text_then_run: "side_text x \<Longrightarrow> \<not> sublist (mark_name m) (x @ butlast (mark_name m))"
  unfolding mark_name_run side_text_def
  by (rule sublist_run_append) (auto simp: no_markD sublist_run_short)

lemma headed_side:
  assumes "label l" "side_text x" "m \<noteq> m'"
    and "a = [] \<or> last a = NL" "\<not> sublist (mark_name m) a"
  shows "\<not> sublist (mark_name m) (a @ mark_name m' @ l @ NL # x)"
proof -
  let ?k = "replicate 7 (mark_char m)"
  have "\<not> sublist ?k ([NL] @ x)"
    by (rule sublist_run_append) (use assms(2) in \<open>auto simp: side_text_def no_markD sublist_run_other\<close>)
  then have "\<not> sublist ?k (l @ [NL] @ x)"
    by (rule sublist_run_append [rotated]) (use assms(1) in \<open>auto simp: label_def no_markD\<close>)
  then have "\<not> sublist ?k (replicate 7 (mark_char m') @ l @ [NL] @ x)"
    by (rule sublist_run_append [rotated]) (use assms(3) in \<open>auto simp: sublist_run_other last_replicate\<close>)
  then have "\<not> sublist ?k (a @ replicate 7 (mark_char m') @ l @ [NL] @ x)"
    by (rule sublist_run_append [rotated]) (use assms(4,5) in \<open>auto simp: mark_name_run\<close>)
  then show ?thesis by (simp add: mark_name_run)
qed

lemma headed_side_last: "side_text x \<Longrightarrow> last (a @ mark_name m @ l @ NL # x) = NL"
  by (auto simp: side_text_def)

definition conflict_text :: "string \<Rightarrow> string \<Rightarrow> string \<Rightarrow> string \<Rightarrow> string \<Rightarrow> string \<Rightarrow> string \<Rightarrow> string" where
  "conflict_text l1 ours l2 base l3 theirs l4 =
     mark_name ConflictMark.OURS @ l1 @ NL # ours @
     mark_name ConflictMark.BASE @ l2 @ NL # base @
     mark_name ConflictMark.THEIRS @ l3 @ NL # theirs @ mark_name END @ l4"

lemma extract_marked:
  assumes "a = [] \<or> last a = NL" "\<not> sublist (mark_name m) a" "label l" "side_text x"
  shows "extractCodeFromConflictRange (a @ mark_name m @ l @ NL # x @ mark_name m' @ b)
           (mark_name m) (mark_name m') = Some x"
proof (rule extract_between)
  show "\<not> sublist (mark_name m) (a @ butlast (mark_name m))"
    unfolding mark_name_run
    by (rule sublist_run_append) (use assms(1,2) in \<open>auto simp: sublist_run_short mark_name_run\<close>)
  show "\<not> sublist (mark_name m') (x @ butlast (mark_name m'))" using assms(4) by (rule side_text_then_run)
qed (use assms(3) in \<open>auto simp: label_def\<close>)

lemma extract_sides:
  assumes "label l1" "label l2" "label l3" "side_text ours" "side_text base" "side_text theirs"
  shows "extractCodeFromConflictRange (conflict_text l1 ours l2 base l3 theirs l4)
           (mark_name ConflictMark.OURS) (mark_name ConflictMark.BASE) = Some ours"
    and "extractCodeFromConflictRange (conflict_text l1 ours l2 base l3 theirs l4)
           (mark_name ConflictMark.BASE) (mark_name ConflictMark.THEIRS) = Some base"
    and "extractCodeFromConflictRange (conflict_text l1 ours l2 base l3 theirs l4)
           (mark_name ConflictMark.THEIRS) (mark_name END) = Some theirs"
proof -
  let ?A = "mark_name ConflictMark.OURS @ l1 @ NL # ours"
  let ?B = "?A @ mark_name ConflictMark.BASE @ l2 @ NL # base"
  have A: "\<not> sublist (mark_name m) ?A" if "m \<noteq> ConflictMark.OURS" for m
    using headed_side [OF assms(1,4) that, of "[]"] by simp
  have lA: "last ?A = NL" using headed_side_last [OF assms(4), of "[]"] by simp
  have B: "\<not> sublist (mark_name ConflictMark.THEIRS) ?B"
    by (rule headed_side) (use assms A lA in auto)
  have lB: "last ?B = NL" using assms(5) by (rule headed_side_last)
  show "extractCodeFromConflictRange (conflict_text l1 ours l2 base l3 theirs l4)
           (mark_name ConflictMark.OURS) (mark_name ConflictMark.BASE) = Some ours"
    using extract_marked [of "[]" ConflictMark.OURS l1 ours] assms by (simp add: conflict_text_def)
  show "extractCodeFromConflictRange (conflict_text l1 ours l2 base l3 theirs l4)
           (mark_name ConflictMark.BASE) (mark_name ConflictMark.THEIRS) = Some base"
    using extract_marked [of ?A ConflictMark.BASE l2 base] lA A assms by (simp add: conflict_text_def)
  show "extractCodeFromConflictRange (conflict_text l1 ours l2 base l3 theirs l4)
           (mark_name ConflictMark.THEIRS) (mark_name END) = Some theirs"
    using extract_marked [of ?B ConflictMark.THEIRS l3 theirs] lB B assms by (simp add: conflict_text_def)
qed

subsection \<open>Trimming and names\<close>

lemma trim_dropWhile: "trim s = rev (dropWhile (\<lambda>c. c = NL) (rev (dropWhile (\<lambda>c. c = NL) s)))"
proof -
  have lead: "erase_leading s = dropWhile (\<lambda>c. c = NL) s" for s
    by (induction s rule: erase_leading.induct) auto
  have trail: "erase_trailing s = rev (dropWhile (\<lambda>c. c = NL) (rev s))" for s
  proof (induction s rule: rev_induct)
    case (snoc c s)
    then show ?case by (simp add: erase_trailing.simps [of "s @ [c]"])
  qed (simp add: erase_trailing.simps)
  show ?thesis by (simp add: trim_def lead trail)
qed

lemma getlines_split: "getlines d acc s = string_split (acc @ s) [d] True" if "d \<notin> set acc"
  using that
proof (induction s arbitrary: acc)
  case Nil
  then have "\<forall>c\<in>set acc. c \<notin> set [d]" by auto
  then show ?case using string_split_no_delim [of acc "[d]" True] by (cases "acc = []") simp_all
next
  case (Cons c s)
  show ?case
  proof (cases "c = d")
    case True
    moreover have "\<forall>x\<in>set acc. x \<notin> set [d]" using Cons.prems by auto
    ultimately show ?thesis using string_split_delim [of acc "[d]" d s True] Cons.IH [of "[]"] by simp
  next
    case False
    then show ?thesis using Cons.IH [of "acc @ [c]"] Cons.prems by simp
  qed
qed

lemma string_join_other_sep:
  "string_join (string_split s [d] True) [e] =
     replace_char d e (if s \<noteq> [] \<and> last s = d then butlast s else s)"
proof -
  have "concat (map (\<lambda>x. x @ [e]) (string_split s [d] True)) =
     map (\<lambda>c. if c = d then e else c) (if s = [] \<or> last s = d then s else s @ [d])"
  proof (induction s rule: delim_induct [where D = "{d}"])
    case (Last w)
    then have "last w \<noteq> d" using last_in_set [of w] by auto
    moreover have "map (\<lambda>c. if c = d then e else c) w = w" using Last by (auto intro: map_idI)
    ultimately show ?case using Last by (simp add: string_split_no_delim)
  next
    case (Piece w f r)
    moreover have "map (\<lambda>c. if c = d then e else c) w = w" using Piece by (auto intro: map_idI)
    ultimately show ?case by (simp add: string_split_delim)
  qed simp
  then show ?thesis
    by (auto simp: string_join_single_sep split_Nil_iff replace_char_def map_butlast)
qed

text \<open>Paths that come back from their cache name.\<close>

definition portable_path :: "string \<Rightarrow> bool" where
  "portable_path p \<longleftrightarrow> (CHR ''/'' \<in> set p \<or> BSLASH \<notin> set p) \<and>
     CHR ''@'' \<notin> set p \<and> CHR ''#'' \<notin> set p \<and> CHR '':'' \<notin> set p \<and>
     \<not> contains_str p ''//'' \<and> (p = [] \<or> last p \<noteq> CHR ''/'')"

lemma pathToName_portable:
  assumes "portable_path p"
  shows "pathToName p = replace_char (CHR ''/'') (CHR ''@'') p"
proof (cases "CHR ''/'' \<in> set p")
  case True
  then show ?thesis using assms
    by (auto simp: pathToName_def portable_path_def string_join_other_sep replace_char_def)
next
  case False
  then have b: "BSLASH \<notin> set p" using assms by (auto simp: portable_path_def)
  then have "p \<noteq> [] \<Longrightarrow> last p \<noteq> BSLASH" using last_in_set [of p] by metis
  with b have "string_join (string_split p [BSLASH] True) ''@'' = p"
    by (auto simp: string_join_other_sep replace_char_id)
  with False assms show ?thesis
    by (simp add: pathToName_def portable_path_def replace_char_id)
qed

lemma nameToPath_pathToName:
  assumes "portable_path p"
  shows "nameToPath (pathToName p) = p"
proof -
  let ?n = "replace_char (CHR ''/'') (CHR ''@'') p"
  have h: "CHR ''#'' \<notin> set ?n" using assms by (auto simp: portable_path_def replace_char_def)
  have d: "\<not> contains_str ?n ''@@''"
    using assms replace_char_double by (auto simp: portable_path_def contains_str_sublist)
  have r: "replace_char (CHR ''@'') (CHR ''/'') ?n = p"
    using assms by (simp add: portable_path_def replace_char_inverse)
  have i: "replace_char (CHR ''#'') (CHR '':'') p = p"
    using assms by (simp add: portable_path_def replace_char_id)
  have "string_join (getlines (CHR ''/'') [] p) ''/'' = p"
    using assms by (auto simp: getlines_split join_split portable_path_def)
  with h d r i show ?thesis by (simp add: nameToPath_def pathToName_portable [OF assms])
qed

interpretation path_name: codec portable_path "\<lambda>p. Some (pathToName p)" "\<lambda>n. Some (nameToPath n)"
  by unfold_locales (auto simp: nameToPath_pathToName)


subsection \<open>Accumulated results\<close>

text \<open>A sequence of calls on one destination.\<close>

fun marshal_all ::
  "('doc \<Rightarrow> bool) \<Rightarrow> ('doc \<Rightarrow> FileResolutionResult option) \<Rightarrow> (FileResolutionResult \<Rightarrow> 'doc) \<Rightarrow>
   string \<Rightarrow> BlockResolutionResult list list \<Rightarrow> 'doc option \<Rightarrow> 'doc option option" where
  "marshal_all accept of_json dump name [] dest = Some dest"
| "marshal_all accept of_json dump name (rs # rss) dest =
     (case marshalResolutionResult accept of_json dump True name rs dest of
        None \<Rightarrow> None
      | Some (dest', _) \<Rightarrow> marshal_all accept of_json dump name rss dest')"

text \<open>What the code relies on of the JSON library: a text it wrote is accepted and read back.\<close>

lemma marshal_all_from:
  assumes "\<And>r. accept (dump r)" "\<And>r. of_json (dump r) = Some r"
  shows "marshal_all accept of_json dump name rss (Some (dump r)) =
     Some (Some (dump (r\<lparr>resolutions := resolutions r @ concat rss\<rparr>)))"
  by (induction rss arbitrary: r) (simp_all add: marshalResolutionResult_def assms Let_def)

lemma marshal_all_new:
  assumes "\<And>r. accept (dump r)" "\<And>r. of_json (dump r) = Some r"
  shows "marshal_all accept of_json dump name (rs # rss) None =
     Some (Some (dump \<lparr>filepath = name, resolutions = concat (rs # rss)\<rparr>))"
  by (simp add: marshal_all_from [of accept dump of_json] assms marshalResolutionResult_def [of _ _ _ _ _ _ None])

lemma hasSameElements_iff: "hasSameElements cmp xs ys \<longleftrightarrow> (\<exists>x\<in>set xs. \<exists>y\<in>set ys. cmp x y)"
  unfolding hasSameElements_def list_ex_iff by (simp add: find_idx_None_iff del: not_None_eq)

subsection \<open>Polling\<close>

text \<open>A poll list on which the clock reaches the limit ends the loop.\<close>

lemma exec_loop_returns:
  "list_ex (\<lambda>p. timeout \<le> elapsed p) ps \<Longrightarrow> \<exists>r. exec_loop timeout ec chk out st ps = Some r"
  by (induction ps arbitrary: st) (auto simp: Let_def)

text \<open>While the child runs, \<open>waitpid\<close> leaves the status 0, which reads as a normal exit.\<close>

lemma exec_loop_running:
  "elapsed p < timeout \<Longrightarrow> wait_res p = 0 \<Longrightarrow> exec_loop timeout ec chk out 0 (p # ps) = Some (Inr (pop_last out))"
  by (simp add: WIFEXITED_def WEXITSTATUS_def)

subsection \<open>Properties\<close>

text \<open>
  C5: On a file whose lines all end with a newline, \<open>constructConflictFile\<close> returns exactly the
  conflict blocks of the file, in order and numbered from 1: each starts at a line with the
  first marker and runs to the next line with the last marker, both included.
\<close>

theorem constructConflictFile_finds_blocks:
  "list_all (\<lambda>l. NL \<notin> set l) ls \<Longrightarrow>
   constructConflictFile (unlines ls) = Inr (number_blocks 0 (conflict_ranges ls))"
  by (rule constructConflictFile_lines)

theorem constructConflictFile_finds_blocks_witness:
  "constructConflictFile (unlines [''a'', ''<<<<<<< x'', ''b'', ''>>>>>>> y'', ''c'']) =
     Inr [\<lparr>Index = 1, ConflictRange = unlines [''<<<<<<< x'', ''b'', ''>>>>>>> y''], Resolved = False\<rparr>]"
  using constructConflictFile_finds_blocks [of "[''a'', ''<<<<<<< x'', ''b'', ''>>>>>>> y'', ''c'']"]
  by (simp add: is_mark_def mark_name.simps)

text \<open>
  A conflict block that is still open when the file ends in a line without a newline makes
  \<open>constructConflictFile\<close> step over the end of the buffer and read behind it.
\<close>

theorem constructConflictFile_overrun:
  assumes "list_all (\<lambda>l. NL \<notin> set l \<and> \<not> is_mark ConflictMark.OURS l) as"
    and "NL \<notin> set l" "is_mark ConflictMark.OURS l"
    and "list_all (\<lambda>l. NL \<notin> set l \<and> \<not> is_mark END l) ls"
    and "w \<noteq> []" "NL \<notin> set w"
  shows "constructConflictFile (unlines as @ unlines (l # ls) @ w) = Inl Past_end"
  using file_loop_overrun [OF assms(5,6,2,3,4,1), of "[]" 0] by (simp add: constructConflictFile_def)

theorem constructConflictFile_overrun_witness:
  "constructConflictFile (unlines [''a''] @ unlines [''<<<<<<< x'', ''b''] @ ''>>>>>>> y'') = Inl Past_end"
  by (rule constructConflictFile_overrun) (simp_all add: is_mark_def mark_name.simps)

text \<open>
  C18: From a conflict block with its three labelled sides, each made of whole lines that hold no
  marker, \<open>extractCodeFromConflictRange\<close> returns exactly our, base and their code for the three
  pairs of markers the handlers use.
\<close>

theorem extractCode_three_sides:
  assumes "label l1" "label l2" "label l3" "side_text ours" "side_text base" "side_text theirs"
  shows "map (\<lambda>(s, e). extractCodeFromConflictRange (conflict_text l1 ours l2 base l3 theirs l4)
                         (mark_name s) (mark_name e))
           [(ConflictMark.OURS, ConflictMark.BASE), (ConflictMark.BASE, ConflictMark.THEIRS), (ConflictMark.THEIRS, END)]
         = [Some ours, Some base, Some theirs]"
  using extract_sides [OF assms, of l4] by simp

theorem extractCode_three_sides_witness:
  "map (\<lambda>(s, e). extractCodeFromConflictRange (conflict_text '' a'' (''x'' @ [NL]) [] [] [] (''y'' @ [NL]) '' b'')
                    (mark_name s) (mark_name e))
     [(ConflictMark.OURS, ConflictMark.BASE), (ConflictMark.BASE, ConflictMark.THEIRS), (ConflictMark.THEIRS, END)]
   = [Some (''x'' @ [NL]), Some [], Some (''y'' @ [NL])]"
  by (rule extractCode_three_sides)
     (simp_all add: label_def side_text_def no_mark_def contains_str_def mark_name.simps)

text \<open>
  C31: Tidying up drops exactly the resolved files and, of every file kept, exactly the
  resolved blocks; the order is kept.
\<close>

theorem tidyUpConflictFiles_exact:
  "tidyUpConflictFiles fs =
     map (\<lambda>cf. cf\<lparr>ConflictBlocks := filter (\<lambda>cb. \<not> Resolved cb) (ConflictBlocks cf)\<rparr>)
       (filter (\<lambda>cf. \<not> FileResolved cf) fs)"
  by (rule tidyUpConflictFiles_filter)

text \<open>
  The cache name of a path leads back to the path, for every path without \<open>@\<close>, \<open>#\<close>, a colon,
  a doubled or a trailing slash.
\<close>

theorem path_name_roundtrip: "portable_path p \<Longrightarrow> nameToPath (pathToName p) = p"
  by (rule nameToPath_pathToName)

theorem path_name_roundtrip_witness: "nameToPath (pathToName ''src/core/a.cpp'') = ''src/core/a.cpp''"
  by (rule path_name_roundtrip) (simp add: portable_path_def contains_str_def)

text \<open>
  Marshalling the results of several handlers for a file one after the other into a new
  destination leaves there one document with all results, in the order of the calls.
\<close>

theorem marshal_accumulates:
  assumes "\<And>r. accept (dump r)" and "\<And>r. of_json (dump r) = Some r"
  shows "marshal_all accept of_json dump name (rs # rss) None =
     Some (Some (dump \<lparr>filepath = name, resolutions = concat (rs # rss)\<rparr>))"
  using assms by (rule marshal_all_new)

theorem marshal_accumulates_witness:
  "marshal_all (\<lambda>_. True) Some (\<lambda>r. r) ''a.cpp''
     [[\<lparr>index = 1, desc = [], code = ''x'', confidence = 1\<rparr>], [\<lparr>index = 2, desc = [], code = ''y'', confidence = 1\<rparr>]] None =
   Some (Some \<lparr>filepath = ''a.cpp'',
     resolutions = [\<lparr>index = 1, desc = [], code = ''x'', confidence = 1\<rparr>, \<lparr>index = 2, desc = [], code = ''y'', confidence = 1\<rparr>]\<rparr>)"
  by (subst marshal_accumulates) simp_all

text \<open>
  \<open>ExecCommand\<close> returns as soon as the clock reaches the time limit in some poll, and a
  child that is still running at the first poll is taken for one that exited with status 0.
\<close>

theorem ExecCommand_polls:
  "(list_ex (\<lambda>p. timeout \<le> elapsed p) ps \<longrightarrow> ExecCommand opened out timeout ec check ps \<noteq> None) \<and>
   (elapsed p < timeout \<and> wait_res p = 0 \<longrightarrow>
    ExecCommand True out timeout ec check (p # ps) = Some (Inr (pop_last out)))"
  using exec_loop_returns [of timeout ps ec check out 0] exec_loop_running [of p timeout ec check out ps]
  by (auto simp: ExecCommand_def)

theorem ExecCommand_polls_witness:
  "ExecCommand True ''ab'' 10 0 True [\<lparr>elapsed = 10, wait_res = 0, wait_status = 0\<rparr>] \<noteq> None \<and>
   ExecCommand True ''ab'' 10 0 True [\<lparr>elapsed = 1, wait_res = 0, wait_status = 9\<rparr>] = Some (Inr ''a'')"
  using ExecCommand_polls [of 10 "[\<lparr>elapsed = 10, wait_res = 0, wait_status = 0\<rparr>]" True "''ab''" 0 True]
    ExecCommand_polls [of 10 "[]" True "''ab''" 0 True "\<lparr>elapsed = 1, wait_res = 0, wait_status = 9\<rparr>"]
  by (simp add: pop_last_def)

end
