(* ===== verification/Handlers.thy ===== *)
theory Handlers
  imports DependencyGraph Conflict
begin

section \<open>The conflict handlers\<close>

text \<open>
  Models the text and the style based handler (\<open>TextBasedHandler.cpp\<close>,
  \<open>StyleBasedHandler.cpp\<close>), the identifiers the AST based handler reads from the conflict files,
  and the chain the handlers form (\<open>SAHandler.h\<close>, \<open>HandlerChain.h\<close>).

  The parser, the formatter, the file system queries, the commands and the JSON library are
  the fields of the record \<open>externals\<close>. What the handlers read and write is the record
  \<open>world\<close>: the texts in the cache directory and the documents of the resolution results.
\<close>

subsection \<open>Data\<close>

datatype handler_error = Assertion_failed | Read_past_end | Json_exception

record MergeScenario =
  ms_name :: string
  ms_ours :: string
  ms_theirs :: string
  ms_base :: string

definition mkMergeScenario :: "string \<Rightarrow> string \<Rightarrow> string \<Rightarrow> MergeScenario" where
  "mkMergeScenario ours theirs base =
     \<lparr>ms_name = substr ours 0 6 @ ''-'' @ substr theirs 0 6,
      ms_ours = ours, ms_theirs = theirs, ms_base = base\<rparr>"

definition ms_toString :: "MergeScenario \<Rightarrow> string" where
  "ms_toString ms = ''MergeScenario(name = '' @ ms_name ms @ '', ours = '' @ ms_ours ms @
     '', theirs = '' @ ms_theirs ms @ '', base = '' @ ms_base ms @ '')''"

record ProjectMeta =
  Project :: string
  ProjectPath :: string
  ProjectCacheDir :: string
  MS :: MergeScenario
  CDBPath :: string
  MSCacheDir :: string

definition meta_toString :: "ProjectMeta \<Rightarrow> string" where
  "meta_toString m = ''ProjectMeta(Project='' @ Project m @ '', ProjectPath='' @ ProjectPath m @
     '', ProjectCacheDir='' @ ProjectCacheDir m @ '', MS='' @ ms_toString (MS m) @
     '', MSCacheDir='' @ MSCacheDir m @ '')''"

text \<open>A child of the root of a parsed text, in source order; \<open>named\<close> tells the named nodes.\<close>

record ts_child =
  symbol :: string
  node_text :: string
  named :: bool

record 'doc externals =
  relative :: "string \<Rightarrow> string \<Rightarrow> string"
  parse_children :: "string \<Rightarrow> ts_child list"
  exec :: "string \<Rightarrow> exec_error + string"
  accept :: "'doc \<Rightarrow> bool"
  of_json :: "'doc \<Rightarrow> FileResolutionResult option"
  dump :: "FileResolutionResult \<Rightarrow> 'doc"
  writable :: "string \<Rightarrow> bool"
  formatter :: "string \<Rightarrow> string \<Rightarrow> string"

record 'doc world =
  files :: "string \<rightharpoonup> string"
  results :: "string \<rightharpoonup> 'doc"

subsection \<open>Helpers of the text based handler\<close>

definition isConflictBlockInBuffer :: "string \<Rightarrow> string \<Rightarrow> bool" where
  "isConflictBlockInBuffer source buf =
     (if length buf < length source then False
      else case search source buf of None \<Rightarrow> False | Some k \<Rightarrow> k \<noteq> length buf)"

text \<open>
  The loop of \<open>extractConflictBlock\<close>; without a closing marker \<open>BlockEnd\<close> is \<open>End\<close> and the code goes on
  behind it.
\<close>

function block_search :: "int \<Rightarrow> string \<Rightarrow> nat \<Rightarrow> int \<Rightarrow> handler_error + string" where
  "block_search idx buf it cnt =
     (case search ''<<<<<<<'' (drop it buf) of
        None \<Rightarrow> Inr []
      | Some k \<Rightarrow>
          let blockBegin = it + k + 7 in
          (case search ''>>>>>>>'' (drop blockBegin buf) of
             None \<Rightarrow> Inl Read_past_end
           | Some j \<Rightarrow>
               if cnt + 1 = idx then Inr (substr buf (it + k) (7 + j + 7))
               else block_search idx buf (blockBegin + j + 7) (cnt + 1)))"
  by pat_completeness auto
termination
proof (relation "measure (\<lambda>(idx, buf, it, cnt). length buf - it)", goal_cases)
  case (2 idx buf it cnt k b j)
  then have "k + 7 \<le> length buf - it" by (auto dest!: search_length)
  then show ?case using 2(2) by simp
qed simp

declare block_search.simps [simp del]

definition extractConflictBlock :: "int \<Rightarrow> string \<Rightarrow> handler_error + string" where
  "extractConflictBlock idx buf = block_search idx buf 0 0"

definition isCppSource :: "string \<Rightarrow> bool" where
  "isCppSource filename =
     list_ex (ends_with filename) [''.cc'', ''.cpp'', ''.cxx'', ''.cx'', ''.c++'', ''.C'', ''.c++'', ''.c'']"

definition isCppHeader :: "string \<Rightarrow> bool" where
  "isCppHeader filename = list_ex (ends_with filename) [''.hpp'', ''.h'']"

text \<open>The two indices of \<open>isSubSequence\<close> as the rests of the two sequences.\<close>

fun isSubSequence :: "string list \<Rightarrow> string list \<Rightarrow> bool" where
  "isSubSequence (x # seq1) (y # seq2) =
     (if x = y then isSubSequence seq1 seq2 else isSubSequence seq1 (y # seq2))"
| "isSubSequence seq1 [] = True"
| "isSubSequence [] (y # seq2) = False"

definition is_comment :: "ts_child \<Rightarrow> bool" where
  "is_comment n \<longleftrightarrow> symbol n = ''comment''"

text \<open>The previous siblings of the current node, nearest first, are \<open>prevs\<close>.\<close>

fun decl_loop :: "ts_child list \<Rightarrow> ts_child list \<Rightarrow> string list \<Rightarrow> bool \<times> string list" where
  "decl_loop prevs [] decls = (True, decls)"
| "decl_loop prevs (n # ns) decls =
     (if \<not> named n then decl_loop (n # prevs) ns decls
      else if \<not> is_comment n \<and> \<not> contains_str (symbol n) ''declaration'' then (False, decls)
      else if is_comment n then decl_loop (n # prevs) ns decls
      else decl_loop (n # prevs) ns
             (decls @ [case prevs of
                         p # _ \<Rightarrow> if is_comment p then node_text p @ [NL] @ node_text n else node_text n
                       | [] \<Rightarrow> node_text n]))"

definition parseDeclarations :: "(string \<Rightarrow> ts_child list) \<Rightarrow> string \<Rightarrow> bool \<times> string list" where
  "parseDeclarations parse src = (if src = [] then (False, []) else decl_loop [] (parse src) [])"

text \<open>The \<open>while\<close> over the comments in front of a definition.\<close>

fun attach_comments :: "string \<Rightarrow> ts_child list \<Rightarrow> string \<Rightarrow> string" where
  "attach_comments txt (p # prevs) defn =
     (if is_comment p then attach_comments txt prevs (node_text p @ [NL] @ txt) else defn)"
| "attach_comments txt [] defn = defn"

fun def_loop :: "ts_child list \<Rightarrow> ts_child list \<Rightarrow> bool \<Rightarrow> string list \<Rightarrow> bool \<times> string list" where
  "def_loop prevs [] ever defs = (ever, defs)"
| "def_loop prevs (n # ns) ever defs =
     (if \<not> named n then def_loop (n # prevs) ns ever defs
      else if \<not> is_comment n \<and> \<not> contains_str (symbol n) ''definition'' \<and>
              \<not> contains_str (symbol n) ''declaration'' then (False, defs)
      else if is_comment n then def_loop (n # prevs) ns ever defs
      else def_loop (n # prevs) ns (ever \<or> contains_str (symbol n) ''definition'')
             (defs @ [attach_comments (node_text n) prevs (node_text n)]))"

definition parseDefinitions :: "(string \<Rightarrow> ts_child list) \<Rightarrow> string \<Rightarrow> bool \<times> string list" where
  "parseDefinitions parse src = (if src = [] then (False, []) else def_loop [] (parse src) False [])"

fun incl_loop :: "ts_child list \<Rightarrow> string list \<Rightarrow> bool \<times> string list" where
  "incl_loop [] incls = (True, incls)"
| "incl_loop (n # ns) incls =
     (if \<not> named n then incl_loop ns incls
      else if symbol n \<noteq> ''preproc_include'' then (False, incls)
      else incl_loop ns (incls @ [node_text n]))"

definition parseInclusions :: "(string \<Rightarrow> ts_child list) \<Rightarrow> string \<Rightarrow> bool \<times> string list" where
  "parseInclusions parse src = (if src = [] then (False, []) else incl_loop (parse src) [])"

subsection \<open>The checks of the text based handler\<close>

text \<open>
  A check returns the completed result, or \<^term>\<open>None\<close> where the code returns \<open>false\<close>, or an error. The
  result it gets carries the index of the block.
\<close>

type_synonym check = "handler_error + BlockResolutionResult option"

definition new_result :: "int \<Rightarrow> BlockResolutionResult" where
  "new_result i = \<lparr>index = i, desc = [], code = [], confidence = 0\<rparr>"

definition resolve_with :: "BlockResolutionResult \<Rightarrow> string \<Rightarrow> string \<Rightarrow> real \<Rightarrow> check" where
  "resolve_with brr c d conf = Inr (Some (brr\<lparr>code := c, desc := d, confidence := conf\<rparr>))"

definition conflicts_path :: "'doc externals \<Rightarrow> ProjectMeta \<Rightarrow> string \<Rightarrow> string" where
  "conflicts_path ext meta filename =
     path_join (path_join (MSCacheDir meta) ''conflicts'') (relative ext filename (ProjectPath meta))"

text \<open>The three sides of a block, each of which asserts its start marker.\<close>

definition three_sides :: "string \<Rightarrow> (string \<times> string \<times> string) option" where
  "three_sides codeRange =
     (case (extractCodeFromConflictRange codeRange (mark_name ConflictMark.OURS) (mark_name ConflictMark.BASE),
            extractCodeFromConflictRange codeRange (mark_name ConflictMark.BASE) (mark_name ConflictMark.THEIRS),
            extractCodeFromConflictRange codeRange (mark_name ConflictMark.THEIRS) (mark_name END)) of
        (Some ours, Some base, Some theirs) \<Rightarrow> Some (ours, base, theirs)
      | _ \<Rightarrow> None)"

definition deflate :: "string \<Rightarrow> string" where
  "deflate c = removeCommentsAndSpaces (doMacroExpansion c)"

definition checkOneSideDelta ::
  "'doc externals \<Rightarrow> ProjectMeta \<Rightarrow> 'doc world \<Rightarrow> string \<Rightarrow> string \<Rightarrow> string \<Rightarrow> BlockResolutionResult \<Rightarrow> check" where
  "checkOneSideDelta ext meta w our their filename brr =
     (if our = [] \<or> their = [] then Inr None
      else case files w (conflicts_path ext meta filename) of
        None \<Rightarrow> Inr None
      | Some buf \<Rightarrow>
          (case extractConflictBlock (index brr) buf of
             Inl e \<Rightarrow> Inl e
           | Inr codeRange \<Rightarrow>
               if codeRange = [] then Inr None
               else case three_sides codeRange of
                 None \<Rightarrow> Inl Assertion_failed
               | Some (ourCode, baseCode, theirCode) \<Rightarrow>
                   if deflate ourCode = deflate baseCode
                   then resolve_with brr their ''De facto one-sided modification, accept their side.'' (7 / 10)
                   else if deflate theirCode = deflate baseCode
                   then resolve_with brr our ''De facto one-sided modification, accept our side.'' (7 / 10)
                   else Inr None))"

text \<open>Whether the loop over the named children of a header finds declarations and comments only.\<close>

definition only_declarations :: "ts_child list \<Rightarrow> bool" where
  "only_declarations ns =
     list_all (\<lambda>n. is_comment n \<or> contains_str (symbol n) ''declaration'') (filter named ns)"

definition checkInclusion ::
  "'doc externals \<Rightarrow> string \<Rightarrow> string \<Rightarrow> string \<Rightarrow> BlockResolutionResult \<Rightarrow> check" where
  "checkInclusion ext our their filename brr =
     (let deflatedOurs = removeCommentsAndSpaces our;
          deflatedTheirs = removeCommentsAndSpaces their;
          ourContain = (length deflatedTheirs < length deflatedOurs \<and> contains_str deflatedOurs deflatedTheirs);
          theirContain = (length deflatedOurs < length deflatedTheirs \<and> contains_str deflatedTheirs deflatedOurs);
          ourLineVec = string_split our [NL] False;
          theirLineVec = string_split their [NL] False
      in if \<not> ourContain \<and> \<not> theirContain then Inr None
         else if isCppSource filename \<and> length theirLineVec < length ourLineVec \<and>
                 isSubSequence ourLineVec theirLineVec
         then resolve_with brr our ''Added code or method extraction, accept our side.'' (7 / 10)
         else if isCppSource filename \<and> \<not> length theirLineVec < length ourLineVec \<and>
                 isSubSequence theirLineVec ourLineVec
         then resolve_with brr their ''Added code or method extraction, accept their side'' (7 / 10)
         else if isCppHeader filename then
           (if \<not> only_declarations (parse_children ext our) then Inr None
            else if \<not> only_declarations (parse_children ext their) then Inr None
            else if ourContain
            then resolve_with brr our ''Our side contains all the modifications, accept our side'' (7 / 10)
            else if theirContain
            then resolve_with brr their ''Their side contains all the modifications, accept their side.'' (7 / 10)
            else Inr None)
         else Inr None)"

text \<open>\<open>mergeVectors\<close> on a new vector; it always returns.\<close>

definition merge_lists :: "string list \<Rightarrow> string list \<Rightarrow> bool \<times> string list" where
  "merge_lists v1 v2 = the (mergeVectors v1 v2 [])"

definition doListMerge ::
  "'doc externals \<Rightarrow> string \<Rightarrow> string \<Rightarrow> string \<Rightarrow> BlockResolutionResult \<Rightarrow> check" where
  "doListMerge ext our their filename brr =
     (let (ourAll, ourIncl) = parseInclusions (parse_children ext) our;
          (theirAll, theirIncl) = parseInclusions (parse_children ext) their;
          (inclOk, inclMerged) = merge_lists ourIncl theirIncl
      in if ourAll \<and> theirAll \<and> inclOk
         then resolve_with brr (string_join inclMerged []) ''Headers merge.'' (7 / 10)
         else if isCppHeader filename then
           (let (ok1, ourDecls) = parseDeclarations (parse_children ext) our;
                (ok2, theirDecls) = parseDeclarations (parse_children ext) their;
                (ok3, merged) = merge_lists ourDecls theirDecls
            in if ok1 \<and> ok2 \<and> ok3
               then resolve_with brr (string_join merged [NL]) ''Declarations merge.'' (5 / 10)
               else Inr None)
         else if isCppSource filename then
           (let (ok1, ourDefs) = parseDefinitions (parse_children ext) our;
                (ok2, theirDefs) = parseDefinitions (parse_children ext) their;
                (ok3, merged) = merge_lists ourDefs theirDefs
            in if ok1 \<and> ok2 \<and> ok3
               then resolve_with brr (string_join merged [NL]) ''List merge.'' (4 / 10)
               else Inr None)
         else Inr None)"

datatype DeletionInfavor = DELETION | MODIFICATION

definition initDeletionInfavor :: "string option \<Rightarrow> DeletionInfavor" where
  "initDeletionInfavor env =
     (case env of
        None \<Rightarrow> DELETION
      | Some s \<Rightarrow> if map tolower s = ''modification'' then MODIFICATION else DELETION)"

definition deletionOrModification :: "DeletionInfavor \<Rightarrow> string \<Rightarrow> string" where
  "deletionOrModification favor c =
     (if c = [] then [] else case favor of DELETION \<Rightarrow> [] | MODIFICATION \<Rightarrow> c)"

definition checkDeletion ::
  "'doc externals \<Rightarrow> ProjectMeta \<Rightarrow> DeletionInfavor \<Rightarrow> 'doc world \<Rightarrow> string \<Rightarrow> string \<Rightarrow> string \<Rightarrow>
   BlockResolutionResult \<Rightarrow> check" where
  "checkDeletion ext meta favor w our their filename brr =
     (if our \<noteq> [] \<and> their \<noteq> [] then Inr None
      else case files w (conflicts_path ext meta filename) of
        None \<Rightarrow> Inr None
      | Some buf \<Rightarrow>
          (case extractConflictBlock (index brr) buf of
             Inl e \<Rightarrow> Inl e
           | Inr codeRange \<Rightarrow>
               if codeRange = [] then Inr None
               else case three_sides codeRange of
                 None \<Rightarrow> Inl Assertion_failed
               | Some _ \<Rightarrow>
                   if our = []
                   then resolve_with brr (deletionOrModification favor their) ''Single side deletion.'' (7 / 10)
                   else if their = []
                   then resolve_with brr (deletionOrModification favor our) ''Single side deletion.'' (7 / 10)
                   else Inr None))"

subsection \<open>Resolving the files\<close>

text \<open>Whether the first block of the first file has a base section.\<close>

definition with_base :: "ConflictFile list \<Rightarrow> bool" where
  "with_base fs =
     (case ConflictBlocks (hd fs) of
        [] \<Rightarrow> False
      | cb # _ \<Rightarrow> contains_str (ConflictRange cb) (mark_name ConflictMark.OURS) \<and>
                 contains_str (ConflictRange cb) (mark_name ConflictMark.BASE) \<and>
                 contains_str (ConflictRange cb) (mark_name ConflictMark.THEIRS))"

text \<open>Our and their code of a block; one of them is asserted not to be empty.\<close>

definition block_sides :: "bool \<Rightarrow> ConflictBlock \<Rightarrow> (string \<times> string) option" where
  "block_sides withBase cb =
     (case (if withBase
            then extractCodeFromConflictRange (ConflictRange cb) (mark_name ConflictMark.OURS) (mark_name ConflictMark.BASE)
            else extractCodeFromConflictRange (ConflictRange cb) (mark_name ConflictMark.OURS) (mark_name ConflictMark.THEIRS),
            extractCodeFromConflictRange (ConflictRange cb) (mark_name ConflictMark.THEIRS) (mark_name END)) of
        (Some ourCode, Some theirCode) \<Rightarrow>
          if ourCode = [] \<and> theirCode = [] then None else Some (ourCode, theirCode)
      | _ \<Rightarrow> None)"

text \<open>The checks of the text based handler in their order; the first that resolves the block wins.\<close>

definition first_of :: "check \<Rightarrow> check \<Rightarrow> check" where
  "first_of c1 c2 = (case c1 of Inr None \<Rightarrow> c2 | _ \<Rightarrow> c1)"

definition text_resolve_block ::
  "'doc externals \<Rightarrow> ProjectMeta \<Rightarrow> DeletionInfavor \<Rightarrow> 'doc world \<Rightarrow> bool \<Rightarrow> string \<Rightarrow> ConflictBlock \<Rightarrow> check" where
  "text_resolve_block ext meta favor w withBase filename cb =
     (case block_sides withBase cb of
        None \<Rightarrow> Inl Assertion_failed
      | Some (our, their) \<Rightarrow>
          let brr = new_result (Index cb) in
          first_of (checkDeletion ext meta favor w our their filename brr)
            (first_of (checkOneSideDelta ext meta w our their filename brr)
              (first_of (checkInclusion ext our their filename brr)
                (doListMerge ext our their filename brr))))"

record style_settings =
  NeedFormat :: bool
  WhichSide :: string

text \<open>
  \<open>findRefFile\<close>: \<^term>\<open>None\<close> where one of its assertions fails or \<open>substr\<close> throws. \<open>has_filename\<close> is false for a path
  that ends in a slash or is empty, and appending the empty path then changes nothing.
\<close>

definition findRefFile :: "ProjectMeta \<Rightarrow> style_settings \<Rightarrow> string \<Rightarrow> string option" where
  "findRefFile meta st conflictFilePath =
     (if \<not> contains_str conflictFilePath (ProjectPath meta) then None
      else if WhichSide st \<noteq> ''ours'' \<and> WhichSide st \<noteq> ''theirs'' then None
      else Some (path_join (path_join (MSCacheDir meta) (WhichSide st))
                  (drop (length (ProjectPath meta)) conflictFilePath)))"

definition style_resolve_block ::
  "'doc externals \<Rightarrow> ProjectMeta \<Rightarrow> style_settings \<Rightarrow> bool \<Rightarrow> string \<Rightarrow> ConflictBlock \<Rightarrow> check" where
  "style_resolve_block ext meta st withBase filename cb =
     (case block_sides withBase cb of
        None \<Rightarrow> Inl Assertion_failed
      | Some (our, their) \<Rightarrow>
          if deflate our = deflate their then
            (if NeedFormat st then
               (case findRefFile meta st filename of
                  None \<Rightarrow> Inl Assertion_failed
                | Some refFile \<Rightarrow>
                    let formatted = (if WhichSide st = ''ours'' then formatter ext our refFile
                                     else formatter ext their refFile)
                    in resolve_with (new_result (Index cb)) (if formatted \<noteq> [] then formatted else our)
                         ''Merge conflict caused by formatting issues.'' 0)
             else resolve_with (new_result (Index cb)) our ''Merge conflict caused by formatting issues.'' 0)
          else Inr None)"

text \<open>The loop over the blocks of a file.\<close>

fun resolve_blocks ::
  "(ConflictBlock \<Rightarrow> check) \<Rightarrow> ConflictBlock list \<Rightarrow>
   handler_error + ConflictBlock list \<times> BlockResolutionResult list" where
  "resolve_blocks resolve [] = Inr ([], [])"
| "resolve_blocks resolve (cb # cbs) =
     (case resolve cb of
        Inl e \<Rightarrow> Inl e
      | Inr r \<Rightarrow>
          (case resolve_blocks resolve cbs of
             Inl e \<Rightarrow> Inl e
           | Inr (cbs', rs) \<Rightarrow>
               (case r of
                  None \<Rightarrow> Inr (cb # cbs', rs)
                | Some brr \<Rightarrow> Inr (cb\<lparr>Resolved := True\<rparr> # cbs', brr # rs))))"

text \<open>One file: resolve its blocks, set its flag, and marshal when any block is resolved.\<close>

definition resolve_file ::
  "'doc externals \<Rightarrow> ProjectMeta \<Rightarrow> (string \<Rightarrow> ConflictBlock \<Rightarrow> check) \<Rightarrow> ConflictFile \<Rightarrow> 'doc world \<Rightarrow>
   handler_error + ConflictFile \<times> bool \<times> 'doc world" where
  "resolve_file ext meta resolve cf w =
     (case resolve_blocks (resolve (Filename cf)) (ConflictBlocks cf) of
        Inl e \<Rightarrow> Inl e
      | Inr (blocks, resolved) \<Rightarrow>
          let everResolved = list_ex Resolved blocks;
              allResolved = list_all Resolved blocks;
              cf' = cf\<lparr>ConflictBlocks := blocks, FileResolved := allResolved\<rparr>;
              relativePath = relative ext (Filename cf) (ProjectPath meta);
              dest = path_join (path_join (MSCacheDir meta) ''resolutions'') (pathToName relativePath)
          in if everResolved then
               (case marshalResolutionResult (accept ext) (of_json ext) (dump ext) (writable ext dest)
                       relativePath resolved (results w dest) of
                  None \<Rightarrow> Inl Json_exception
                | Some (doc, _) \<Rightarrow> Inr (cf', True, w\<lparr>results := (results w)(dest := doc)\<rparr>))
             else Inr (cf', False, w))"

fun resolve_files ::
  "'doc externals \<Rightarrow> ProjectMeta \<Rightarrow> (string \<Rightarrow> ConflictBlock \<Rightarrow> check) \<Rightarrow> ConflictFile list \<Rightarrow> 'doc world \<Rightarrow>
   handler_error + ConflictFile list \<times> bool \<times> 'doc world" where
  "resolve_files ext meta resolve [] w = Inr ([], False, w)"
| "resolve_files ext meta resolve (cf # cfs) w =
     (case resolve_file ext meta resolve cf w of
        Inl e \<Rightarrow> Inl e
      | Inr (cf', ever, w') \<Rightarrow>
          (case resolve_files ext meta resolve cfs w' of
             Inl e \<Rightarrow> Inl e
           | Inr (cfs', shrink, w'') \<Rightarrow> Inr (cf' # cfs', ever \<or> shrink, w'')))"

definition finish_files ::
  "handler_error + ConflictFile list \<times> bool \<times> 'doc world \<Rightarrow> handler_error + ConflictFile list \<times> 'doc world" where
  "finish_files r =
     (case r of
        Inl e \<Rightarrow> Inl e
      | Inr (cfs, needShrink, w) \<Rightarrow> Inr (if needShrink then tidyUpConflictFiles cfs else cfs, w))"

definition StyleBasedHandler_resolve ::
  "'doc externals \<Rightarrow> ProjectMeta \<Rightarrow> style_settings \<Rightarrow> ConflictFile list \<Rightarrow> 'doc world \<Rightarrow>
   handler_error + ConflictFile list \<times> 'doc world" where
  "StyleBasedHandler_resolve ext meta st cfs w =
     (if cfs = [] then Inl Assertion_failed
      else finish_files (resolve_files ext meta (style_resolve_block ext meta st (with_base cfs)) cfs w))"

text \<open>
  \<open>threeWayMerge\<close> of the text based handler: \<open>git merge-file\<close> for every file of which all three revisions exist, its
  output stored in the \<open>conflicts\<close> directory.
\<close>

definition merge_command :: "string \<Rightarrow> string \<Rightarrow> string \<Rightarrow> string" where
  "merge_command ours base theirs = ''git merge-file -p --diff3 '' @ ours @ '' '' @ base @ '' '' @ theirs"

fun threeWayMerge :: "'doc externals \<Rightarrow> ProjectMeta \<Rightarrow> ConflictFile list \<Rightarrow> 'doc world \<Rightarrow> 'doc world" where
  "threeWayMerge ext meta [] w = w"
| "threeWayMerge ext meta (cf # cfs) w =
     (let rel = relative ext (Filename cf) (ProjectPath meta);
          side = (\<lambda>s. path_join (path_join (MSCacheDir meta) (side_name s)) rel);
          ours = side OURS; base = side BASE; theirs = side THEIRS;
          dest = path_join (path_join (MSCacheDir meta) ''conflicts'') rel
      in if files w ours = None \<or> files w base = None \<or> files w theirs = None
         then threeWayMerge ext meta cfs w
         else case exec ext (merge_command ours base theirs) of
                Inl _ \<Rightarrow> threeWayMerge ext meta cfs w
              | Inr out \<Rightarrow>
                  threeWayMerge ext meta cfs
                    (if writable ext dest then w\<lparr>files := (files w)(dest \<mapsto> out)\<rparr> else w))"

definition TextBasedHandler_resolve ::
  "'doc externals \<Rightarrow> ProjectMeta \<Rightarrow> DeletionInfavor \<Rightarrow> ConflictFile list \<Rightarrow> 'doc world \<Rightarrow>
   handler_error + ConflictFile list \<times> 'doc world" where
  "TextBasedHandler_resolve ext meta favor cfs w =
     (if cfs = [] then Inl Assertion_failed
      else let w' = threeWayMerge ext meta cfs w
           in finish_files (resolve_files ext meta (text_resolve_block ext meta favor w' (with_base cfs)) cfs w'))"

subsection \<open>The identifiers of the sides\<close>

text \<open>\<open>scanLines\<close> of the AST based handler: the last identifiers up to the first closing marker that has one.\<close>

definition line_id :: "string \<Rightarrow> string \<Rightarrow> string \<Rightarrow> string" where
  "line_id mark line old =
     (let parts = string_split line '' '' False
      in if starts_with line mark \<and> 2 \<le> length parts then parts ! 1 else old)"

fun scan_lines :: "string list \<Rightarrow> string \<times> string \<times> string \<Rightarrow> string \<times> string \<times> string" where
  "scan_lines [] ids = ids"
| "scan_lines (line # ls) (ours, base, theirs) =
     (let ours' = line_id ''<<<<<<<'' line ours;
          base' = line_id ''|||||||'' line base;
          theirs' = line_id ''>>>>>>>'' line theirs
      in if starts_with line ''>>>>>>>'' \<and> 2 \<le> length (string_split line '' '' False)
         then (ours', base', theirs')
         else scan_lines ls (ours', base', theirs'))"

text \<open>\<open>extractSideIdentifiers\<close>: the regular files of the directory, \<^term>\<open>None\<close> for one that cannot be opened.\<close>

fun side_ids :: "string option list \<Rightarrow> nat \<Rightarrow> string \<times> string \<times> string \<Rightarrow> string \<times> string \<times> string" where
  "side_ids [] checked ids = ids"
| "side_ids (f # fs) checked ids =
     (if 5 \<le> checked then ids
      else let ids' = (case f of None \<Rightarrow> ids | Some txt \<Rightarrow> scan_lines (getlines NL [] txt) ids)
           in if fst ids' \<noteq> [] \<and> snd (snd ids') \<noteq> [] then ids' else side_ids fs (checked + 1) ids')"

definition extractSideIdentifiers :: "string option list \<Rightarrow> string \<times> string \<times> string" where
  "extractSideIdentifiers fs = side_ids fs 0 ([], [], [])"

subsection \<open>The chain\<close>

text \<open>
  A handler is its flag and its \<open>resolveConflictFiles\<close>. \<open>handle\<close> goes through the list the chain has linked; its outcome says
  which of the final messages was reached.
\<close>

record 'w handler =
  Skip :: bool
  resolveConflictFiles :: "ConflictFile list \<Rightarrow> 'w \<Rightarrow> handler_error + ConflictFile list \<times> 'w"

datatype outcome = Skipped | Reported_running_removed | Reported | All_resolved

fun handle :: "'w handler list \<Rightarrow> ConflictFile list \<Rightarrow> 'w \<Rightarrow> handler_error + ConflictFile list \<times> 'w \<times> outcome" where
  "handle [] cfs w = Inr (cfs, w, Skipped)"
| "handle (h # hs) cfs w =
     (if Skip h \<and> hs \<noteq> [] then Inr (cfs, w, Skipped)
      else if \<not> Skip h then
        (case resolveConflictFiles h cfs w of
           Inl e \<Rightarrow> Inl e
         | Inr (cfs', w') \<Rightarrow>
             if cfs' \<noteq> [] \<and> hs \<noteq> [] then handle hs cfs' w'
             else if cfs' \<noteq> [] \<and> hs = [] then Inr (cfs', w', Reported_running_removed)
             else Inr (cfs', w', All_resolved))
      else if cfs \<noteq> [] then Inr (cfs, w, Reported)
      else Inr (cfs, w, All_resolved))"

definition countConflictBlocks :: "ConflictFile list \<Rightarrow> nat" where
  "countConflictBlocks cfs = foldl (\<lambda>cnt cur. cnt + length (ConflictBlocks cur)) 0 cfs"

text \<open>
  \<open>HandlerChain::handle\<close>: an empty chain fails the assertion of \<open>chain\<close>; the result holds the
  two numbers of the line appended to the ratio file.
\<close>

definition chain_handle ::
  "'w handler list \<Rightarrow> ConflictFile list \<Rightarrow> 'w \<Rightarrow> handler_error + ConflictFile list \<times> 'w \<times> int \<times> int" where
  "chain_handle hs cfs w =
     (if hs = [] then Inl Assertion_failed
      else let cnt = countConflictBlocks cfs in
        if cnt \<noteq> 0 then
          (case handle hs cfs w of
             Inl e \<Rightarrow> Inl e
           | Inr (cfs', w', _) \<Rightarrow> Inr (cfs', w', int cnt, int cnt - int (countConflictBlocks cfs')))
        else Inr (cfs, w, int cnt, int cnt - int (countConflictBlocks cfs)))"

subsection \<open>Subsequences and parsed lists\<close>

lemma isSubSequence_subseq: "isSubSequence xs ys \<longleftrightarrow> subseq ys xs"
  by (induction xs ys rule: isSubSequence.induct) auto

lemma merge_lists_sound:
  assumes "merge_lists v1 v2 = (True, res)"
  shows "distinct res \<and> set res = set v1 \<union> set v2 \<and> subseq (dedup [] v1) res \<and> subseq (dedup [] v2) res"
proof -
  obtain ok r where "mergeVectors v1 v2 [] = Some (ok, r)" using mergeVectors_returns by blast
  with assms have "mergeVectors v1 v2 [] = Some (True, res)" by (simp add: merge_lists_def)
  then show ?thesis by (rule mergeVectors_merges)
qed

subsection \<open>The blocks of a list of files\<close>

definition all_blocks :: "ConflictFile list \<Rightarrow> (string \<times> ConflictBlock) list" where
  "all_blocks cfs = concat (map (\<lambda>cf. map (Pair (Filename cf)) (ConflictBlocks cf)) cfs)"

definition fresh :: "ConflictFile list \<Rightarrow> bool" where
  "fresh cfs \<longleftrightarrow> list_all (\<lambda>p. \<not> Resolved (snd p)) (all_blocks cfs)"

lemma all_blocks_simps [simp]:
  "all_blocks [] = []"
  "all_blocks (cf # cfs) = map (Pair (Filename cf)) (ConflictBlocks cf) @ all_blocks cfs"
  by (simp_all add: all_blocks_def)

lemma countConflictBlocks_length: "countConflictBlocks cfs = length (all_blocks cfs)"
proof -
  have "foldl (\<lambda>cnt cur. cnt + length (ConflictBlocks cur)) n cfs = n + length (all_blocks cfs)" for n
    by (induction cfs arbitrary: n) auto
  then show ?thesis by (simp add: countConflictBlocks_def)
qed

lemma tidy_all_blocks:
  "list_all (\<lambda>cf. FileResolved cf = list_all Resolved (ConflictBlocks cf)) cfs \<Longrightarrow>
   all_blocks (tidyUpConflictFiles cfs) = filter (\<lambda>p. \<not> Resolved (snd p)) (all_blocks cfs)"
proof (induction cfs)
  case Nil
  then show ?case by (simp add: tidyUpConflictFiles_filter)
next
  case (Cons cf cfs)
  have "list_all Resolved bs \<Longrightarrow> filter (\<lambda>cb. \<not> Resolved cb) bs = []" for bs :: "ConflictBlock list"
    by (simp add: list_all_iff)
  with Cons show ?case
    by (simp add: tidyUpConflictFiles_filter filter_map comp_def)
qed

subsection \<open>Resolving: which blocks remain\<close>

lemma resolve_blocks_unresolved:
  assumes "resolve_blocks r bs = Inr (bs', rs)" "list_all (\<lambda>cb. \<not> Resolved cb) bs"
  shows "filter (\<lambda>cb. \<not> Resolved cb) bs' = filter (\<lambda>cb. r cb = Inr None) bs"
    and "map Index bs' = map Index bs"
    and "\<And>cb brr. (\<And>cb brr. r cb = Inr (Some brr) \<Longrightarrow> index brr = Index cb) \<Longrightarrow>
           map index rs = map Index (filter Resolved bs')"
  using assms by (induction bs arbitrary: bs' rs) (auto split: sum.splits option.splits)

lemma resolve_file_left:
  assumes "resolve_file ext meta r cf w = Inr (cf', ever, w')" "list_all (\<lambda>cb. \<not> Resolved cb) (ConflictBlocks cf)"
  shows "Filename cf' = Filename cf"
    and "filter (\<lambda>cb. \<not> Resolved cb) (ConflictBlocks cf') = filter (\<lambda>cb. r (Filename cf) cb = Inr None) (ConflictBlocks cf)"
    and "FileResolved cf' = list_all Resolved (ConflictBlocks cf')"
    and "ever = list_ex Resolved (ConflictBlocks cf')"
  using assms by (auto simp: resolve_file_def Let_def resolve_blocks_unresolved split: sum.splits option.splits if_splits)

lemma resolve_files_left:
  "resolve_files ext meta r cfs w = Inr (cfs', shrink, w') \<Longrightarrow> fresh cfs \<Longrightarrow>
   filter (\<lambda>p. \<not> Resolved (snd p)) (all_blocks cfs') = filter (\<lambda>p. r (fst p) (snd p) = Inr None) (all_blocks cfs) \<and>
   list_all (\<lambda>cf. FileResolved cf = list_all Resolved (ConflictBlocks cf)) cfs' \<and>
   shrink = list_ex (\<lambda>p. Resolved (snd p)) (all_blocks cfs')"
proof (induction cfs arbitrary: w cfs' shrink w')
  case Nil
  then show ?case by simp
next
  case (Cons cf cfs)
  obtain cf' ever w1 where f: "resolve_file ext meta r cf w = Inr (cf', ever, w1)"
    using Cons.prems(1) by (cases "resolve_file ext meta r cf w") auto
  obtain cfs'' s w2 where fs: "resolve_files ext meta r cfs w1 = Inr (cfs'', s, w2)"
    using Cons.prems(1) f by (cases "resolve_files ext meta r cfs w1") auto
  have eq: "cfs' = cf' # cfs''" "shrink = (ever \<or> s)" using Cons.prems(1) f fs by auto
  have fr: "list_all (\<lambda>cb. \<not> Resolved cb) (ConflictBlocks cf)" "fresh cfs"
    using Cons.prems(2) by (simp_all add: fresh_def list.pred_map comp_def)
  note l = resolve_file_left [OF f fr(1)]
  have "filter (\<lambda>p. \<not> Resolved (snd p)) (map (Pair (Filename cf')) (ConflictBlocks cf')) =
        filter (\<lambda>p. r (fst p) (snd p) = Inr None) (map (Pair (Filename cf)) (ConflictBlocks cf))"
    using l(1,2) by (simp add: filter_map comp_def)
  moreover have "list_ex (\<lambda>p. Resolved (snd p)) (map (Pair (Filename cf')) (ConflictBlocks cf')) = ever"
    using l(4) by (simp add: list_ex_iff)
  ultimately show ?case using Cons.IH [OF fs fr(2)] eq l(3) by auto
qed

text \<open>What a handler leaves: exactly the blocks its checks do not resolve.\<close>

lemma finish_files_left:
  assumes "finish_files (resolve_files ext meta r cfs w) = Inr (cfs', w')" "fresh cfs"
  shows "all_blocks cfs' = filter (\<lambda>p. r (fst p) (snd p) = Inr None) (all_blocks cfs)" and "fresh cfs'"
proof -
  obtain cfs1 shrink where r: "resolve_files ext meta r cfs w = Inr (cfs1, shrink, w')"
    and c: "cfs' = (if shrink then tidyUpConflictFiles cfs1 else cfs1)"
    using assms(1) by (auto simp: finish_files_def split: sum.splits)
  note l = resolve_files_left [OF r assms(2)]
  have "all_blocks cfs' = filter (\<lambda>p. \<not> Resolved (snd p)) (all_blocks cfs1)"
  proof (cases shrink)
    case True
    then show ?thesis using c l tidy_all_blocks [of cfs1] by simp
  next
    case False
    then have "\<forall>p\<in>set (all_blocks cfs1). \<not> Resolved (snd p)"
      using l by (auto simp: list_ex_iff)
    then show ?thesis using c False by (auto simp: filter_id_conv)
  qed
  then show eq: "all_blocks cfs' = filter (\<lambda>p. r (fst p) (snd p) = Inr None) (all_blocks cfs)" using l by simp
  show "fresh cfs'"
    using assms(2) unfolding fresh_def eq by (auto simp: list_all_iff)
qed

subsection \<open>The contract of a handler\<close>

text \<open>A handler only removes blocks, keeps their order and leaves no resolved one behind.\<close>

locale conflict_handler =
  fixes resolve :: "ConflictFile list \<Rightarrow> 'w \<Rightarrow> handler_error + ConflictFile list \<times> 'w"
  assumes resolve_sub:
    "fresh cfs \<Longrightarrow> resolve cfs w = Inr (cfs', w') \<Longrightarrow> subseq (all_blocks cfs') (all_blocks cfs)"
    and resolve_fresh: "fresh cfs \<Longrightarrow> resolve cfs w = Inr (cfs', w') \<Longrightarrow> fresh cfs'"
begin

lemma resolve_count:
  "fresh cfs \<Longrightarrow> resolve cfs w = Inr (cfs', w') \<Longrightarrow> countConflictBlocks cfs' \<le> countConflictBlocks cfs"
  using resolve_sub by (auto simp: countConflictBlocks_length dest!: list_emb_length)

end

interpretation style: conflict_handler "StyleBasedHandler_resolve ext meta st"
  by unfold_locales
     (auto simp: StyleBasedHandler_resolve_def finish_files_left split: if_splits)

interpretation textual: conflict_handler "TextBasedHandler_resolve ext meta favor"
  by unfold_locales
     (auto simp: TextBasedHandler_resolve_def finish_files_left Let_def split: if_splits)

text \<open>The AST based handler writes its own files and leaves the conflict files as they are.\<close>

definition untouched :: "('w \<Rightarrow> 'w) \<Rightarrow> ConflictFile list \<Rightarrow> 'w \<Rightarrow> handler_error + ConflictFile list \<times> 'w" where
  "untouched f cfs w = (if cfs = [] then Inl Assertion_failed else Inr (cfs, f w))"

interpretation ast: conflict_handler "untouched f"
  by unfold_locales (auto simp: untouched_def split: if_splits)

lemma handle_contract:
  "list_all (\<lambda>h. conflict_handler (resolveConflictFiles h)) hs \<Longrightarrow> fresh cfs \<Longrightarrow>
   handle hs cfs w = Inr (cfs', w', out) \<Longrightarrow> subseq (all_blocks cfs') (all_blocks cfs) \<and> fresh cfs'"
proof (induction hs arbitrary: cfs w)
  case Nil
  then show ?case by simp
next
  case (Cons h hs)
  have c: "conflict_handler (resolveConflictFiles h)" using Cons.prems(1) by simp
  show ?case
  proof (cases "Skip h")
    case True
    with Cons.prems show ?thesis by (auto split: if_splits)
  next
    case False
    then obtain cfs1 w1 where r: "resolveConflictFiles h cfs w = Inr (cfs1, w1)"
      using Cons.prems(3) by (auto split: sum.splits)
    have s: "subseq (all_blocks cfs1) (all_blocks cfs)" "fresh cfs1"
      using conflict_handler.resolve_sub [OF c Cons.prems(2) r]
        conflict_handler.resolve_fresh [OF c Cons.prems(2) r] by auto
    show ?thesis
    proof (cases "cfs1 \<noteq> [] \<and> hs \<noteq> []")
      case True
      then have "handle hs cfs1 w1 = Inr (cfs', w', out)" using Cons.prems(3) False r by simp
      then show ?thesis using Cons.IH [of cfs1 w1] Cons.prems(1) s by (auto intro: subseq_order.order_trans)
    next
      case False
      then have "cfs' = cfs1" using Cons.prems(3) \<open>\<not> Skip h\<close> r by (auto split: if_splits)
      then show ?thesis using s by simp
    qed
  qed
qed

text \<open>Behind a skipped handler that has a successor no handler runs.\<close>

lemma handle_skip_rest:
  "Skip h \<Longrightarrow> hs2 \<noteq> [] \<Longrightarrow> hs3 \<noteq> [] \<Longrightarrow>
   handle (hs1 @ h # hs2) cfs w = handle (hs1 @ h # hs3) cfs w"
  by (induction hs1 arbitrary: cfs w) (auto split: sum.splits)

subsection \<open>What a check returns\<close>

lemma first_of_Some: "first_of c1 c2 = Inr (Some r) \<Longrightarrow> c1 = Inr (Some r) \<or> c2 = Inr (Some r)"
  by (auto simp: first_of_def split: sum.splits option.splits)

lemma resolve_with_Some [simp]:
  "resolve_with brr c d conf = Inr (Some r) \<longleftrightarrow> r = brr\<lparr>code := c, desc := d, confidence := conf\<rparr>"
  "resolve_with brr c d conf \<noteq> Inr None" "resolve_with brr c d conf \<noteq> Inl e"
  by (auto simp: resolve_with_def)

text \<open>The code of a result: a side, nothing, or a list merge of lists taken from the two sides.\<close>

definition sound_code :: "string \<Rightarrow> string \<Rightarrow> string \<Rightarrow> bool" where
  "sound_code our their c \<longleftrightarrow>
     c = [] \<or> c = our \<or> c = their \<or>
     (\<exists>l1 l2 res sep. merge_lists l1 l2 = (True, res) \<and> c = string_join res sep)"

lemma checkDeletion_sound:
  "checkDeletion ext meta favor w our their f brr = Inr (Some r) \<Longrightarrow>
   index r = index brr \<and> sound_code our their (code r)"
  by (auto simp: checkDeletion_def deletionOrModification_def sound_code_def
      split: if_splits option.splits sum.splits DeletionInfavor.splits)

lemma checkOneSideDelta_sound:
  "checkOneSideDelta ext meta w our their f brr = Inr (Some r) \<Longrightarrow>
   index r = index brr \<and> sound_code our their (code r)"
  by (auto simp: checkOneSideDelta_def sound_code_def split: if_splits option.splits sum.splits)

lemma checkInclusion_sound:
  "checkInclusion ext our their f brr = Inr (Some r) \<Longrightarrow>
   index r = index brr \<and> sound_code our their (code r)"
  by (auto simp: checkInclusion_def sound_code_def Let_def split: if_splits)

lemma doListMerge_sound:
  "doListMerge ext our their f brr = Inr (Some r) \<Longrightarrow>
   index r = index brr \<and> sound_code our their (code r)"
  by (auto simp: doListMerge_def sound_code_def Let_def split: if_splits prod.splits)

lemma text_resolve_block_sound:
  assumes "text_resolve_block ext meta favor w wb f cb = Inr (Some r)"
  obtains our their where "block_sides wb cb = Some (our, their)" "index r = Index cb" "sound_code our their (code r)"
proof -
  obtain our their where s: "block_sides wb cb = Some (our, their)"
    using assms by (auto simp: text_resolve_block_def split: option.splits)
  let ?b = "new_result (Index cb)"
  have "index r = index ?b \<and> sound_code our their (code r)"
    using assms s
    by (auto simp: text_resolve_block_def Let_def dest!: first_of_Some
        dest: checkDeletion_sound checkOneSideDelta_sound checkInclusion_sound doListMerge_sound)
  with s that show thesis by (simp add: new_result_def)
qed

lemma style_resolve_block_None:
  "style_resolve_block ext meta st wb f cb = Inr None \<longleftrightarrow>
     (\<exists>our their. block_sides wb cb = Some (our, their) \<and> deflate our \<noteq> deflate their)"
  by (auto simp: style_resolve_block_def Let_def split: option.splits)

lemma style_resolve_block_index:
  "style_resolve_block ext meta st wb f cb = Inr (Some r) \<Longrightarrow> index r = Index cb"
  by (auto simp: style_resolve_block_def Let_def new_result_def split: option.splits if_splits)

text \<open>Every resolved block of a file has a result with its index, in the order of the blocks.\<close>

lemma resolve_blocks_indices:
  assumes "resolve_blocks r bs = Inr (bs', rs)" "list_all (\<lambda>cb. \<not> Resolved cb) bs"
    and "\<And>cb brr. r cb = Inr (Some brr) \<Longrightarrow> index brr = Index cb"
  shows "map index rs = map Index (filter Resolved bs')"
  using resolve_blocks_unresolved(3) [OF assms(1,2)] assms(3) by blast

text \<open>Only the comment farthest from a definition is kept with it.\<close>

lemma attach_comments_last:
  "list_all is_comment cs \<Longrightarrow> rest = [] \<or> \<not> is_comment (hd rest) \<Longrightarrow>
   attach_comments txt (cs @ rest) d = (if cs = [] then d else node_text (last cs) @ [NL] @ txt)"
proof (induction cs arbitrary: d)
  case Nil
  then show ?case by (cases rest) auto
qed auto

lemma findRefFile_outside_cache:
  assumes "ProjectPath meta = p" "p \<noteq> []" "WhichSide st = ''ours''"
  shows "findRefFile meta st (p @ ''/'' @ f) = Some (''/'' @ f)"
proof -
  have "contains_str (p @ ''/'' @ f) p" by (simp add: contains_str_sublist)
  then show ?thesis using assms by (simp add: findRefFile_def path_join_def starts_with_def)
qed

lemma extractConflictBlock_marked:
  assumes "block_search i buf it cnt = Inr s"
  shows "s = [] \<or> starts_with s ''<<<<<<<'' \<and> ends_with s ''>>>>>>>''"
  using assms
proof (induction i buf it cnt rule: block_search.induct)
  case (1 i buf it cnt)
  show ?case
  proof (cases "search ''<<<<<<<'' (drop it buf)")
    case None
    then show ?thesis using "1.prems" by (simp add: block_search.simps)
  next
    case (Some k)
    show ?thesis
    proof (cases "search ''>>>>>>>'' (drop (it + k + 7) buf)")
      case None
      then show ?thesis using "1.prems" Some by (simp add: block_search.simps Let_def)
    next
      case (Some j)
      note S = \<open>search ''<<<<<<<'' (drop it buf) = Some k\<close> Some
      show ?thesis
      proof (cases "cnt + 1 = i")
        case False
        then show ?thesis using 1 S by (simp add: block_search.simps [of i buf it cnt] Let_def)
      next
        case True
        then have s: "s = substr buf (it + k) (7 + j + 7)"
          using "1.prems" S by (simp add: block_search.simps [of i buf it cnt] Let_def)
        have "s = ''<<<<<<<'' @ take j (drop (it + k + 7) buf) @ ''>>>>>>>''"
          using search_between [of "mark_name ConflictMark.OURS" it buf k "mark_name END" j] S s
          unfolding length_mark_name by (simp add: mark_name.simps)
        then show ?thesis by (simp add: starts_with_prefix ends_with_suffix suffix_def prefix_def)
      qed
    qed
  qed
qed

text \<open>Setting for the examples: no cache file exists, and the parser finds an expression.\<close>

definition demo_ext :: "FileResolutionResult externals" where
  "demo_ext = \<lparr>relative = (\<lambda>f p. drop (length p + 1) f),
     parse_children = (\<lambda>_. [\<lparr>symbol = ''expression_statement'', node_text = [], named = True\<rparr>]),
     exec = (\<lambda>_. Inl Timed_out), accept = (\<lambda>_. True), of_json = Some, dump = (\<lambda>r. r),
     writable = (\<lambda>_. True), formatter = (\<lambda>c _. c)\<rparr>"

definition demo_meta :: ProjectMeta where
  "demo_meta = \<lparr>Project = ''p'', ProjectPath = ''/p'', ProjectCacheDir = ''/c'',
     MS = mkMergeScenario ''aaaaaaaa'' ''bbbbbbbb'' ''cc'', CDBPath = [], MSCacheDir = ''/c/m''\<rparr>"

definition demo_block :: "int \<Rightarrow> string \<Rightarrow> string \<Rightarrow> ConflictBlock" where
  "demo_block i our their = \<lparr>Index = i, ConflictRange =
     mark_name ConflictMark.OURS @ [NL] @ our @ [NL] @ mark_name ConflictMark.THEIRS @ [NL] @
     their @ [NL] @ mark_name END @ [NL], Resolved = False\<rparr>"

definition demo_files :: "ConflictFile list" where
  "demo_files = [\<lparr>Filename = ''/p/a.cpp'',
     ConflictBlocks = [demo_block 1 ''f( x )'' ''f(x)'', demo_block 2 ''g'' ''h''], FileResolved = False\<rparr>]"

definition demo_same :: "ConflictFile list" where
  "demo_same = [\<lparr>Filename = ''/p/a.cpp'', ConflictBlocks = [demo_block 1 ''x'' ''x''], FileResolved = False\<rparr>]"

definition demo_world :: "FileResolutionResult world" where
  "demo_world = \<lparr>files = (\<lambda>_. None), results = (\<lambda>_. None)\<rparr>"

definition demo_style :: style_settings where
  "demo_style = \<lparr>NeedFormat = False, WhichSide = ''ours''\<rparr>"

lemmas demo_defs = demo_ext_def demo_meta_def demo_block_def demo_files_def demo_same_def demo_world_def demo_style_def

lemma resolve_single_block:
  assumes "r (Filename cf) cb = Inr (Some brr)" "ConflictBlocks cf = [cb]" "\<And>d. results w d = None"
  shows "\<exists>w'. finish_files (resolve_files ext meta r [cf] w) = Inr ([], w')"
  by (simp add: assms resolve_file_def marshalResolutionResult_def Let_def finish_files_def tidyUpConflictFiles_filter)

lemma demo_style_resolve:
  "\<exists>w. StyleBasedHandler_resolve demo_ext demo_meta demo_style demo_same demo_world = Inr ([], w)"
proof -
  have wb: "with_base demo_same = False" by code_simp
  have "block_sides False (demo_block 1 ''x'' ''x'') = Some (''x'' @ [NL], ''x'' @ [NL])" by code_simp
  then have "style_resolve_block demo_ext demo_meta demo_style False f (demo_block 1 ''x'' ''x'') =
      resolve_with (new_result 1) (''x'' @ [NL]) ''Merge conflict caused by formatting issues.'' 0" for f
    by (simp add: style_resolve_block_def demo_style_def) (simp add: demo_block_def)
  then have "\<exists>w. finish_files (resolve_files demo_ext demo_meta
      (style_resolve_block demo_ext demo_meta demo_style False) demo_same demo_world) = Inr ([], w)"
    unfolding demo_same_def by (intro resolve_single_block) (auto simp: demo_world_def)
  then show ?thesis by (simp add: StyleBasedHandler_resolve_def wb) (simp add: demo_same_def)
qed

subsection \<open>Properties\<close>

text \<open>
  C17: When the style based handler succeeds on unresolved blocks, exactly the blocks remain
  whose two sides differ after macro expansion and removal of comments and spaces.
\<close>

theorem style_handler_leaves:
  assumes "fresh cfs" and "StyleBasedHandler_resolve ext meta st cfs w = Inr (cfs', w')"
  shows "all_blocks cfs' =
    filter (\<lambda>p. case block_sides (with_base cfs) (snd p) of
                  None \<Rightarrow> False
                | Some (our, their) \<Rightarrow> deflate our \<noteq> deflate their) (all_blocks cfs)"
proof -
  have "all_blocks cfs' = filter (\<lambda>p. style_resolve_block ext meta st (with_base cfs) (fst p) (snd p) = Inr None) (all_blocks cfs)"
    using assms finish_files_left(1) by (auto simp: StyleBasedHandler_resolve_def split: if_splits)
  also have "\<dots> = filter (\<lambda>p. case block_sides (with_base cfs) (snd p) of
                  None \<Rightarrow> False
                | Some (our, their) \<Rightarrow> deflate our \<noteq> deflate their) (all_blocks cfs)"
    by (rule filter_cong) (auto simp: style_resolve_block_None split: option.splits)
  finally show ?thesis .
qed

theorem style_handler_leaves_witness:
  "\<exists>cfs' w'. StyleBasedHandler_resolve demo_ext demo_meta demo_style demo_same demo_world = Inr (cfs', w') \<and>
     all_blocks cfs' =
       filter (\<lambda>p. case block_sides (with_base demo_same) (snd p) of
                  None \<Rightarrow> False
                | Some (our, their) \<Rightarrow> deflate our \<noteq> deflate their) (all_blocks demo_same)"
proof -
  have fr: "fresh demo_same" by (simp add: fresh_def demo_defs)
  obtain w where w: "StyleBasedHandler_resolve demo_ext demo_meta demo_style demo_same demo_world = Inr ([], w)"
    using demo_style_resolve by blast
  with style_handler_leaves [OF fr w] show ?thesis by blast
qed

text \<open>
  C12: When the text based handler succeeds on unresolved blocks, exactly the blocks remain that
  none of its four checks resolves, in their order.
\<close>

theorem text_handler_leaves:
  assumes "fresh cfs" and "TextBasedHandler_resolve ext meta favor cfs w = Inr (cfs', w')"
  shows "all_blocks cfs' =
    filter (\<lambda>p. text_resolve_block ext meta favor (threeWayMerge ext meta cfs w) (with_base cfs) (fst p) (snd p) = Inr None)
      (all_blocks cfs)"
  using assms finish_files_left(1) by (auto simp: TextBasedHandler_resolve_def Let_def split: if_splits)

theorem text_handler_leaves_witness:
  "\<exists>cfs' w'. TextBasedHandler_resolve demo_ext demo_meta DELETION demo_files demo_world = Inr (cfs', w') \<and>
     all_blocks cfs' =
       filter (\<lambda>p. text_resolve_block demo_ext demo_meta DELETION (threeWayMerge demo_ext demo_meta demo_files demo_world)
                     (with_base demo_files) (fst p) (snd p) = Inr None) (all_blocks demo_files)"
proof -
  have fr: "fresh demo_files" by (simp add: fresh_def demo_defs)
  have "\<not> isl (TextBasedHandler_resolve demo_ext demo_meta DELETION demo_files demo_world)" by code_simp
  then obtain cfs' w' where "TextBasedHandler_resolve demo_ext demo_meta DELETION demo_files demo_world = Inr (cfs', w')"
    by (cases "TextBasedHandler_resolve demo_ext demo_meta DELETION demo_files demo_world") auto
  with text_handler_leaves [OF fr this] show ?thesis by blast
qed



text \<open>
  C1: The chain of the style, AST and text based handlers only removes conflict blocks, keeps
  the order of the others and leaves no resolved block; the two numbers it appends to the ratio
  file are the number of blocks before and the number removed, which is never negative.
\<close>

theorem chain_removes_blocks:
  assumes "fresh cfs"
    and "chain_handle
           [\<lparr>Skip = s1, resolveConflictFiles = StyleBasedHandler_resolve ext meta st\<rparr>,
            \<lparr>Skip = s2, resolveConflictFiles = untouched ast\<rparr>,
            \<lparr>Skip = s3, resolveConflictFiles = TextBasedHandler_resolve ext meta favor\<rparr>] cfs w
         = Inr (cfs', w', n, resolved)"
  shows "subseq (all_blocks cfs') (all_blocks cfs) \<and> fresh cfs' \<and>
    n = int (length (all_blocks cfs)) \<and>
    resolved = int (length (all_blocks cfs)) - int (length (all_blocks cfs')) \<and> 0 \<le> resolved"
proof -
  let ?hs = "[\<lparr>Skip = s1, resolveConflictFiles = StyleBasedHandler_resolve ext meta st\<rparr>,
            \<lparr>Skip = s2, resolveConflictFiles = untouched ast\<rparr>,
            \<lparr>Skip = s3, resolveConflictFiles = TextBasedHandler_resolve ext meta favor\<rparr>]"
  have ok: "list_all (\<lambda>h. conflict_handler (resolveConflictFiles h)) ?hs"
    by (simp add: style.conflict_handler_axioms textual.conflict_handler_axioms ast.conflict_handler_axioms)
  have "subseq (all_blocks cfs') (all_blocks cfs) \<and> fresh cfs' \<and>
    n = int (countConflictBlocks cfs) \<and>
    resolved = int (countConflictBlocks cfs) - int (countConflictBlocks cfs')"
  proof (cases "countConflictBlocks cfs = 0")
    case True
    with assms show ?thesis by (auto simp: chain_handle_def)
  next
    case False
    with assms(2) obtain out where "handle ?hs cfs w = Inr (cfs', w', out)"
      and "n = int (countConflictBlocks cfs)"
      and "resolved = int (countConflictBlocks cfs) - int (countConflictBlocks cfs')"
      by (auto simp: chain_handle_def Let_def simp del: handle.simps split: sum.splits)
    then show ?thesis using handle_contract [OF ok assms(1)] by blast
  qed
  then show ?thesis
    by (auto simp: countConflictBlocks_length dest: list_emb_length)
qed

theorem chain_removes_blocks_witness:
  "\<exists>cfs' w' b r. chain_handle
           [\<lparr>Skip = False, resolveConflictFiles = StyleBasedHandler_resolve demo_ext demo_meta demo_style\<rparr>,
            \<lparr>Skip = False, resolveConflictFiles = untouched id\<rparr>,
            \<lparr>Skip = False, resolveConflictFiles = TextBasedHandler_resolve demo_ext demo_meta DELETION\<rparr>]
           demo_same demo_world = Inr (cfs', w', b, r) \<and>
     subseq (all_blocks cfs') (all_blocks demo_same) \<and> 0 \<le> r"
proof -
  let ?c = "chain_handle
           [\<lparr>Skip = False, resolveConflictFiles = StyleBasedHandler_resolve demo_ext demo_meta demo_style\<rparr>,
            \<lparr>Skip = False, resolveConflictFiles = untouched id\<rparr>,
            \<lparr>Skip = False, resolveConflictFiles = TextBasedHandler_resolve demo_ext demo_meta DELETION\<rparr>]
           demo_same demo_world"
  have fr: "fresh demo_same" by (simp add: fresh_def demo_defs)
  obtain w where "StyleBasedHandler_resolve demo_ext demo_meta demo_style demo_same demo_world = Inr ([], w)"
    using demo_style_resolve by blast
  then have "\<exists>cfs' w' b r. ?c = Inr (cfs', w', b, r)"
    by (simp add: chain_handle_def Let_def)
  then obtain cfs' w' b r where c: "?c = Inr (cfs', w', b, r)" by blast
  from chain_removes_blocks [OF fr c] c show ?thesis by blast
qed

text \<open>
  \<open>handle\<close> on a skipped handler that has a successor logs the skip and does not call the
  successor: what the chain does is the same whatever handlers follow.
\<close>

theorem skip_cuts_chain:
  "Skip h \<Longrightarrow> hs2 \<noteq> [] \<Longrightarrow> hs3 \<noteq> [] \<Longrightarrow>
   handle (hs1 @ h # hs2) cfs w = handle (hs1 @ h # hs3) cfs w"
  by (rule handle_skip_rest)

theorem skip_cuts_chain_witness:
  "handle ([] @ \<lparr>Skip = True, resolveConflictFiles = untouched id\<rparr> #
       [\<lparr>Skip = False, resolveConflictFiles = StyleBasedHandler_resolve demo_ext demo_meta demo_style\<rparr>])
     demo_files demo_world =
   handle ([] @ \<lparr>Skip = True, resolveConflictFiles = untouched id\<rparr> #
       [\<lparr>Skip = False, resolveConflictFiles = TextBasedHandler_resolve demo_ext demo_meta DELETION\<rparr>])
     demo_files demo_world"
  by (rule skip_cuts_chain) simp_all

end
