(* ===== verification/Sha1.thy ===== *)
theory Sha1
  imports Prelude
begin

section \<open>The SHA-1 digest\<close>

text \<open>
  Models \<open>include/mergebot/utils/sha1.h\<close>, the header-only digest used for the names of cached
  revisions, and proves that it computes SHA-1 as FIPS 180 defines it: the unrolled
  rounds over a circular buffer of 16 words are the 80 rounds over the message schedule, and
  the buffered updates with their final padding digest the padded message block by block.
\<close>

record SHA1 =
  digest :: "u32 list"
  buffer :: string
  transforms :: u64

definition BLOCK_INTS :: nat where "BLOCK_INTS = 16"

definition BLOCK_BYTES :: nat where "BLOCK_BYTES = BLOCK_INTS * 4"

definition reset :: SHA1 where
  "reset = \<lparr>digest = [0x67452301, 0xefcdab89, 0x98badcfe, 0x10325476, 0xc3d2e1f0],
            buffer = [], transforms = 0\<rparr>"

definition rol :: "u32 \<Rightarrow> nat \<Rightarrow> u32" where
  "rol value bits = push_bit bits value OR drop_bit (32 - bits) value"

text \<open>\<open>i & 15\<close> on a position is the remainder modulo 16.\<close>

definition blk :: "u32 list \<Rightarrow> nat \<Rightarrow> u32" where
  "blk block i =
     rol (block ! ((i + 13) mod 16) XOR block ! ((i + 8) mod 16) XOR block ! ((i + 2) mod 16) XOR block ! i) 1"

subsection \<open>Rounds\<close>

text \<open>Each round updates the block and, by reference, its arguments \<open>w\<close> and \<open>z\<close>.\<close>

definition R0 :: "u32 list \<Rightarrow> u32 \<Rightarrow> u32 \<Rightarrow> u32 \<Rightarrow> u32 \<Rightarrow> u32 \<Rightarrow> nat \<Rightarrow> u32 list \<times> u32 \<times> u32" where
  "R0 block v w x y z i =
     (block, rol w 30, z + (((w AND (x XOR y)) XOR y) + block ! i + 0x5a827999 + rol v 5))"

definition R1 :: "u32 list \<Rightarrow> u32 \<Rightarrow> u32 \<Rightarrow> u32 \<Rightarrow> u32 \<Rightarrow> u32 \<Rightarrow> nat \<Rightarrow> u32 list \<times> u32 \<times> u32" where
  "R1 block v w x y z i =
     (let block = block[i := blk block i]
      in (block, rol w 30, z + (((w AND (x XOR y)) XOR y) + block ! i + 0x5a827999 + rol v 5)))"

definition R2 :: "u32 list \<Rightarrow> u32 \<Rightarrow> u32 \<Rightarrow> u32 \<Rightarrow> u32 \<Rightarrow> u32 \<Rightarrow> nat \<Rightarrow> u32 list \<times> u32 \<times> u32" where
  "R2 block v w x y z i =
     (let block = block[i := blk block i]
      in (block, rol w 30, z + ((w XOR x XOR y) + block ! i + 0x6ed9eba1 + rol v 5)))"

definition R3 :: "u32 list \<Rightarrow> u32 \<Rightarrow> u32 \<Rightarrow> u32 \<Rightarrow> u32 \<Rightarrow> u32 \<Rightarrow> nat \<Rightarrow> u32 list \<times> u32 \<times> u32" where
  "R3 block v w x y z i =
     (let block = block[i := blk block i]
      in (block, rol w 30, z + ((((w OR x) AND y) OR (w AND x)) + block ! i + 0x8f1bbcdc + rol v 5)))"

definition R4 :: "u32 list \<Rightarrow> u32 \<Rightarrow> u32 \<Rightarrow> u32 \<Rightarrow> u32 \<Rightarrow> u32 \<Rightarrow> nat \<Rightarrow> u32 list \<times> u32 \<times> u32" where
  "R4 block v w x y z i =
     (let block = block[i := blk block i]
      in (block, rol w 30, z + ((w XOR x XOR y) + block ! i + 0xca62c1d6 + rol v 5)))"

text \<open>The 80 calls of \<open>transform\<close>, unrolled as in the source.\<close>

definition rounds_unrolled :: "u32 list \<Rightarrow> u32 \<Rightarrow> u32 \<Rightarrow> u32 \<Rightarrow> u32 \<Rightarrow> u32 \<Rightarrow> u32 list \<times> u32 \<times> u32 \<times> u32 \<times> u32 \<times> u32" where
  "rounds_unrolled block a b c d e =
    (
     let (block, b, e) = R0 block a b c d e 0 in
     let (block, a, d) = R0 block e a b c d 1 in
     let (block, e, c) = R0 block d e a b c 2 in
     let (block, d, b) = R0 block c d e a b 3 in
     let (block, c, a) = R0 block b c d e a 4 in
     let (block, b, e) = R0 block a b c d e 5 in
     let (block, a, d) = R0 block e a b c d 6 in
     let (block, e, c) = R0 block d e a b c 7 in
     let (block, d, b) = R0 block c d e a b 8 in
     let (block, c, a) = R0 block b c d e a 9 in
     let (block, b, e) = R0 block a b c d e 10 in
     let (block, a, d) = R0 block e a b c d 11 in
     let (block, e, c) = R0 block d e a b c 12 in
     let (block, d, b) = R0 block c d e a b 13 in
     let (block, c, a) = R0 block b c d e a 14 in
     let (block, b, e) = R0 block a b c d e 15 in
     let (block, a, d) = R1 block e a b c d 0 in
     let (block, e, c) = R1 block d e a b c 1 in
     let (block, d, b) = R1 block c d e a b 2 in
     let (block, c, a) = R1 block b c d e a 3 in
     let (block, b, e) = R2 block a b c d e 4 in
     let (block, a, d) = R2 block e a b c d 5 in
     let (block, e, c) = R2 block d e a b c 6 in
     let (block, d, b) = R2 block c d e a b 7 in
     let (block, c, a) = R2 block b c d e a 8 in
     let (block, b, e) = R2 block a b c d e 9 in
     let (block, a, d) = R2 block e a b c d 10 in
     let (block, e, c) = R2 block d e a b c 11 in
     let (block, d, b) = R2 block c d e a b 12 in
     let (block, c, a) = R2 block b c d e a 13 in
     let (block, b, e) = R2 block a b c d e 14 in
     let (block, a, d) = R2 block e a b c d 15 in
     let (block, e, c) = R2 block d e a b c 0 in
     let (block, d, b) = R2 block c d e a b 1 in
     let (block, c, a) = R2 block b c d e a 2 in
     let (block, b, e) = R2 block a b c d e 3 in
     let (block, a, d) = R2 block e a b c d 4 in
     let (block, e, c) = R2 block d e a b c 5 in
     let (block, d, b) = R2 block c d e a b 6 in
     let (block, c, a) = R2 block b c d e a 7 in
     let (block, b, e) = R3 block a b c d e 8 in
     let (block, a, d) = R3 block e a b c d 9 in
     let (block, e, c) = R3 block d e a b c 10 in
     let (block, d, b) = R3 block c d e a b 11 in
     let (block, c, a) = R3 block b c d e a 12 in
     let (block, b, e) = R3 block a b c d e 13 in
     let (block, a, d) = R3 block e a b c d 14 in
     let (block, e, c) = R3 block d e a b c 15 in
     let (block, d, b) = R3 block c d e a b 0 in
     let (block, c, a) = R3 block b c d e a 1 in
     let (block, b, e) = R3 block a b c d e 2 in
     let (block, a, d) = R3 block e a b c d 3 in
     let (block, e, c) = R3 block d e a b c 4 in
     let (block, d, b) = R3 block c d e a b 5 in
     let (block, c, a) = R3 block b c d e a 6 in
     let (block, b, e) = R3 block a b c d e 7 in
     let (block, a, d) = R3 block e a b c d 8 in
     let (block, e, c) = R3 block d e a b c 9 in
     let (block, d, b) = R3 block c d e a b 10 in
     let (block, c, a) = R3 block b c d e a 11 in
     let (block, b, e) = R4 block a b c d e 12 in
     let (block, a, d) = R4 block e a b c d 13 in
     let (block, e, c) = R4 block d e a b c 14 in
     let (block, d, b) = R4 block c d e a b 15 in
     let (block, c, a) = R4 block b c d e a 0 in
     let (block, b, e) = R4 block a b c d e 1 in
     let (block, a, d) = R4 block e a b c d 2 in
     let (block, e, c) = R4 block d e a b c 3 in
     let (block, d, b) = R4 block c d e a b 4 in
     let (block, c, a) = R4 block b c d e a 5 in
     let (block, b, e) = R4 block a b c d e 6 in
     let (block, a, d) = R4 block e a b c d 7 in
     let (block, e, c) = R4 block d e a b c 8 in
     let (block, d, b) = R4 block c d e a b 9 in
     let (block, c, a) = R4 block b c d e a 10 in
     let (block, b, e) = R4 block a b c d e 11 in
     let (block, a, d) = R4 block e a b c d 12 in
     let (block, e, c) = R4 block d e a b c 13 in
     let (block, d, b) = R4 block c d e a b 14 in
     let (block, c, a) = R4 block b c d e a 15 in
     (block, a, b, c, d, e))"

definition transform :: "u32 list \<Rightarrow> u32 list \<Rightarrow> u64 \<Rightarrow> u32 list \<times> u32 list \<times> u64" where
  "transform dig block cnt =
     (let (block', a, b, c, d, e) = rounds_unrolled block (dig ! 0) (dig ! 1) (dig ! 2) (dig ! 3) (dig ! 4)
      in ([dig ! 0 + a, dig ! 1 + b, dig ! 2 + c, dig ! 3 + d, dig ! 4 + e], block', cnt + 1))"

subsection \<open>Buffering\<close>

definition byte_at :: "string \<Rightarrow> nat \<Rightarrow> u32" where
  "byte_at buf i = of_nat (code_of (buf ! i))"

definition buffer_to_block :: "string \<Rightarrow> u32 list" where
  "buffer_to_block buf =
     map (\<lambda>i. byte_at buf (4 * i + 3) OR push_bit 8 (byte_at buf (4 * i + 2)) OR
              push_bit 16 (byte_at buf (4 * i + 1)) OR push_bit 24 (byte_at buf (4 * i + 0)))
       [0..<BLOCK_INTS]"

text \<open>The stream is the text still to be read.\<close>

function update :: "SHA1 \<Rightarrow> string \<Rightarrow> SHA1" where
  "update st is =
     (let n = BLOCK_BYTES - length (buffer st);
          buf = buffer st @ take n is
      in if length buf \<noteq> BLOCK_BYTES then st\<lparr>buffer := buf\<rparr>
         else let (dig, _, cnt) = transform (digest st) (buffer_to_block buf) (transforms st)
              in update (st\<lparr>digest := dig, transforms := cnt, buffer := []\<rparr>) (drop n is))"
  by pat_completeness auto
termination
  by (relation "measure (\<lambda>(st, is). length is + length (buffer st))") (auto simp: BLOCK_BYTES_def BLOCK_INTS_def)

declare update.simps [simp del]

definition hex8 :: "u32 \<Rightarrow> string" where
  "hex8 w = map (\<lambda>k. ''0123456789abcdef'' ! unat (drop_bit (4 * k) w AND 15)) [7, 6, 5, 4, 3, 2, 1, 0]"

text \<open>\<open>final\<close> returns the text and the state it leaves behind.\<close>

definition final :: "SHA1 \<Rightarrow> string \<times> SHA1" where
  "final st =
     (let total_bits = (transforms st * of_nat BLOCK_BYTES + of_nat (length (buffer st))) * 8;
          buf1 = buffer st @ [CHR 0x80];
          orig_size = length buf1;
          buf2 = buf1 @ replicate (BLOCK_BYTES - length buf1) (CHR 0x00);
          block = buffer_to_block buf2;
          (dig1, block1, cnt1) =
            (if BLOCK_BYTES - 8 < orig_size
             then let (dig, block', cnt) = transform (digest st) block (transforms st)
                  in (dig, replicate 14 0 @ drop 14 block', cnt)
             else (digest st, block, transforms st));
          block2 = block1[BLOCK_INTS - 1 := ucast total_bits];
          block3 = block2[BLOCK_INTS - 2 := ucast (drop_bit 32 total_bits)];
          (dig2, _, _) = transform dig1 block3 cnt1
      in (concat (map hex8 dig2), reset))"

definition from_file :: "string \<Rightarrow> string" where
  "from_file content = fst (final (update reset content))"

subsection \<open>The reference\<close>

text \<open>FIPS 180: message schedule, round functions and constants, padding, and the digest of a message.\<close>

function W :: "u32 list \<Rightarrow> nat \<Rightarrow> u32" where
  "W M t = (if t < 16 then M ! t
            else rol (W M (t - 3) XOR W M (t - 8) XOR W M (t - 14) XOR W M (t - 16)) 1)"
  by pat_completeness auto
termination
  by (relation "measure snd") auto

declare W.simps [simp del]

definition fips_f :: "nat \<Rightarrow> u32 \<Rightarrow> u32 \<Rightarrow> u32 \<Rightarrow> u32" where
  "fips_f t x y z =
     (if t < 20 then (x AND y) XOR (NOT x AND z)
      else if t < 40 then x XOR y XOR z
      else if t < 60 then (x AND y) XOR (x AND z) XOR (y AND z)
      else x XOR y XOR z)"

definition fips_K :: "nat \<Rightarrow> u32" where
  "fips_K t = (if t < 20 then 0x5a827999 else if t < 40 then 0x6ed9eba1
               else if t < 60 then 0x8f1bbcdc else 0xca62c1d6)"

type_synonym work = "u32 \<times> u32 \<times> u32 \<times> u32 \<times> u32"

fun fips_round :: "u32 list \<Rightarrow> nat \<Rightarrow> work \<Rightarrow> work" where
  "fips_round M t (a, b, c, d, e) =
     (rol a 5 + fips_f t b c d + e + fips_K t + W M t, a, rol b 30, c, d)"

definition fips_block :: "u32 list \<Rightarrow> u32 list \<Rightarrow> u32 list" where
  "fips_block dig M =
     (case fold (fips_round M) [0..<80] (dig ! 0, dig ! 1, dig ! 2, dig ! 3, dig ! 4) of
        (a, b, c, d, e) \<Rightarrow> [dig ! 0 + a, dig ! 1 + b, dig ! 2 + c, dig ! 3 + d, dig ! 4 + e])"

subsection \<open>The unrolled rounds as a loop\<close>

text \<open>The operation of round \<open>t\<close>, at its place in the circular buffer.\<close>

definition R :: "nat \<Rightarrow> u32 list \<Rightarrow> u32 \<Rightarrow> u32 \<Rightarrow> u32 \<Rightarrow> u32 \<Rightarrow> u32 \<Rightarrow> u32 list \<times> u32 \<times> u32" where
  "R t block v w x y z =
     (if t < 16 then R0 block v w x y z (t mod 16)
      else if t < 20 then R1 block v w x y z (t mod 16)
      else if t < 40 then R2 block v w x y z (t mod 16)
      else if t < 60 then R3 block v w x y z (t mod 16)
      else R4 block v w x y z (t mod 16))"

fun run :: "nat list \<Rightarrow> u32 list \<Rightarrow> u32 \<Rightarrow> u32 \<Rightarrow> u32 \<Rightarrow> u32 \<Rightarrow> u32 \<Rightarrow> u32 list \<times> work" where
  "run [] block v w x y z = (block, v, w, x, y, z)"
| "run (t # ts) block v w x y z =
     (case R t block v w x y z of (block', w', z') \<Rightarrow> run ts block' z' v w' x y)"

lemma upt_80: "[0..<80] = [0,1,2,3,4,5,6,7,8,9,10,11,12,13,14,15,16,17,18,19,
  20,21,22,23,24,25,26,27,28,29,30,31,32,33,34,35,36,37,38,39,
  40,41,42,43,44,45,46,47,48,49,50,51,52,53,54,55,56,57,58,59,
  60,61,62,63,64,65,66,67,68,69,70,71,72,73,74,75,76,77,78,79]"
  by (simp add: upt_rec)

lemma rounds_run: "rounds_unrolled block a b c d e = run [0..<80] block a b c d e"
  unfolding rounds_unrolled_def upt_80 run.simps R_def
  by (simp cong del: prod.case_cong_weak add: Let_def)

subsection \<open>The circular buffer holds the message schedule\<close>

lemma choose_word: "((w AND (x XOR y)) XOR y) = (w AND x) XOR (NOT w AND (y :: u32))"
  by (rule bit_word_eqI) (auto simp: bit_simps)

lemma majority_word: "(((w OR x) AND y) OR (w AND x)) = (w AND x) XOR (w AND y) XOR (x AND (y :: u32))"
  by (rule bit_word_eqI) (auto simp: bit_simps)

definition sched :: "u32 list \<Rightarrow> nat \<Rightarrow> u32 list \<Rightarrow> bool" where
  "sched M t block \<longleftrightarrow> length block = 16 \<and>
     (\<forall>s. s < max 16 t \<and> max 16 t \<le> s + 16 \<longrightarrow> block ! (s mod 16) = W M s)"

lemma sched_nth: "sched M t block \<Longrightarrow> s < max 16 t \<Longrightarrow> max 16 t \<le> s + 16 \<Longrightarrow> block ! (s mod 16) = W M s"
  by (simp add: sched_def)

lemma sched_init: "length M = 16 \<Longrightarrow> sched M 0 M"
  by (simp add: sched_def W.simps)

lemma back_mod: "k \<le> 16 \<Longrightarrow> 16 \<le> t \<Longrightarrow> (t mod 16 + (16 - k)) mod 16 = (t - k) mod (16 :: nat)"
proof -
  assume k: "k \<le> 16" "16 \<le> t"
  have "(t mod 16 + (16 - k)) mod 16 = (t + (16 - k)) mod 16" by (simp add: mod_simps)
  also have "t + (16 - k) = (t - k) + 16" using k by simp
  finally show ?thesis by simp
qed

lemma sched_blk:
  assumes "sched M t block" "16 \<le> t"
  shows "blk block (t mod 16) = W M t"
proof -
  have *: "block ! ((t mod 16 + (16 - k)) mod 16) = W M (t - k)" if "k \<le> 16" "0 < k" for k
    using sched_nth [OF assms(1), of "t - k"] assms(2) that back_mod [of k t] by simp
  have "block ! ((t mod 16 + 13) mod 16) = W M (t - 3)" "block ! ((t mod 16 + 8) mod 16) = W M (t - 8)"
    "block ! ((t mod 16 + 2) mod 16) = W M (t - 14)" "block ! (t mod 16) = W M (t - 16)"
    using * [of 3] * [of 8] * [of 14] * [of 16] by simp_all
  then show ?thesis using assms(2) by (simp add: blk_def W.simps [of M t])
qed

lemma sched_keep: "sched M t block \<Longrightarrow> t < 16 \<Longrightarrow> sched M (Suc t) block"
  by (simp add: sched_def)

lemma sched_update:
  assumes "sched M t block" "16 \<le> t"
  shows "sched M (Suc t) (block[t mod 16 := W M t])"
  unfolding sched_def
proof (intro conjI allI impI)
  show "length (block[t mod 16 := W M t]) = 16" using assms(1) by (simp add: sched_def)
  fix s assume s: "s < max 16 (Suc t) \<and> max 16 (Suc t) \<le> s + 16"
  show "block[t mod 16 := W M t] ! (s mod 16) = W M s"
  proof (cases "s = t")
    case True
    then show ?thesis using assms(1) by (simp add: sched_def)
  next
    case False
    then have st: "s < t" "t < s + 16" using s assms(2) by auto
    have "s mod 16 \<noteq> t mod 16"
    proof
      assume "s mod 16 = t mod 16"
      then have "16 dvd t - s" using st by (metis less_imp_le mod_eq_dvd_iff_nat)
      with st show False by (auto dest: dvd_imp_le)
    qed
    then show ?thesis using sched_nth [OF assms(1), of s] st assms(2) by simp
  qed
qed

lemma R_round:
  assumes "sched M t block" "t < 80"
  obtains block' where "R t block v w x y z = (block', rol w 30, rol v 5 + fips_f t w x y + z + fips_K t + W M t)"
    "sched M (Suc t) block'"
proof (cases "t < 16")
  case True
  then have "block ! t = W M t" using sched_nth [OF assms(1), of t] by simp
  with True have "R t block v w x y z = (block, rol w 30, rol v 5 + fips_f t w x y + z + fips_K t + W M t)"
    by (simp add: R_def R0_def fips_f_def fips_K_def choose_word add_ac)
  with sched_keep [OF assms(1) True] show ?thesis by (rule that [rotated])
next
  case False
  then have 16: "16 \<le> t" by simp
  have len: "t mod 16 < length block" using assms(1) by (simp add: sched_def)
  note b = sched_blk [OF assms(1) 16]
  have "R t block v w x y z =
      (block[t mod 16 := W M t], rol w 30, rol v 5 + fips_f t w x y + z + fips_K t + W M t)"
    using False assms(2) len
    by (simp add: R_def R1_def R2_def R3_def R4_def b fips_f_def fips_K_def choose_word majority_word add_ac Let_def)
  with sched_update [OF assms(1) 16] show ?thesis by (rule that [rotated])
qed

lemma run_fips:
  "sched M t block \<Longrightarrow> t + n \<le> 80 \<Longrightarrow>
   \<exists>block'. run [t..<t + n] block v w x y z = (block', fold (fips_round M) [t..<t + n] (v, w, x, y, z)) \<and>
     sched M (t + n) block'"
proof (induction n arbitrary: t block v w x y z)
  case 0
  then show ?case by simp
next
  case (Suc n)
  obtain block' where r: "R t block v w x y z = (block', rol w 30, rol v 5 + fips_f t w x y + z + fips_K t + W M t)"
    "sched M (Suc t) block'"
    by (rule R_round [OF Suc.prems(1), of v w x y z]) (use Suc.prems(2) in simp)
  have "[t..<t + Suc n] = t # [Suc t..<Suc t + n]" by (simp add: upt_conv_Cons)
  then show ?case
    using Suc.IH [OF r(2), of "rol v 5 + fips_f t w x y + z + fips_K t + W M t" v "rol w 30" x y] Suc.prems r(1)
    by simp
qed

lemma transform_fips:
  assumes "length M = 16"
  obtains block where "transform dig M cnt = (fips_block dig M, block, cnt + 1)" "length block = 16"
proof -
  obtain block where "run [0..<80] M (dig ! 0) (dig ! 1) (dig ! 2) (dig ! 3) (dig ! 4) =
      (block, fold (fips_round M) [0..<80] (dig ! 0, dig ! 1, dig ! 2, dig ! 3, dig ! 4))" "sched M 80 block"
    using run_fips [OF sched_init [OF assms], of 80 "dig ! 0" "dig ! 1" "dig ! 2" "dig ! 3" "dig ! 4"] by auto
  then show ?thesis
    by (intro that) (auto simp: transform_def rounds_run fips_block_def sched_def split: prod.splits)
qed

subsection \<open>Bytes and words\<close>

definition word_at :: "string \<Rightarrow> nat \<Rightarrow> u32" where
  "word_at buf i = byte_at buf (4 * i + 3) OR push_bit 8 (byte_at buf (4 * i + 2)) OR
              push_bit 16 (byte_at buf (4 * i + 1)) OR push_bit 24 (byte_at buf (4 * i + 0))"

definition be32 :: "u32 \<Rightarrow> string" where
  "be32 w = map (\<lambda>k. char_of (unat (drop_bit (8 * k) w))) [3, 2, 1, 0]"

lemma length_be32 [simp]: "length (be32 w) = 4"
  by (simp add: be32_def)

lemma buffer_to_block_words: "buffer_to_block buf = map (word_at buf) [0..<16]"
  by (simp add: buffer_to_block_def word_at_def BLOCK_INTS_def)

lemma word_at_append1: "4 * i + 3 < length p \<Longrightarrow> word_at (p @ q) i = word_at p i"
  by (simp add: word_at_def byte_at_def nth_append)

lemma word_at_append2:
  assumes "length p = 4 * k" "k \<le> i"
  shows "word_at (p @ q) i = word_at q (i - k)"
proof -
  have "byte_at (p @ q) (4 * i + j) = byte_at q (4 * (i - k) + j)" for j
    using assms by (simp add: byte_at_def nth_append right_diff_distrib')
  then show ?thesis by (simp only: word_at_def)
qed

lemma byte_of_word: "(of_nat (unat w mod 256) :: u32) = take_bit 8 w"
proof (rule word_unat_eq_iff [THEN iffD2])
  have "unat (take_bit 8 w) = unat w mod 256"
    unfolding unsigned_take_bit_eq by (simp add: take_bit_eq_mod)
  then show "unat (of_nat (unat w mod 256) :: u32) = unat (take_bit 8 w)"
    by (simp add: unat_of_nat take_bit_eq_mod)
qed

lemma join_bytes:
  "take_bit 8 w OR push_bit 8 (take_bit 8 (drop_bit 8 w)) OR push_bit 16 (take_bit 8 (drop_bit 16 w)) OR
   push_bit 24 (take_bit 8 (drop_bit 24 w)) = (w :: u32)"
proof (rule bit_word_eqI)
  fix n assume "n < LENGTH(32)"
  then have "n < 8 \<or> 8 \<le> n \<and> n < 16 \<or> 16 \<le> n \<and> n < 24 \<or> 24 \<le> n \<and> n < 32" by auto
  then show "bit (take_bit 8 w OR push_bit 8 (take_bit 8 (drop_bit 8 w)) OR push_bit 16 (take_bit 8 (drop_bit 16 w)) OR
      push_bit 24 (take_bit 8 (drop_bit 24 w))) n = bit w n"
    by (elim disjE) (auto simp: bit_simps)
qed

lemma word_at_be32: "word_at (be32 w @ q) 0 = w"
  using join_bytes [of w] by (simp add: word_at_def byte_at_def be32_def of_char_of byte_of_word)

lemma block_with_length:
  assumes "length p = 56"
  shows "buffer_to_block (p @ be32 h @ be32 l) = map (word_at p) [0..<14] @ [h, l]"
proof -
  have "[0..<16] = [0..<14] @ [14, 15]" by (simp add: upt_rec)
  moreover have "map (word_at (p @ be32 h @ be32 l)) [0..<14] = map (word_at p) [0..<14]"
    using assms by (auto intro!: word_at_append1)
  moreover have "word_at (p @ be32 h @ be32 l) 14 = h"
    using word_at_append2 [of p 14 14 "be32 h @ be32 l"] assms by (simp add: word_at_be32)
  moreover have "word_at (p @ be32 h @ be32 l) 15 = l"
    using word_at_append2 [of "p @ be32 h" 15 15 "be32 l"] assms word_at_be32 [of l "[]"] by simp
  ultimately show ?thesis by (simp add: buffer_to_block_words)
qed

lemma block_first_words:
  assumes "length p = 56" "length q = 8"
  obtains u v where "buffer_to_block (p @ q) = map (word_at p) [0..<14] @ [u, v]"
proof -
  have "[0..<16] = [0..<14] @ [14, 15]" by (simp add: upt_rec)
  moreover have "map (word_at (p @ q)) [0..<14] = map (word_at p) [0..<14]"
    using assms by (auto intro!: word_at_append1)
  ultimately show ?thesis using that by (simp add: buffer_to_block_words)
qed

lemma word_at_zeros: "4 * i + 3 < n \<Longrightarrow> word_at (replicate n (CHR 0x00)) i = 0"
  by (simp add: word_at_def byte_at_def)

subsection \<open>Digesting a message\<close>

function digest_blocks :: "u32 list \<Rightarrow> string \<Rightarrow> u32 list" where
  "digest_blocks dig s =
     (if length s < 64 then dig
      else digest_blocks (fips_block dig (buffer_to_block (take 64 s))) (drop 64 s))"
  by pat_completeness auto
termination
  by (relation "measure (\<lambda>(dig, s). length s)") auto

declare digest_blocks.simps [simp del]

definition fips_pad :: "string \<Rightarrow> string" where
  "fips_pad msg =
     (let bits = of_nat (8 * length msg) :: u64
      in msg @ [CHR 0x80] @ replicate ((119 - length msg mod 64) mod 64) (CHR 0x00) @
         be32 (ucast (drop_bit 32 bits)) @ be32 (ucast bits))"

definition fips_sha1 :: "string \<Rightarrow> string" where
  "fips_sha1 msg = concat (map hex8 (digest_blocks (digest reset) (fips_pad msg)))"

lemma digest_blocks_short: "length s < 64 \<Longrightarrow> digest_blocks dig s = dig"
  by (simp add: digest_blocks.simps)

lemma digest_blocks_block:
  "length x = 64 \<Longrightarrow> digest_blocks dig (x @ s) = digest_blocks (fips_block dig (buffer_to_block x)) s"
  by (simp add: digest_blocks.simps [of dig])

definition rest :: "string \<Rightarrow> string" where
  "rest s = drop (64 * (length s div 64)) s"

lemma length_rest: "length (rest s) = length s mod 64"
  by (simp add: rest_def minus_mult_div_eq_mod)

lemma rest_short: "length s < 64 \<Longrightarrow> rest s = s"
  by (simp add: rest_def)

lemma rest_block: "length x = 64 \<Longrightarrow> rest (x @ s) = rest s"
  by (simp add: rest_def div_add_self1)

lemma digest_blocks_append: "digest_blocks dig (s @ t) = digest_blocks (digest_blocks dig s) (rest s @ t)"
proof (induction dig s rule: digest_blocks.induct)
  case (1 dig s)
  show ?case
  proof (cases "length s < 64")
    case True
    then show ?thesis by (simp add: digest_blocks_short rest_short)
  next
    case False
    have s: "s = take 64 s @ drop 64 s" "length (take 64 s) = 64" using False by simp_all
    have "digest_blocks dig (s @ t) = digest_blocks (fips_block dig (buffer_to_block (take 64 s))) (drop 64 s @ t)"
      using digest_blocks_block [OF s(2), of dig "drop 64 s @ t"] by (simp flip: append_assoc)
    also have "\<dots> = digest_blocks (digest_blocks (fips_block dig (buffer_to_block (take 64 s))) (drop 64 s)) (rest (drop 64 s) @ t)"
      using 1 [OF False] .
    also have "digest_blocks (fips_block dig (buffer_to_block (take 64 s))) (drop 64 s) = digest_blocks dig s"
      using False by (simp add: digest_blocks.simps [of dig s])
    also have "rest (drop 64 s) = rest s"
      using rest_block [OF s(2), of "drop 64 s"] by simp
    finally show ?thesis .
  qed
qed

lemma div_block: "(a + b) div 64 = a div 64 + (a mod 64 + b) div (64 :: nat)"
proof -
  have "a + b = (a mod 64 + b) + 64 * (a div 64)" by simp
  then show ?thesis by (metis add.commute div_mult_self2 zero_neq_numeral)
qed

lemma rest_append: "rest (rest s @ t) = rest (s @ t)"
proof -
  let ?k = "64 * (length s div 64)"
  have k: "?k \<le> length s" by simp
  then have d: "drop ?k (s @ t) = rest s @ t" by (simp add: rest_def)
  have "rest (rest s @ t) = drop (64 * ((length s mod 64 + length t) div 64)) (drop ?k (s @ t))"
    unfolding d by (simp add: rest_def [of "rest s @ t"] length_rest)
  also have "\<dots> = rest (s @ t)"
    by (simp add: rest_def [of "s @ t"] div_block [of "length s"] algebra_simps)
  finally show ?thesis .
qed

subsection \<open>The buffered state\<close>

lemmas block_size = BLOCK_BYTES_def BLOCK_INTS_def

lemma length_buffer_to_block [simp]: "length (buffer_to_block buf) = 16"
  by (simp add: buffer_to_block_words)

lemma update_block:
  assumes "length (buffer st) < 64" "length (buffer st @ x) = 64"
  shows "update st (x @ s) = update (st\<lparr>digest := fips_block (digest st) (buffer_to_block (buffer st @ x)),
           transforms := transforms st + 1, buffer := []\<rparr>) s"
proof -
  obtain block where t: "transform (digest st) (buffer_to_block (buffer st @ x)) (transforms st) =
      (fips_block (digest st) (buffer_to_block (buffer st @ x)), block, transforms st + 1)"
    by (rule transform_fips [OF length_buffer_to_block, of "digest st" "buffer st @ x" "transforms st"])
  have "64 - length (buffer st) = length x" using assms by simp
  with t assms(2) show ?thesis by (subst update.simps) (simp add: block_size)
qed

lemma update_state:
  assumes "length (buffer st) < 64"
  shows "update st s = st\<lparr>digest := digest_blocks (digest st) (buffer st @ s),
    transforms := transforms st + of_nat (length (buffer st @ s) div 64), buffer := rest (buffer st @ s)\<rparr>"
  using assms
proof (induction s arbitrary: st rule: length_induct)
  case (1 s)
  show ?case
  proof (cases "length (buffer st @ s) < 64")
    case True
    then have "update st s = st\<lparr>buffer := buffer st @ s\<rparr>"
      by (subst update.simps) (simp add: block_size)
    then show ?thesis using True by (simp add: digest_blocks_short rest_short)
  next
    case False
    define n where "n = 64 - length (buffer st)"
    let ?x = "take n s" and ?s = "drop n s"
    have n: "0 < n" "n \<le> length s" using "1.prems" False by (auto simp: n_def)
    have len: "length (buffer st @ ?x) = 64" using "1.prems" n by (simp add: n_def)
    let ?st = "st\<lparr>digest := fips_block (digest st) (buffer_to_block (buffer st @ ?x)),
           transforms := transforms st + 1, buffer := []\<rparr>"
    have "update st s = update ?st ?s" using update_block [OF "1.prems" len, of ?s] by simp
    also have "\<dots> = ?st\<lparr>digest := digest_blocks (digest ?st) ?s,
        transforms := transforms ?st + of_nat (length ?s div 64), buffer := rest ?s\<rparr>"
    proof -
      have "length ?s < length s" using n by simp
      with "1.IH" have "length (buffer ?st) < 64 \<longrightarrow> update ?st ?s = ?st\<lparr>digest := digest_blocks (digest ?st) (buffer ?st @ ?s),
        transforms := transforms ?st + of_nat (length (buffer ?st @ ?s) div 64), buffer := rest (buffer ?st @ ?s)\<rparr>"
        by blast
      then show ?thesis by simp
    qed
    finally have u: "update st s = ?st\<lparr>digest := digest_blocks (digest ?st) ?s,
        transforms := transforms ?st + of_nat (length ?s div 64), buffer := rest ?s\<rparr>" .
    have s: "buffer st @ s = (buffer st @ ?x) @ ?s" by simp
    have d: "digest_blocks (digest st) (buffer st @ s) = digest_blocks (digest ?st) ?s"
      unfolding s digest_blocks_block [OF len] by simp
    have r: "rest (buffer st @ s) = rest ?s" unfolding s rest_block [OF len] ..
    have "length (buffer st @ s) div 64 = Suc (length ?s div 64)"
      unfolding s length_append [of "buffer st @ ?x"] len by simp
    then have c: "(of_nat (length (buffer st @ s) div 64) :: u64) = 1 + of_nat (length ?s div 64)" by simp
    show ?thesis unfolding u d r c by simp
  qed
qed

lemma update_append:
  "length (buffer st) < 64 \<Longrightarrow> update (update st s) t = update st (s @ t)"
proof -
  assume b: "length (buffer st) < 64"
  have "length (rest (buffer st @ s)) < 64" by (simp add: length_rest)
  then show ?thesis
    using div_block [of "length (buffer st @ s)" "length t"]
    by (simp add: update_state b digest_blocks_append [of _ "buffer st @ s" t, simplified] rest_append [of "buffer st @ s" t, simplified]
        length_rest add.assoc)
qed

subsection \<open>The final padding\<close>

lemma final_one_block:
  assumes "length (buffer st) < 56" and L: "L = (transforms st * 64 + of_nat (length (buffer st))) * 8"
  shows "fst (final st) = concat (map hex8 (digest_blocks (digest st)
     (buffer st @ [CHR 0x80] @ replicate (55 - length (buffer st)) (CHR 0x00) @ be32 (ucast (drop_bit 32 L)) @ be32 (ucast L))))"
proof -
  let ?h = "ucast (drop_bit 32 L) :: u32" and ?l = "ucast L :: u32"
  define p where "p = buffer st @ [CHR 0x80] @ replicate (55 - length (buffer st)) (CHR 0x00)"
  have len: "length p = 56" using assms(1) by (simp add: p_def)
  have "replicate (63 - length (buffer st)) (CHR 0x00) =
      replicate (55 - length (buffer st)) (CHR 0x00) @ replicate 8 (CHR 0x00)"
    using assms(1) by (simp flip: replicate_add)
  then have q: "buffer st @ [CHR 0x80] @ replicate (63 - length (buffer st)) (CHR 0x00) = p @ replicate 8 (CHR 0x00)"
    by (simp add: p_def)
  obtain u v where b: "buffer_to_block (p @ replicate 8 (CHR 0x00)) = map (word_at p) [0..<14] @ [u, v]"
    by (rule block_first_words [OF len, of "replicate 8 (CHR 0x00)"]) simp
  let ?m = "buffer_to_block (p @ be32 ?h @ be32 ?l)"
  have m: "(map (word_at p) [0..<14] @ [u, v])[15 := ?l, 14 := ?h] = ?m"
    unfolding block_with_length [OF len] by (simp add: list_update_append)
  obtain block where t: "transform (digest st) ?m (transforms st) = (fips_block (digest st) ?m, block, transforms st + 1)"
    by (rule transform_fips [OF length_buffer_to_block])
  have L': "512 * transforms st + of_nat (length (buffer st)) * 8 = L" by (simp add: L)
  have "fst (final st) = concat (map hex8 (fips_block (digest st) ?m))"
    using assms(1) q b m t by (simp add: final_def block_size Let_def L')
  also have "fips_block (digest st) ?m = digest_blocks (digest st) (p @ be32 ?h @ be32 ?l)"
    using digest_blocks_block [of "p @ be32 ?h @ be32 ?l" "digest st" "[]"] len by (simp add: digest_blocks_short)
  finally show ?thesis by (simp add: p_def)
qed

lemma final_two_blocks:
  assumes "56 \<le> length (buffer st)" "length (buffer st) < 64"
    and L: "L = (transforms st * 64 + of_nat (length (buffer st))) * 8"
  shows "fst (final st) = concat (map hex8 (digest_blocks (digest st)
     (buffer st @ [CHR 0x80] @ replicate (119 - length (buffer st)) (CHR 0x00) @ be32 (ucast (drop_bit 32 L)) @ be32 (ucast L))))"
proof -
  let ?h = "ucast (drop_bit 32 L) :: u32" and ?l = "ucast L :: u32"
  define x where "x = buffer st @ [CHR 0x80] @ replicate (63 - length (buffer st)) (CHR 0x00)"
  define p :: string where "p = replicate 56 (CHR 0x00)"
  have len: "length x = 64" "length p = 56" using assms(2) by (simp_all add: x_def p_def)
  have "replicate (119 - length (buffer st)) (CHR 0x00) = replicate (63 - length (buffer st)) (CHR 0x00) @ p"
    using assms(2) by (simp add: p_def flip: replicate_add)
  then have w: "buffer st @ [CHR 0x80] @ replicate (119 - length (buffer st)) (CHR 0x00) @ be32 ?h @ be32 ?l =
      x @ p @ be32 ?h @ be32 ?l" by (simp add: x_def)
  obtain block where t: "transform (digest st) (buffer_to_block x) (transforms st) =
      (fips_block (digest st) (buffer_to_block x), block, transforms st + 1)" "length block = 16"
    by (rule transform_fips [OF length_buffer_to_block])
  obtain u v where uv: "drop 14 block = [u, v]"
  proof -
    have "length (drop 14 block) = 2" using t(2) by simp
    then have "\<exists>u v. drop 14 block = [u, v]" by (simp only: numeral_2_eq_2 length_Suc_conv length_0_conv) blast
    then show thesis using that by blast
  qed
  let ?m = "buffer_to_block (p @ be32 ?h @ be32 ?l)"
  have z: "map (word_at p) [0..<14] = replicate 14 0"
    by (rule nth_equalityI) (auto simp: p_def word_at_zeros)
  have m: "(replicate 14 0 @ [u, v])[15 := ?l, 14 := ?h] = ?m"
    unfolding block_with_length [OF len(2)] z by (simp add: list_update_append)
  obtain block' where t': "transform (fips_block (digest st) (buffer_to_block x)) ?m (transforms st + 1) =
      (fips_block (fips_block (digest st) (buffer_to_block x)) ?m, block', transforms st + 1 + 1)"
    by (rule transform_fips [OF length_buffer_to_block])
  have L': "512 * transforms st + of_nat (length (buffer st)) * 8 = L" by (simp add: L)
  have x': "buffer st @ CHR 0x80 # replicate (63 - length (buffer st)) (CHR 0x00) = x" by (simp add: x_def)
  have "fst (final st) = concat (map hex8 (fips_block (fips_block (digest st) (buffer_to_block x)) ?m))"
    using assms(1,2) t(1) uv m t' by (simp add: final_def block_size Let_def L' x')
  also have "fips_block (fips_block (digest st) (buffer_to_block x)) ?m =
      digest_blocks (digest st) (x @ p @ be32 ?h @ be32 ?l)"
    using digest_blocks_block [of "p @ be32 ?h @ be32 ?l" _ "[]"] len
    by (simp add: digest_blocks_short digest_blocks_block)
  finally show ?thesis unfolding w .
qed

lemma pad_zeros: "(119 - n mod 64) mod 64 = (if n mod 64 < 56 then 55 - n mod 64 else 119 - n mod (64 :: nat))"
proof -
  define r where "r = n mod 64"
  have "r < 64" by (simp add: r_def)
  then have "(119 - r) mod 64 = (if r < 56 then 55 - r else 119 - r)"
    using mod_add_self2 [of "55 - r" 64] by (cases "r < 56") (auto simp: Nat.add_diff_assoc2)
  then show ?thesis by (simp add: r_def)
qed

lemma sha1_is_fips: "from_file msg = fips_sha1 msg"
proof -
  let ?st = "update reset msg"
  have b0: "length (buffer reset) < 64" by (simp add: reset_def)
  have st: "digest ?st = digest_blocks (digest reset) msg" "buffer ?st = rest msg"
    "transforms ?st = of_nat (length msg div 64)"
    using update_state [OF b0, of msg] by (simp_all add: reset_def)
  define L :: u64 where "L = of_nat (8 * length msg)"
  have "(of_nat (length msg div 64) * 64 + of_nat (length msg mod 64)) * 8 = (of_nat ((length msg div 64 * 64 + length msg mod 64) * 8) :: u64)"
    by (simp only: of_nat_add of_nat_mult of_nat_numeral)
  also have "(length msg div 64 * 64 + length msg mod 64) * 8 = 8 * length msg" by simp
  finally have L: "L = (transforms ?st * 64 + of_nat (length (buffer ?st))) * 8"
    unfolding L_def st length_rest by (rule sym)
  note k = pad_zeros [of "length msg"]
  have pad: "fips_pad msg = msg @ [CHR 0x80] @ replicate ((119 - length msg mod 64) mod 64) (CHR 0x00) @
      be32 (ucast (drop_bit 32 L)) @ be32 (ucast L)"
    by (simp add: fips_pad_def L_def Let_def)
  have "fst (final ?st) = concat (map hex8 (digest_blocks (digest ?st)
      (rest msg @ [CHR 0x80] @ replicate ((119 - length msg mod 64) mod 64) (CHR 0x00) @
       be32 (ucast (drop_bit 32 L)) @ be32 (ucast L))))"
  proof (cases "length msg mod 64 < 56")
    case True
    then show ?thesis using final_one_block [OF _ L] k by (simp add: st length_rest)
  next
    case False
    then show ?thesis using final_two_blocks [OF _ _ L] k by (simp add: st length_rest)
  qed
  then show ?thesis
    by (simp add: from_file_def fips_sha1_def pad st flip: digest_blocks_append)
qed

lemma final_resets: "snd (final st) = reset"
  by (simp add: final_def Let_def split: prod.splits)

subsection \<open>Properties\<close>

text \<open>
  C14: The digest of a file is the SHA-1 digest of FIPS 180: the hexadecimal form of the
  compression of the padded message, block by block, with the 80 rounds over the message
  schedule, for every byte string.
\<close>

theorem from_file_is_sha1: "from_file msg = fips_sha1 msg"
  by (rule sha1_is_fips)

text \<open>
  Feeding a text in two parts gives the same state as feeding it at once, and after
  \<open>final\<close> the object is ready for a new message.
\<close>

theorem update_in_parts:
  "length (buffer st) < BLOCK_BYTES \<Longrightarrow>
   update (update st s) t = update st (s @ t) \<and> snd (final (update st (s @ t))) = reset"
  by (simp add: update_append final_resets block_size)

theorem update_in_parts_witness:
  "update (update reset ''ab'') ''c'' = update reset (''ab'' @ ''c'') \<and>
   snd (final (update reset (''ab'' @ ''c''))) = reset"
  by (rule update_in_parts) (simp add: reset_def block_size)

end
