(* ===== verification/SemanticNode.thy ===== *)
theory SemanticNode
  imports Conflict
begin

section \<open>Semantic nodes\<close>

text \<open>
  Models \<open>include/mergebot/core/model/SemanticNode.h\<close> and the node classes of
  \<open>include/mergebot/core/model/node\<close>. A class is a record of its own fields, extended along the
  inheritance; \<^typ>\<open>nat\<close> addresses stand for the shared pointers, and a store maps every address to its
  node, because the merger updates nodes that parents, children and matchings share. The values of \<open>std::hash\<close> are
  a parameter, one function for each type that is hashed.
\<close>

type_synonym ptr = nat

record hashers =
  hash_str :: "string \<Rightarrow> u64"
  hash_enum :: "nat \<Rightarrow> u64"
  hash_size :: "u64 \<Rightarrow> u64"
  hash_int :: "int \<Rightarrow> u64"

subsection \<open>The classes\<close>

record Composite =
  BeforeFirstChildEOL :: int

record TranslationUnit = Composite +
  IsHeader :: bool
  TraditionGuard :: bool
  HeaderGuard :: "string list"
  FrontDecls :: "string list"

record Namespace = Composite +
  IsInline :: bool
  NSComment :: string
  Anonymous :: bool
  ns_TUPath :: string

record LinkageSpec = Composite +
  ls_ParentSignatureHash :: u64

datatype TypeDeclKind = TD_Class | TD_Struct | TD_Union

record TypeDecl = Composite +
  TypeKind :: TypeDeclKind
  td_Attrs :: string
  IsFinal :: bool
  BaseClause :: string
  td_TemplateParameterList :: string
  td_References :: "string list"

record Enumeration = Composite +
  EnumKey :: string
  en_Attrs :: string
  EnumBase :: string
  en_Body :: string

record Terminal =
  Body :: string
  ParentSignatureHash :: u64
  SigUnchanged :: bool

record FieldDeclaration = Terminal +
  Declarator :: string
  IsFieldDecl :: bool
  fld_References :: "string list"

record FuncDef = Terminal +
  fd_TemplateParameterList :: string
  fd_Attrs :: string
  fd_BeforeFuncName :: string
  fd_ParameterList :: "string list"
  fd_AfterParameterList :: string
  fd_References :: "string list"
  fd_ParameterTypes :: "string list"

record FuncOperatorCast = Terminal +
  oc_TemplateParameterList :: string
  oc_Attrs :: string
  oc_BeforeFuncName :: string
  oc_ParameterList :: "string list"
  oc_AfterParameterList :: string
  oc_References :: "string list"

datatype DefinitionType = Defaulted | Deleted | Plain

fun def_code :: "DefinitionType \<Rightarrow> nat" where
  "def_code Defaulted = 0"
| "def_code Deleted = 1"
| "def_code Plain = 2"

record FuncSpecialMember = Terminal +
  DefType :: DefinitionType
  sm_TemplateParameterList :: string
  sm_Attrs :: string
  sm_BeforeFuncName :: string
  sm_ParameterList :: "string list"
  InitList :: "string list"
  sm_ParameterTypes :: "string list"
  sm_References :: "string list"

record Textual = Terminal +
  tx_TUPath :: string

record AccessSpecifierDecl = Terminal +
  AccessKind :: AccessSpecifierKind

datatype node_data =
    TranslationUnitNode TranslationUnit
  | NamespaceNode Namespace
  | LinkageSpecNode LinkageSpec
  | TypeDeclNode TypeDecl
  | EnumNode Enumeration
  | FieldDeclarationNode FieldDeclaration
  | FuncDefNode FuncDef
  | FuncOperatorCastNode FuncOperatorCast
  | FuncSpecialMemberNode FuncSpecialMember
  | OrphanCommentNode Terminal
  | TextualNode Textual
  | AccessSpecifierNode AccessSpecifierDecl

record SemanticNode =
  ID :: int
  NeedToMerge :: bool
  Kind :: NodeKind
  DisplayName :: string
  QualifiedName :: string
  OriginalSignature :: string
  Comment :: string
  StartPoint :: "(nat \<times> nat) option"
  USR :: string
  FollowingEOL :: int
  AccessSpecifier :: AccessSpecifierKind
  IsSynthetic :: bool
  Parent :: "ptr option"
  Children :: "ptr list"
  Data :: node_data

type_synonym store = "ptr \<Rightarrow> SemanticNode"

subsection \<open>Constructors\<close>

definition SemanticNode_ctor ::
    "int \<Rightarrow> bool \<Rightarrow> NodeKind \<Rightarrow> string \<Rightarrow> string \<Rightarrow> string \<Rightarrow> string \<Rightarrow> (nat \<times> nat) option \<Rightarrow> string \<Rightarrow> bool \<Rightarrow>
     node_data \<Rightarrow> SemanticNode" where
  "SemanticNode_ctor NodeId needToMerge kind displayName qualifiedName originalSignature comment point usr isSynthetic d =
     \<lparr>ID = NodeId, NeedToMerge = needToMerge, Kind = kind, DisplayName = displayName,
      QualifiedName = getFullQualifiedName qualifiedName displayName kind,
      OriginalSignature = originalSignature, Comment = comment, StartPoint = point, USR = usr,
      FollowingEOL = 0, AccessSpecifier = AS_None, IsSynthetic = isSynthetic,
      Parent = None, Children = [], Data = d\<rparr>"

text \<open>
  The terminal classes hand the body and the hash of the parent to \<open>TerminalNode\<close>; \<open>mk\<close> builds
  the object of the derived class from the terminal part.
\<close>

definition TerminalNode_ctor ::
    "int \<Rightarrow> bool \<Rightarrow> NodeKind \<Rightarrow> string \<Rightarrow> string \<Rightarrow> string \<Rightarrow> string \<Rightarrow> (nat \<times> nat) option \<Rightarrow> string \<Rightarrow>
     string \<Rightarrow> u64 \<Rightarrow> int \<Rightarrow> bool \<Rightarrow> (Terminal \<Rightarrow> node_data) \<Rightarrow> SemanticNode" where
  "TerminalNode_ctor NodeId needToMerge kind displayName qualifiedName originalSignature comment point usr
       body parentSignatureHash followingEOL isSynthetic mk =
     (SemanticNode_ctor NodeId needToMerge kind displayName qualifiedName originalSignature comment point usr isSynthetic
        (mk \<lparr>Body = body, ParentSignatureHash = parentSignatureHash, SigUnchanged = False\<rparr>))
     \<lparr>FollowingEOL := followingEOL\<rparr>"

text \<open>
  The constructor of \<open>AccessSpecifierNode\<close> leaves out one argument of \<open>TerminalNode\<close>, so its own
  \<open>IsSynthetic\<close> (1 or 0) goes into \<open>FollowingEOL\<close> and the default into \<open>IsSynthetic\<close>.
\<close>

definition AccessSpecifierNode_ctor :: "AccessSpecifierKind \<Rightarrow> NodeKind \<Rightarrow> bool \<Rightarrow> SemanticNode" where
  "AccessSpecifierNode_ctor accessKind kind isSynthetic =
     (TerminalNode_ctor (- 1) False kind [] [] [] [] None [] [] 0 (of_bool isSynthetic) False
        (\<lambda>t. AccessSpecifierNode (Terminal.extend t \<lparr>AccessKind = accessKind\<rparr>)))
     \<lparr>FollowingEOL := 0\<rparr>"

subsection \<open>Run-time classes\<close>

text \<open>\<open>classof\<close> decides by the kind that is stored in the node.\<close>

definition isa_SemanticNode :: "SemanticNode \<Rightarrow> bool" where
  "isa_SemanticNode n \<longleftrightarrow> NODE \<le> Kind n \<and> Kind n \<le> COUNT"

definition isa_Composite :: "SemanticNode \<Rightarrow> bool" where
  "isa_Composite n \<longleftrightarrow> COMPOSITE_NODE \<le> Kind n \<and> Kind n \<le> LAST_COMPOSITE_NODE"

definition isa_Terminal :: "SemanticNode \<Rightarrow> bool" where
  "isa_Terminal n \<longleftrightarrow> TERMINAL_NODE \<le> Kind n \<and> Kind n \<le> LAST_TERMINAL_NODE"

definition isa_TranslationUnit :: "SemanticNode \<Rightarrow> bool" where
  "isa_TranslationUnit n \<longleftrightarrow> Kind n = TRANSLATION_UNIT"

definition isa_Namespace :: "SemanticNode \<Rightarrow> bool" where
  "isa_Namespace n \<longleftrightarrow> Kind n = NAMESPACE"

definition isa_LinkageSpec :: "SemanticNode \<Rightarrow> bool" where
  "isa_LinkageSpec n \<longleftrightarrow> Kind n = LINKAGE_SPEC_LIST"

definition isa_TypeDecl :: "SemanticNode \<Rightarrow> bool" where
  "isa_TypeDecl n \<longleftrightarrow> Kind n = TYPE_NODE"

definition isa_Enum :: "SemanticNode \<Rightarrow> bool" where
  "isa_Enum n \<longleftrightarrow> Kind n = ENUM"

definition isa_FieldDeclaration :: "SemanticNode \<Rightarrow> bool" where
  "isa_FieldDeclaration n \<longleftrightarrow> Kind n = FIELD_DECLARATION"

definition isa_FuncDef :: "SemanticNode \<Rightarrow> bool" where
  "isa_FuncDef n \<longleftrightarrow> Kind n = FUNC_DEF"

definition isa_FuncOperatorCast :: "SemanticNode \<Rightarrow> bool" where
  "isa_FuncOperatorCast n \<longleftrightarrow> Kind n = FUNC_OPERATOR_CAST"

definition isa_FuncSpecialMember :: "SemanticNode \<Rightarrow> bool" where
  "isa_FuncSpecialMember n \<longleftrightarrow> Kind n = FUNC_SPECIAL_MEMBER"

definition isa_OrphanComment :: "SemanticNode \<Rightarrow> bool" where
  "isa_OrphanComment n \<longleftrightarrow> Kind n = ORPHAN_COMMENT"

definition isa_Textual :: "SemanticNode \<Rightarrow> bool" where
  "isa_Textual n \<longleftrightarrow> Kind n = TEXTUAL"

definition isa_AccessSpecifier :: "SemanticNode \<Rightarrow> bool" where
  "isa_AccessSpecifier n \<longleftrightarrow> Kind n = ACCESS_SPECIFIER"

text \<open>The kind the graph builder gives the objects of each class, and the nodes that have it.\<close>

fun class_kind :: "node_data \<Rightarrow> NodeKind" where
  "class_kind (TranslationUnitNode _) = TRANSLATION_UNIT"
| "class_kind (NamespaceNode _) = NAMESPACE"
| "class_kind (LinkageSpecNode _) = LINKAGE_SPEC_LIST"
| "class_kind (TypeDeclNode _) = TYPE_NODE"
| "class_kind (EnumNode _) = ENUM"
| "class_kind (FieldDeclarationNode _) = FIELD_DECLARATION"
| "class_kind (FuncDefNode _) = FUNC_DEF"
| "class_kind (FuncOperatorCastNode _) = FUNC_OPERATOR_CAST"
| "class_kind (FuncSpecialMemberNode _) = FUNC_SPECIAL_MEMBER"
| "class_kind (OrphanCommentNode _) = ORPHAN_COMMENT"
| "class_kind (TextualNode _) = TEXTUAL"
| "class_kind (AccessSpecifierNode _) = ACCESS_SPECIFIER"

definition wf_node :: "SemanticNode \<Rightarrow> bool" where
  "wf_node n \<longleftrightarrow> Kind n = class_kind (Data n)"

text \<open>\<open>llvm::cast\<close> and \<open>llvm::dyn_cast\<close>: the object as one of the class its kind names.\<close>

definition as_TranslationUnit :: "SemanticNode \<Rightarrow> TranslationUnit option" where
  "as_TranslationUnit n = (if isa_TranslationUnit n then (case Data n of TranslationUnitNode x \<Rightarrow> Some x | _ \<Rightarrow> None) else None)"

definition as_Namespace :: "SemanticNode \<Rightarrow> Namespace option" where
  "as_Namespace n = (if isa_Namespace n then (case Data n of NamespaceNode x \<Rightarrow> Some x | _ \<Rightarrow> None) else None)"

definition as_LinkageSpec :: "SemanticNode \<Rightarrow> LinkageSpec option" where
  "as_LinkageSpec n = (if isa_LinkageSpec n then (case Data n of LinkageSpecNode x \<Rightarrow> Some x | _ \<Rightarrow> None) else None)"

definition as_TypeDecl :: "SemanticNode \<Rightarrow> TypeDecl option" where
  "as_TypeDecl n = (if isa_TypeDecl n then (case Data n of TypeDeclNode x \<Rightarrow> Some x | _ \<Rightarrow> None) else None)"

definition as_Enum :: "SemanticNode \<Rightarrow> Enumeration option" where
  "as_Enum n = (if isa_Enum n then (case Data n of EnumNode x \<Rightarrow> Some x | _ \<Rightarrow> None) else None)"

definition as_FieldDeclaration :: "SemanticNode \<Rightarrow> FieldDeclaration option" where
  "as_FieldDeclaration n = (if isa_FieldDeclaration n then (case Data n of FieldDeclarationNode x \<Rightarrow> Some x | _ \<Rightarrow> None) else None)"

definition as_FuncDef :: "SemanticNode \<Rightarrow> FuncDef option" where
  "as_FuncDef n = (if isa_FuncDef n then (case Data n of FuncDefNode x \<Rightarrow> Some x | _ \<Rightarrow> None) else None)"

definition as_FuncOperatorCast :: "SemanticNode \<Rightarrow> FuncOperatorCast option" where
  "as_FuncOperatorCast n = (if isa_FuncOperatorCast n then (case Data n of FuncOperatorCastNode x \<Rightarrow> Some x | _ \<Rightarrow> None) else None)"

definition as_FuncSpecialMember :: "SemanticNode \<Rightarrow> FuncSpecialMember option" where
  "as_FuncSpecialMember n = (if isa_FuncSpecialMember n then (case Data n of FuncSpecialMemberNode x \<Rightarrow> Some x | _ \<Rightarrow> None) else None)"

definition as_Textual :: "SemanticNode \<Rightarrow> Textual option" where
  "as_Textual n = (if isa_Textual n then (case Data n of TextualNode x \<Rightarrow> Some x | _ \<Rightarrow> None) else None)"

text \<open>The terminal part of an object of a terminal class.\<close>

fun terminal_of :: "node_data \<Rightarrow> Terminal option" where
  "terminal_of (FieldDeclarationNode x) = Some (Terminal.truncate x)"
| "terminal_of (FuncDefNode x) = Some (Terminal.truncate x)"
| "terminal_of (FuncOperatorCastNode x) = Some (Terminal.truncate x)"
| "terminal_of (FuncSpecialMemberNode x) = Some (Terminal.truncate x)"
| "terminal_of (OrphanCommentNode x) = Some x"
| "terminal_of (TextualNode x) = Some (Terminal.truncate x)"
| "terminal_of (AccessSpecifierNode x) = Some (Terminal.truncate x)"
| "terminal_of _ = None"

definition body_of :: "SemanticNode \<Rightarrow> string" where
  "body_of n = (case terminal_of (Data n) of Some t \<Rightarrow> Body t | None \<Rightarrow> [])"

subsection \<open>Signatures\<close>

definition hash_kind :: "hashers \<Rightarrow> SemanticNode \<Rightarrow> u64" where
  "hash_kind H n = hash_combine 1 (hash_enum H (kind_code (Kind n)))"

definition CompositeNode_hash :: "hashers \<Rightarrow> SemanticNode \<Rightarrow> u64" where
  "CompositeNode_hash H n =
     (if USR n \<noteq> [] then hash_combine (hash_kind H n) (hash_str H (USR n))
      else hash_combine (hash_kind H n) (hash_str H (QualifiedName n)))"

definition TranslationUnitNode_hash :: "hashers \<Rightarrow> SemanticNode \<Rightarrow> u64" where
  "TranslationUnitNode_hash H n = hash_combine (hash_kind H n) (hash_str H (QualifiedName n))"

definition NamespaceNode_hash :: "hashers \<Rightarrow> SemanticNode \<Rightarrow> Namespace \<Rightarrow> u64" where
  "NamespaceNode_hash H n x =
     (let h = hash_combine (hash_combine (hash_kind H n) (hash_str H (ns_TUPath x))) (hash_str H (QualifiedName n))
      in if Anonymous x then hash_combine h (hash_int H (ID n)) else h)"

definition LinkageSpecNode_hash :: "hashers \<Rightarrow> SemanticNode \<Rightarrow> LinkageSpec \<Rightarrow> u64" where
  "LinkageSpecNode_hash H n x =
     hash_combine (hash_combine (hash_kind H n) (hash_size H (ls_ParentSignatureHash x))) (hash_str H (QualifiedName n))"

definition TerminalNode_hash :: "hashers \<Rightarrow> SemanticNode \<Rightarrow> Terminal \<Rightarrow> u64" where
  "TerminalNode_hash H n x = hash_combine (hash_kind H n) (hash_str H (Body x))"

definition TextualNode_hash :: "hashers \<Rightarrow> Textual \<Rightarrow> u64" where
  "TextualNode_hash H x = hash_combine 1 (hash_str H (Body x))"

definition FieldDeclarationNode_hash :: "hashers \<Rightarrow> SemanticNode \<Rightarrow> FieldDeclaration \<Rightarrow> u64" where
  "FieldDeclarationNode_hash H n x =
     (if USR n \<noteq> [] then hash_combine (hash_kind H n) (hash_str H (USR n))
      else if IsFieldDecl x \<and> QualifiedName n \<noteq> [] then hash_combine (hash_kind H n) (hash_str H (QualifiedName n))
      else hash_combine (hash_kind H n) (hash_str H (Body x)))"

definition without_spaces :: "string \<Rightarrow> string" where
  "without_spaces s = filter (\<lambda>c. \<not> isspace c) s"

definition FuncDefNode_hash :: "hashers \<Rightarrow> SemanticNode \<Rightarrow> FuncDef \<Rightarrow> u64" where
  "FuncDefNode_hash H n x =
     (if USR n \<noteq> [] then hash_combine (hash_kind H n) (hash_str H (USR n))
      else hash_combine
             (hash_combine
               (hash_combine (hash_kind H n) (hash_str H (QualifiedName n)))
               (hash_size H (VectorHash (hash_str H) (fd_ParameterTypes x))))
             (hash_str H (without_spaces (fd_AfterParameterList x))))"

definition FuncOperatorCastNode_hash :: "hashers \<Rightarrow> SemanticNode \<Rightarrow> FuncOperatorCast \<Rightarrow> u64" where
  "FuncOperatorCastNode_hash H n x =
     (if USR n \<noteq> [] then hash_combine (hash_kind H n) (hash_str H (USR n))
      else hash_combine
             (hash_combine (hash_kind H n) (hash_str H (QualifiedName n)))
             (hash_str H (without_spaces (oc_AfterParameterList x))))"

definition FuncSpecialMemberNode_hash :: "hashers \<Rightarrow> SemanticNode \<Rightarrow> FuncSpecialMember \<Rightarrow> u64" where
  "FuncSpecialMemberNode_hash H n x =
     (if USR n \<noteq> [] then hash_combine (hash_kind H n) (hash_str H (USR n))
      else hash_combine
             (hash_combine
               (hash_combine (hash_kind H n) (hash_str H (QualifiedName n)))
               (hash_size H (VectorHash (hash_str H) (sm_ParameterTypes x))))
             (hash_enum H (def_code (DefType x))))"

text \<open>The virtual call dispatches on the class of the object.\<close>

definition hashSignature :: "hashers \<Rightarrow> SemanticNode \<Rightarrow> u64" where
  "hashSignature H n =
     (case Data n of
        TranslationUnitNode x \<Rightarrow> TranslationUnitNode_hash H n
      | NamespaceNode x \<Rightarrow> NamespaceNode_hash H n x
      | LinkageSpecNode x \<Rightarrow> LinkageSpecNode_hash H n x
      | TypeDeclNode x \<Rightarrow> CompositeNode_hash H n
      | EnumNode x \<Rightarrow> CompositeNode_hash H n
      | FieldDeclarationNode x \<Rightarrow> FieldDeclarationNode_hash H n x
      | FuncDefNode x \<Rightarrow> FuncDefNode_hash H n x
      | FuncOperatorCastNode x \<Rightarrow> FuncOperatorCastNode_hash H n x
      | FuncSpecialMemberNode x \<Rightarrow> FuncSpecialMemberNode_hash H n x
      | OrphanCommentNode x \<Rightarrow> TerminalNode_hash H n x
      | TextualNode x \<Rightarrow> TextualNode_hash H x
      | AccessSpecifierNode x \<Rightarrow> TerminalNode_hash H n (Terminal.truncate x))"

definition node_eq :: "hashers \<Rightarrow> SemanticNode \<Rightarrow> SemanticNode \<Rightarrow> bool" where
  "node_eq H lhs rhs \<longleftrightarrow> hashSignature H lhs = hashSignature H rhs"

subsection \<open>Neighbours\<close>

text \<open>
  The loop over the children of the parent: the node before, whether the node was found, and the
  name before it. It stops at the child after the one that was found.
\<close>

fun neighbor_loop :: "hashers \<Rightarrow> store \<Rightarrow> u64 \<Rightarrow> ptr list \<Rightarrow> ptr option \<Rightarrow> bool \<Rightarrow> string \<Rightarrow> string list" where
  "neighbor_loop H st h [] prev found prevName = [prevName, []]"
| "neighbor_loop H st h (c # cs) prev found prevName =
     (if found then [prevName, QualifiedName (st c)]
      else if hashSignature H (st c) = h
           then neighbor_loop H st h cs (Some c) True
                  (case prev of Some p \<Rightarrow> QualifiedName (st p) | None \<Rightarrow> prevName)
           else neighbor_loop H st h cs (Some c) False prevName)"

definition getNearestNeighborNames :: "hashers \<Rightarrow> store \<Rightarrow> SemanticNode \<Rightarrow> string list" where
  "getNearestNeighborNames H st n =
     (case Parent n of
        Some p \<Rightarrow> neighbor_loop H st (hashSignature H n) (Children (st p)) None False []
      | None \<Rightarrow> [[], []])"

subsection \<open>Access specifiers of members\<close>

definition access_kind_of :: "SemanticNode \<Rightarrow> AccessSpecifierKind option" where
  "access_kind_of n =
     (if isa_AccessSpecifier n
      then (case Data n of AccessSpecifierNode x \<Rightarrow> Some (AccessKind x) | _ \<Rightarrow> None) else None)"

fun access_loop :: "store \<Rightarrow> AccessSpecifierKind \<Rightarrow> ptr list \<Rightarrow> store" where
  "access_loop st k [] = st"
| "access_loop st k (c # cs) =
     (case access_kind_of (st c) of
        None \<Rightarrow> access_loop (st(c := (st c)\<lparr>AccessSpecifier := k\<rparr>)) k cs
      | Some k' \<Rightarrow> access_loop st k' cs)"

definition setMemberAccessSpecifier :: "store \<Rightarrow> ptr \<Rightarrow> store" where
  "setMemberAccessSpecifier st p =
     (case Children (st p) of
        [] \<Rightarrow> st
      | c # cs \<Rightarrow> access_loop st (case access_kind_of (st c) of Some k \<Rightarrow> k | None \<Rightarrow> AS_Default) cs)"

subsection \<open>Facts about signatures\<close>

lemmas isa_defs =
  isa_SemanticNode_def isa_Composite_def isa_Terminal_def isa_TranslationUnit_def isa_Namespace_def
  isa_LinkageSpec_def isa_TypeDecl_def isa_Enum_def isa_FieldDeclaration_def isa_FuncDef_def
  isa_FuncOperatorCast_def isa_FuncSpecialMember_def isa_OrphanComment_def isa_Textual_def
  isa_AccessSpecifier_def

lemmas as_defs =
  as_TranslationUnit_def as_Namespace_def as_LinkageSpec_def as_TypeDecl_def as_Enum_def as_FieldDeclaration_def
  as_FuncDef_def as_FuncOperatorCast_def as_FuncSpecialMember_def as_Textual_def

lemmas hash_defs =
  hash_kind_def CompositeNode_hash_def TranslationUnitNode_hash_def NamespaceNode_hash_def
  LinkageSpecNode_hash_def TerminalNode_hash_def TextualNode_hash_def FieldDeclarationNode_hash_def
  FuncDefNode_hash_def FuncOperatorCastNode_hash_def FuncSpecialMemberNode_hash_def

lemma node_eq_equivalence:
  "node_eq H n n"
  "node_eq H a b \<Longrightarrow> node_eq H b a"
  "node_eq H a b \<Longrightarrow> node_eq H b c \<Longrightarrow> node_eq H a c"
  by (simp_all add: node_eq_def)

text \<open>A node of a well-formed graph is either a composite or a terminal one.\<close>

lemma wf_node_composite: "wf_node n \<Longrightarrow> isa_Composite n \<longleftrightarrow> terminal_of (Data n) = None"
  by (cases "Data n") (simp_all add: wf_node_def isa_Composite_def less_eq_NodeKind_def)

lemma wf_node_terminal: "wf_node n \<Longrightarrow> isa_Terminal n \<longleftrightarrow> terminal_of (Data n) \<noteq> None"
  by (cases "Data n") (simp_all add: wf_node_def isa_Terminal_def less_eq_NodeKind_def)

text \<open>The classes whose signature is the USR when there is one.\<close>

definition by_USR :: "SemanticNode \<Rightarrow> bool" where
  "by_USR n \<longleftrightarrow> USR n \<noteq> [] \<and>
     class_kind (Data n) \<in> {TYPE_NODE, ENUM, FIELD_DECLARATION, FUNC_DEF, FUNC_OPERATOR_CAST, FUNC_SPECIAL_MEMBER}"

lemma hash_by_USR: "by_USR n \<Longrightarrow> hashSignature H n = hash_combine (hash_kind H n) (hash_str H (USR n))"
  by (cases "Data n") (simp_all add: by_USR_def hashSignature_def hash_defs)

lemma hash_same_USR:
  assumes "by_USR n" and "by_USR n'" and "Kind n = Kind n'" and "USR n = USR n'"
  shows "hashSignature H n = hashSignature H n'"
  using assms by (simp add: hash_by_USR hash_kind_def)

text \<open>The constructor of access specifiers loses the flag it is given.\<close>

lemma AccessSpecifierNode_not_synthetic: "\<not> IsSynthetic (AccessSpecifierNode_ctor k kind b)"
  by (simp add: AccessSpecifierNode_ctor_def TerminalNode_ctor_def SemanticNode_ctor_def)

lemma AccessSpecifierNode_kind [simp]:
  "access_kind_of (AccessSpecifierNode_ctor k ACCESS_SPECIFIER b) = Some k"
  by (simp add: AccessSpecifierNode_ctor_def TerminalNode_ctor_def SemanticNode_ctor_def access_kind_of_def
      isa_AccessSpecifier_def Terminal.defs)

subsection \<open>Facts about neighbours\<close>

lemma neighbor_loop_skip:
  assumes "\<forall>c \<in> set xs. hashSignature H (st c) \<noteq> h"
  shows "neighbor_loop H st h (xs @ cs) prev False name =
         neighbor_loop H st h cs (if xs = [] then prev else Some (last xs)) False name"
  using assms by (induction xs arbitrary: prev) auto

lemma neighbor_loop_found:
  assumes "\<forall>x \<in> set xs. hashSignature H (st x) \<noteq> h" and "hashSignature H (st c) = h"
  shows "neighbor_loop H st h (xs @ c # ys) None False [] =
         [if xs = [] then [] else QualifiedName (st (last xs)),
          if ys = [] then [] else QualifiedName (st (hd ys))]"
  unfolding neighbor_loop_skip [OF assms(1)]
  using assms(2) by (cases ys) simp_all

lemma neighbor_loop_absent:
  assumes "\<forall>c \<in> set cs. hashSignature H (st c) \<noteq> h"
  shows "neighbor_loop H st h cs None False [] = [[], []]"
  using neighbor_loop_skip [OF assms, of "[]"] by simp

lemma length_neighbor_loop [simp]: "length (neighbor_loop H st h cs prev found name) = 2"
  by (induction cs arbitrary: prev found name) (simp_all split: option.splits)

lemma length_getNearestNeighborNames [simp]: "length (getNearestNeighborNames H st n) = 2"
  by (simp add: getNearestNeighborNames_def split: option.splits)

lemma neighbors_of_child:
  assumes "Parent n = Some p" and "Children (st p) = xs @ c # ys"
    and "hashSignature H (st c) = hashSignature H n"
    and "\<forall>x \<in> set xs. hashSignature H (st x) \<noteq> hashSignature H n"
  shows "getNearestNeighborNames H st n =
         [if xs = [] then [] else QualifiedName (st (last xs)),
          if ys = [] then [] else QualifiedName (st (hd ys))]"
  using assms neighbor_loop_found [of xs H st "hashSignature H n" c ys]
  by (simp add: getNearestNeighborNames_def)

subsection \<open>Facts about access specifiers\<close>

text \<open>The section a member stands in: that of the last access specifier before it, if there is one.\<close>

fun section_of :: "store \<Rightarrow> ptr list \<Rightarrow> AccessSpecifierKind \<Rightarrow> AccessSpecifierKind" where
  "section_of st [] k = k"
| "section_of st (c # cs) k =
     section_of st cs (case access_kind_of (st c) of Some k' \<Rightarrow> k' | None \<Rightarrow> k)"

definition access_after :: "store \<Rightarrow> AccessSpecifierKind \<Rightarrow> ptr list \<Rightarrow> nat \<Rightarrow> AccessSpecifierKind" where
  "access_after st k cs i =
     (if access_kind_of (st (cs ! i)) = None then section_of st (take i cs) k else AccessSpecifier (st (cs ! i)))"

lemma access_kind_update [simp]: "access_kind_of (n\<lparr>AccessSpecifier := k\<rparr>) = access_kind_of n"
  by (simp add: access_kind_of_def isa_AccessSpecifier_def)

lemma section_of_cong:
  "(\<And>c. c \<in> set cs \<Longrightarrow> access_kind_of (st c) = access_kind_of (st' c)) \<Longrightarrow> section_of st cs k = section_of st' cs k"
  by (induction cs arbitrary: k) auto

lemma access_loop_other: "q \<notin> set cs \<Longrightarrow> access_loop st k cs q = st q"
  by (induction st k cs rule: access_loop.induct) (auto split: option.splits)

lemma access_loop_only_access:
  "(access_loop st k cs q)\<lparr>AccessSpecifier := a\<rparr> = (st q)\<lparr>AccessSpecifier := a\<rparr>"
  by (induction cs arbitrary: st k) (simp_all split: option.splits)

lemma access_loop_nth:
  assumes "distinct cs" and "i < length cs"
  shows "AccessSpecifier (access_loop st k cs (cs ! i)) = access_after st k cs i"
  using assms
proof (induction cs arbitrary: st k i)
  case (Cons c cs)
  show ?case
  proof (cases i)
    case 0
    with Cons.prems(1) show ?thesis
      by (auto simp: access_after_def access_loop_other split: option.splits)
  next
    case (Suc j)
    with Cons.prems have j: "distinct cs" "j < length cs" "cs ! j \<noteq> c" by auto
    have step: "access_after st' k' cs j = access_after st k (c # cs) i"
      if "st' = st \<and> access_kind_of (st c) = Some k' \<or>
          st' = st(c := (st c)\<lparr>AccessSpecifier := k\<rparr>) \<and> access_kind_of (st c) = None \<and> k' = k" for st' k'
      using that j Suc section_of_cong [of "take j cs" st' st k']
      by (auto simp: access_after_def)
    show ?thesis
    proof (cases "access_kind_of (st c)")
      case None
      with Cons.IH [OF j(1,2), of "st(c := (st c)\<lparr>AccessSpecifier := k\<rparr>)" k] step Suc
      show ?thesis by (simp del: fun_upd_apply)
    next
      case (Some k')
      with Cons.IH [OF j(1,2), of st k'] step Suc show ?thesis by simp
    qed
  qed
qed simp

lemma all_less_two: "(\<forall>i < Suc (Suc 0). P i) \<longleftrightarrow> P 0 \<and> P (Suc 0)"
  by (auto simp: less_Suc_eq)

text \<open>
  After \<open>setMemberAccessSpecifier\<close> every member behind the first child has the access of the
  section it stands in: that of the last access specifier in front of it, or \<open>Default\<close> when there is none.
  All other nodes, the first child among them, stay as they are, and nothing but the access of a child changes.
\<close>

theorem setMemberAccessSpecifier_sections:
  assumes "Children (st p) = c # cs" and "distinct (c # cs)"
  shows "(\<forall>i < length cs. AccessSpecifier (setMemberAccessSpecifier st p (cs ! i)) =
            (if access_kind_of (st (cs ! i)) = None then section_of st (c # take i cs) AS_Default
             else AccessSpecifier (st (cs ! i)))) \<and>
         (\<forall>q. q \<notin> set cs \<longrightarrow> setMemberAccessSpecifier st p q = st q) \<and>
         (\<forall>q k. (setMemberAccessSpecifier st p q)\<lparr>AccessSpecifier := k\<rparr> = (st q)\<lparr>AccessSpecifier := k\<rparr>)"
  using assms
  by (auto simp: setMemberAccessSpecifier_def access_loop_nth access_loop_other access_loop_only_access
      access_after_def split: option.splits)

definition demo_class :: store where
  "demo_class p =
     (if p = 0 then (SemanticNode_ctor 0 True TYPE_NODE ''A'' [] ''class A'' [] None [] False
          (TypeDeclNode \<lparr>BeforeFirstChildEOL = 1, TypeKind = TD_Class, td_Attrs = [], IsFinal = False, BaseClause = [],
             td_TemplateParameterList = [], td_References = []\<rparr>))\<lparr>Children := [1, 2, 3]\<rparr>
      else if p = 2 then AccessSpecifierNode_ctor AS_Public ACCESS_SPECIFIER True
      else TerminalNode_ctor (int p) True ORPHAN_COMMENT [] [] [] [] None [] ''// c'' 0 1 False OrphanCommentNode)"

lemma demo_class_kinds:
  "access_kind_of (demo_class 1) = None" "access_kind_of (demo_class 2) = Some AS_Public"
  "access_kind_of (demo_class 3) = None" "Children (demo_class 0) = [1, 2, 3]"
  by (simp_all add: demo_class_def TerminalNode_ctor_def SemanticNode_ctor_def access_kind_of_def isa_AccessSpecifier_def
      AccessSpecifierNode_ctor_def Terminal.defs)

theorem setMemberAccessSpecifier_sections_witness:
  "AccessSpecifier (setMemberAccessSpecifier demo_class 0 3) = AS_Public \<and>
   AccessSpecifier (setMemberAccessSpecifier demo_class 0 1) = AS_None"
proof -
  have "AccessSpecifier (demo_class 1) = AS_None"
    by (simp add: demo_class_def TerminalNode_ctor_def SemanticNode_ctor_def)
  then show ?thesis
    using setMemberAccessSpecifier_sections [of demo_class 0 1 "[2, 3]"]
    by (simp add: demo_class_kinds all_less_two)
qed

end
