(* ===== verification/Similarity.thy ===== *)
theory Similarity
  imports Complex_Main Prelude
begin

section \<open>Similarity measures\<close>

text \<open>
  Models \<open>src/utils/similarity.cpp\<close> and \<open>include/mergebot/utils/similarity.h\<close>, which the
  matchers use to pair nodes: the Levenshtein distance by dynamic programming, the Jaccard and
  Dice coefficients over sorted sequences, and the cosine of vectors and of k-gram profiles. A \<open>double\<close> is a \<^typ>\<open>real\<close>: rounding
  is not modelled. The negative error codes are the values the code returns; \<^term>\<open>None\<close> stands for the
  value that a division of zero by zero gives (NaN).
\<close>

subsection \<open>Error codes\<close>

datatype SimilarityErrKind = ErrDimensionMismatch | ErrEmptyVector | ErrZeroVector

fun err_value :: "SimilarityErrKind \<Rightarrow> real" where
  "err_value ErrDimensionMismatch = - 1"
| "err_value ErrEmptyVector = - 2"
| "err_value ErrZeroVector = - 3"

fun err_toString :: "SimilarityErrKind \<Rightarrow> string" where
  "err_toString ErrDimensionMismatch = ''dimension mismatch''"
| "err_toString ErrEmptyVector = ''empty vector''"
| "err_toString ErrZeroVector = ''zero vector''"

subsection \<open>Levenshtein distance\<close>

text \<open>
  The inner loop from \<open>j = 1\<close> on: \<open>c\<close> is \<open>s1[i - 1]\<close>, the list is \<open>dp[i - 1][j - 1 ..]\<close>, and \<open>left\<close>
  is \<open>dp[i][j - 1]\<close>.
\<close>

fun lev_row :: "char \<Rightarrow> string \<Rightarrow> nat list \<Rightarrow> nat \<Rightarrow> nat list" where
  "lev_row c (d # s2) (p # q # prev) left =
     (let v = min (min (p + (if c \<noteq> d then 1 else 0)) (q + 1)) (left + 1)
      in v # lev_row c s2 (q # prev) v)"
| "lev_row c s2 prev left = []"

text \<open>The outer loop: \<open>i\<close> is the number of the row just filled.\<close>

fun lev_rows :: "string \<Rightarrow> string \<Rightarrow> nat \<Rightarrow> nat list \<Rightarrow> nat list" where
  "lev_rows [] s2 i row = row"
| "lev_rows (c # s1) s2 i row = lev_rows s1 s2 (i + 1) ((i + 1) # lev_row c s2 row (i + 1))"

definition levenshtein_distance :: "string \<Rightarrow> string \<Rightarrow> nat" where
  "levenshtein_distance s1 s2 = last (lev_rows s1 s2 0 [0..<length s2 + 1])"

definition string_levenshtein :: "string \<Rightarrow> string \<Rightarrow> real option" where
  "string_levenshtein s1 s2 =
     (let m = max (length s1) (length s2)
      in if m = 0 then None else Some (1 - real (levenshtein_distance s1 s2) / real m))"

subsection \<open>Cosine\<close>

fun cosine_loop :: "real list \<Rightarrow> real list \<Rightarrow> real \<times> real \<times> real \<Rightarrow> real \<times> real \<times> real" where
  "cosine_loop (a # as) (b # bs) (dot, da, db) = cosine_loop as bs (dot + a * b, da + a * a, db + b * b)"
| "cosine_loop as bs acc = acc"

definition cosine :: "real list \<Rightarrow> real list \<Rightarrow> real" where
  "cosine a b =
     (if length a \<noteq> length b then err_value ErrDimensionMismatch
      else if a = [] \<or> b = [] then err_value ErrEmptyVector
      else let (dot, denom_a, denom_b) = cosine_loop a b (0, 0, 0)
           in if denom_a = 0 \<or> denom_b = 0 then err_value ErrZeroVector
              else dot / (sqrt denom_a * sqrt denom_b))"

subsection \<open>Jaccard and Dice\<close>

text \<open>\<open>std::set_intersection\<close> and \<open>std::set_union\<close> on sorted ranges.\<close>

fun set_intersection :: "'a::linorder list \<Rightarrow> 'a list \<Rightarrow> 'a list" where
  "set_intersection (x # xs) (y # ys) =
     (if x < y then set_intersection xs (y # ys)
      else if y < x then set_intersection (x # xs) ys
      else x # set_intersection xs ys)"
| "set_intersection _ _ = []"

fun set_union :: "'a::linorder list \<Rightarrow> 'a list \<Rightarrow> 'a list" where
  "set_union (x # xs) (y # ys) =
     (if x < y then x # set_union xs (y # ys)
      else if y < x then y # set_union (x # xs) ys
      else x # set_union xs ys)"
| "set_union [] ys = ys"
| "set_union xs [] = xs"

text \<open>Both arguments are sorted in place; the result has them too.\<close>

definition jaccard :: "'a::linorder list \<Rightarrow> 'a list \<Rightarrow> real \<times> 'a list \<times> 'a list" where
  "jaccard a b =
     (if a = [] \<or> b = [] then (err_value ErrEmptyVector, a, b)
      else let a' = sort a; b' = sort b
           in (real (length (set_intersection a' b')) / real (length (set_union a' b')), a', b'))"

definition dice :: "'a::linorder list \<Rightarrow> 'a list \<Rightarrow> real \<times> 'a list \<times> 'a list" where
  "dice a b =
     (if a = [] \<or> b = [] then (err_value ErrEmptyVector, a, b)
      else let a' = sort a; b' = sort b
           in (real (2 * length (set_intersection a' b')) / real (length a' + length b'), a', b'))"

subsection \<open>Profiles of k-grams\<close>

text \<open>
  A profile is the list of the k-grams with their counts, in the order in which they are first met; the
  order of the source's map is not specified, and only sums over it are used. \<open>collapse\<close> is the
  regular expression replacement of white space by one space.
\<close>

fun bump :: "string \<Rightarrow> (string \<times> nat) list \<Rightarrow> (string \<times> nat) list" where
  "bump g [] = [(g, 1)]"
| "bump g ((h, n) # ps) = (if g = h then (h, n + 1) # ps else (h, n) # bump g ps)"

definition get_profile :: "(string \<Rightarrow> string) \<Rightarrow> string \<Rightarrow> nat \<Rightarrow> (string \<times> nat) list" where
  "get_profile collapse str k =
     (let cleaned = collapse str
      in if length cleaned < k then []
         else fold (\<lambda>i. bump (substr cleaned i k)) [0..<length cleaned - k + 1] [])"

definition norm :: "(string \<times> nat) list \<Rightarrow> real" where
  "norm profile = sqrt (real (sum_list (map (\<lambda>(_, n). n * n) profile)))"

definition string_cosine :: "(string \<Rightarrow> string) \<Rightarrow> string \<Rightarrow> string \<Rightarrow> nat \<Rightarrow> real" where
  "string_cosine collapse s1 s2 k =
     (if s1 = [] \<or> s2 = [] then err_value ErrEmptyVector
      else let p1 = get_profile collapse s1 k; p2 = get_profile collapse s2 k
           in if p1 = [] \<or> p2 = [] then err_value ErrZeroVector
              else let dot = real (sum_list (map (\<lambda>(g, n). case map_of p2 g of None \<Rightarrow> 0 | Some m \<Rightarrow> n * m) p1));
                       n1 = norm p1; n2 = norm p2
                   in if n1 = 0 \<or> n2 = 0 then err_value ErrZeroVector else dot / (n1 * n2))"

subsection \<open>The distance is the least number of edits\<close>

text \<open>\<open>edits xs ys n\<close>: \<open>n\<close> insertions, deletions and replacements turn \<open>xs\<close> into \<open>ys\<close>.\<close>

inductive edits :: "'a list \<Rightarrow> 'a list \<Rightarrow> nat \<Rightarrow> bool" where
  edits_Nil: "edits [] [] 0"
| edits_keep: "edits xs ys n \<Longrightarrow> edits (xs @ [x]) (ys @ [x]) n"
| edits_replace: "edits xs ys n \<Longrightarrow> edits (xs @ [x]) (ys @ [y]) (Suc n)"
| edits_delete: "edits xs ys n \<Longrightarrow> edits (xs @ [x]) ys (Suc n)"
| edits_insert: "edits xs ys n \<Longrightarrow> edits xs (ys @ [y]) (Suc n)"

text \<open>The recurrence of the table, on reversed texts.\<close>

fun ed :: "'a list \<Rightarrow> 'a list \<Rightarrow> nat" where
  "ed [] ys = length ys"
| "ed (x # xs) [] = Suc (length xs)"
| "ed (x # xs) (y # ys) =
     min (min (ed xs ys + (if x \<noteq> y then 1 else 0)) (ed xs (y # ys) + 1)) (ed (x # xs) ys + 1)"

lemma ed_Nil2 [simp]: "ed xs [] = length xs"
  by (cases xs) auto

lemma ed_sym: "ed xs ys = ed ys xs"
  by (induction xs ys rule: ed.induct) auto

lemma ed_Cons_le: "ed (x # xs) ys \<le> Suc (ed xs ys)"
  by (cases ys) (auto simp: min_def)

lemma ed_edits: "edits (rev xs) (rev ys) (ed xs ys)"
proof (induction xs ys rule: ed.induct)
  case (1 ys)
  then show ?case by (induction ys) (auto intro: edits.intros)
next
  case (2 x xs)
  have "edits (rev zs) [] (length zs)" for zs :: "'a list"
    by (induction zs) (auto intro: edits.intros)
  from this [of "x # xs"] show ?case by simp
next
  case (3 x xs y ys)
  have a: "edits (rev (x # xs)) (rev (y # ys)) (ed xs ys + (if x \<noteq> y then 1 else 0))"
    using 3(1) edits_keep [of "rev xs" "rev ys" "ed xs ys" x] edits_replace [of "rev xs" "rev ys" "ed xs ys" x y] by auto
  have b: "edits (rev (x # xs)) (rev (y # ys)) (ed xs (y # ys) + 1)"
    using edits_delete [OF 3(2), of x] by simp
  have c: "edits (rev (x # xs)) (rev (y # ys)) (ed (x # xs) ys + 1)"
    using edits_insert [OF 3(3), of y] by simp
  from a b c show ?case unfolding ed.simps(3) min_def by presburger
qed

lemma ed_Cons_same: "ed (x # xs) (x # ys) \<le> ed xs ys"
  by (simp add: min_def)

lemma ed_Cons_any: "ed (x # xs) (y # ys) \<le> Suc (ed xs ys)"
  by (simp add: min_def)

lemma ed_least: "edits xs ys n \<Longrightarrow> ed (rev xs) (rev ys) \<le> n"
proof (induction rule: edits.induct)
  case (edits_keep xs ys n x)
  then show ?case using ed_Cons_same [of x "rev xs" "rev ys"] by simp
next
  case (edits_replace xs ys n x y)
  then show ?case using ed_Cons_any [of x "rev xs" y "rev ys"] by simp
next
  case (edits_delete xs ys n x)
  then show ?case using ed_Cons_le [of x "rev xs" "rev ys"] by simp
next
  case (edits_insert xs ys n y)
  then show ?case using ed_Cons_le [of y "rev ys" "rev xs"] ed_sym [of "rev xs" "y # rev ys"] ed_sym [of "rev ys" "rev xs"] by simp
qed simp

text \<open>A row of the table: distances from \<open>X\<close> to the growing prefixes of the second text.\<close>

fun row :: "'a list \<Rightarrow> 'a list \<Rightarrow> 'a list \<Rightarrow> nat list" where
  "row X Y [] = [ed X Y]"
| "row X Y (d # s) = ed X Y # row X (d # Y) s"

lemma row_Cons: "row X Y s = ed X Y # tl (row X Y s)"
  by (cases s) auto

lemma row_not_Nil [simp]: "row X Y s \<noteq> []"
  by (cases s) auto

lemma last_row: "last (row X Y s) = ed X (rev s @ Y)"
  by (induction s arbitrary: Y) auto

lemma row_first: "row [] Y s = [length Y..<length Y + length s + 1]"
  by (induction s arbitrary: Y) (auto simp: upt_conv_Cons simp del: upt_Suc)

lemma lev_row_step: "ed (c # X) Y # lev_row c s (row X Y s) (ed (c # X) Y) = row (c # X) Y s"
proof (induction s arbitrary: Y)
  case (Cons d s)
  have "row X (d # Y) s = ed X (d # Y) # tl (row X (d # Y) s)" by (rule row_Cons)
  then have "lev_row c (d # s) (row X Y (d # s)) (ed (c # X) Y) =
      ed (c # X) (d # Y) # lev_row c s (row X (d # Y) s) (ed (c # X) (d # Y))"
    by (metis (no_types, lifting) Let_def ed.simps(3) lev_row.simps(1) row.simps(2))
  with Cons.IH [of "d # Y"] show ?case by simp
qed simp

lemma lev_rows_row: "lev_rows s1 s2 (length X) (row X [] s2) = row (rev s1 @ X) [] s2"
proof (induction s1 arbitrary: X)
  case (Cons c s1)
  then show ?case using lev_row_step [of c X "[]" s2] Cons.IH [of "c # X"] by simp
qed simp

lemma levenshtein_ed: "levenshtein_distance s1 s2 = ed (rev s1) (rev s2)"
  using lev_rows_row [of s1 s2 "[]"] row_first [of "[]" s2] last_row [of "rev s1" "[]" s2]
  by (simp add: levenshtein_distance_def)

lemma ed_zero_iff: "ed xs ys = 0 \<longleftrightarrow> xs = ys"
  by (induction xs ys rule: ed.induct) (auto simp: min_def split: if_splits)

lemma ed_le_max: "ed xs ys \<le> max (length xs) (length ys)"
  by (induction xs ys rule: ed.induct) (auto simp: min_def split: if_splits)

lemma string_levenshtein_range:
  assumes "string_levenshtein s1 s2 = Some v"
  shows "0 \<le> v" "v \<le> 1" "v = 1 \<longleftrightarrow> s1 = s2"
proof -
  define m where "m = max (length s1) (length s2)"
  have m: "m \<noteq> 0" "v = 1 - real (levenshtein_distance s1 s2) / real m"
    using assms by (auto simp: string_levenshtein_def Let_def m_def split: if_splits)
  have d: "levenshtein_distance s1 s2 \<le> m"
    using ed_le_max [of "rev s1" "rev s2"] by (simp add: levenshtein_ed m_def)
  have z: "levenshtein_distance s1 s2 = 0 \<longleftrightarrow> s1 = s2" by (simp add: levenshtein_ed ed_zero_iff)
  show "0 \<le> v" "v \<le> 1" using m d by (simp_all add: divide_le_eq)
  show "v = 1 \<longleftrightarrow> s1 = s2" using m z by simp
qed

subsection \<open>Cauchy and Schwarz\<close>

lemma sum_squares_expand:
  "length as = length bs \<Longrightarrow>
   (\<Sum>(a, b)\<leftarrow>zip as bs. (B * a - C * b) * (B * a - C * b)) =
   B * B * (\<Sum>a\<leftarrow>as. a * a) - 2 * B * C * (\<Sum>(a, b)\<leftarrow>zip as bs. a * b) + C * C * (\<Sum>b\<leftarrow>bs. b * b)" for B C :: real
  by (induction as bs rule: list_induct2) (auto simp: algebra_simps)

lemma cauchy_schwarz:
  fixes as bs :: "real list"
  assumes "length as = length bs"
  shows "(\<Sum>(a, b)\<leftarrow>zip as bs. a * b)\<^sup>2 \<le> (\<Sum>a\<leftarrow>as. a * a) * (\<Sum>b\<leftarrow>bs. b * b)"
proof -
  define A B C where "A = (\<Sum>a\<leftarrow>as. a * a)" and "B = (\<Sum>b\<leftarrow>bs. b * b)" and "C = (\<Sum>(a, b)\<leftarrow>zip as bs. a * b)"
  have sq: "0 \<le> (\<Sum>x\<leftarrow>xs. f x * f x)" for xs :: "'b list" and f :: "'b \<Rightarrow> real"
    by (induction xs) auto
  have "0 \<le> (\<Sum>p\<leftarrow>zip as bs. (B * fst p - C * snd p) * (B * fst p - C * snd p))" by (rule sq)
  also have "\<dots> = B * B * A - 2 * B * C * C + C * C * B"
    using sum_squares_expand [OF assms, of B C] by (simp add: A_def B_def C_def case_prod_unfold)
  also have "\<dots> = B * (A * B - C * C)" by (simp add: algebra_simps)
  finally have *: "0 \<le> B * (A * B - C * C)" .
  have B0: "0 \<le> B" unfolding B_def by (rule sq)
  show ?thesis
  proof (cases "B = 0")
    case True
    have "b = 0" if "b \<in> set bs" for b
      using True that unfolding B_def
    proof (induction bs)
      case (Cons b' bs)
      then show ?case using sq [of "\<lambda>x. x" bs] by (auto simp: add_nonneg_eq_0_iff)
    qed simp
    then have "\<forall>p\<in>set (zip as bs). (\<lambda>(a, b). a * b) p = 0" by (auto dest: set_zip_rightD)
    then have "map (\<lambda>(a, b). a * b) (zip as bs) = map (\<lambda>_. 0) (zip as bs)" by (intro map_cong) auto
    then have "C = 0" unfolding C_def by (simp only: sum_list_0)
    then show ?thesis using True by (simp add: A_def B_def C_def power2_eq_square)
  next
    case False
    with B0 * have "0 \<le> A * B - C * C" by (simp add: zero_le_mult_iff)
    then show ?thesis by (simp add: A_def B_def C_def power2_eq_square)
  qed
qed

lemma cosine_loop_sums:
  "length as = length bs \<Longrightarrow>
   cosine_loop as bs (x, y, z) = (x + (\<Sum>(a, b)\<leftarrow>zip as bs. a * b), y + (\<Sum>a\<leftarrow>as. a * a), z + (\<Sum>b\<leftarrow>bs. b * b))"
  by (induction as bs arbitrary: x y z rule: list_induct2) auto

lemma quotient_range:
  assumes "C\<^sup>2 \<le> A * B" "0 < A" "0 < (B :: real)"
  shows "\<bar>C / (sqrt A * sqrt B)\<bar> \<le> 1"
proof -
  have "\<bar>C\<bar> \<le> sqrt (A * B)" using assms(1) by (simp add: real_le_rsqrt)
  then show ?thesis using assms(2,3) by (simp add: real_sqrt_mult divide_le_eq abs_mult)
qed

lemma squares_nonneg: "0 \<le> (\<Sum>x\<leftarrow>xs. f x * (f x :: real))"
  by (induction xs) auto

lemma cosine_range: "\<bar>cosine a b\<bar> \<le> 1 \<or> cosine a b = err_value ErrEmptyVector \<or> cosine a b = err_value ErrZeroVector"
proof (cases "length a = length b \<and> a \<noteq> []")
  case True
  define A B C where "A = (\<Sum>x\<leftarrow>a. x * x)" and "B = (\<Sum>x\<leftarrow>b. x * x)" and "C = (\<Sum>(x, y)\<leftarrow>zip a b. x * y)"
  have l: "cosine_loop a b (0, 0, 0) = (C, A, B)"
    using cosine_loop_sums [of a b 0 0 0] True by (simp add: A_def B_def C_def)
  have "0 \<le> A" "0 \<le> B" unfolding A_def B_def by (rule squares_nonneg)+
  moreover have "C\<^sup>2 \<le> A * B" using cauchy_schwarz [of a b] True by (simp add: A_def B_def C_def)
  ultimately show ?thesis using True l quotient_range [of C A B] by (auto simp: cosine_def)
next
  case False
  then show ?thesis by (auto simp: cosine_def)
qed

subsection \<open>Sorted ranges as multisets\<close>

lemma mset_set_intersection:
  "sorted xs \<Longrightarrow> sorted ys \<Longrightarrow> mset (set_intersection xs ys) = mset xs \<inter># mset ys"
proof (induction xs ys rule: set_intersection.induct)
  case (1 x xs y ys)
  consider "x < y" | "y < x" | "x = y" by fastforce
  then show ?case
  proof cases
    case 1
    then have "x \<notin># mset (y # ys)" using "1.prems" by auto
    then have "add_mset x (mset xs) \<inter># mset (y # ys) = mset xs \<inter># mset (y # ys)"
      by (simp add: inter_add_left1)
    then show ?thesis using 1 "1.IH"(1) "1.prems" by simp
  next
    case 2
    then have "y \<notin># mset (x # xs)" using "1.prems" by auto
    then have "mset (x # xs) \<inter># add_mset y (mset ys) = mset (x # xs) \<inter># mset ys"
      by (simp add: inter_add_right1)
    then show ?thesis using 2 less_not_sym [OF 2] "1.IH"(2) "1.prems" by simp
  next
    case 3
    then show ?thesis using "1.IH"(3) "1.prems" by simp
  qed
qed auto

lemma mset_set_union:
  "sorted xs \<Longrightarrow> sorted ys \<Longrightarrow> mset (set_union xs ys) = mset xs \<union># mset ys"
proof (induction xs ys rule: set_union.induct)
  case (1 x xs y ys)
  consider "x < y" | "y < x" | "x = y" by fastforce
  then show ?case
  proof cases
    case 1
    then have "x \<notin># mset (y # ys)" using "1.prems" by auto
    then have "add_mset x (mset xs) \<union># mset (y # ys) = add_mset x (mset xs \<union># mset (y # ys))"
      by (simp add: sup_union_left1)
    then show ?thesis using 1 "1.IH"(1) "1.prems" by simp
  next
    case 2
    then have "y \<notin># mset (x # xs)" using "1.prems" by auto
    then have "mset (x # xs) \<union># add_mset y (mset ys) = add_mset y (mset (x # xs) \<union># mset ys)"
      by (simp add: sup_union_right1)
    then show ?thesis using 2 less_not_sym [OF 2] "1.IH"(2) "1.prems" by simp
  next
    case 3
    then show ?thesis using "1.IH"(3) "1.prems" by (simp add: sup_union_left2)
  qed
qed auto

lemma jaccard_value:
  "a \<noteq> [] \<Longrightarrow> b \<noteq> [] \<Longrightarrow>
   fst (jaccard a b) = real (size (mset a \<inter># mset b)) / real (size (mset a \<union># mset b))"
  by (simp add: jaccard_def Let_def mset_set_intersection mset_set_union flip: size_mset)

lemma dice_value:
  "a \<noteq> [] \<Longrightarrow> b \<noteq> [] \<Longrightarrow>
   fst (dice a b) = 2 * real (size (mset a \<inter># mset b)) / real (length a + length b)"
  by (simp add: dice_def Let_def mset_set_intersection flip: size_mset)

subsection \<open>Profiles\<close>

lemma bump_keys: "set (map fst (bump g ps)) = insert g (set (map fst ps))"
  by (induction g ps rule: bump.induct) auto

lemma bump_distinct: "distinct (map fst ps) \<Longrightarrow> distinct (map fst (bump g ps))"
proof (induction g ps rule: bump.induct)
  case (2 g h n ps)
  then show ?case using bump_keys [of g ps] by auto
qed simp

lemma profile_distinct: "distinct (map fst (get_profile collapse s k))"
proof -
  have "distinct (map fst (fold (\<lambda>i. bump (f i)) xs ps))" if "distinct (map fst ps)" for f :: "nat \<Rightarrow> string" and xs ps
    using that by (induction xs arbitrary: ps) (auto simp: bump_distinct)
  from this [of "[]" "\<lambda>i. substr (collapse s) i k" "[0..<length (collapse s) - k + 1]"]
  show ?thesis by (simp add: get_profile_def Let_def del: upt_Suc)
qed

text \<open>The counts of the second profile along the keys of the first.\<close>

definition weight :: "(string \<times> nat) list \<Rightarrow> string \<Rightarrow> nat" where
  "weight p g = (case map_of p g of None \<Rightarrow> 0 | Some n \<Rightarrow> n)"

lemma weights_le:
  assumes "distinct gs"
  shows "distinct (map fst p) \<Longrightarrow> (\<Sum>g\<leftarrow>gs. weight p g * weight p g) \<le> (\<Sum>(_, n)\<leftarrow>p. n * n)"
proof -
  assume d: "distinct (map fst p)"
  have "(\<Sum>g\<leftarrow>gs. weight p g * weight p g) = (\<Sum>g\<in>set gs. weight p g * weight p g)"
    using assms by (rule sum_list_distinct_conv_sum_set)
  also have "\<dots> = (\<Sum>g\<in>set gs \<inter> fst ` set p. weight p g * weight p g)"
    by (rule sum.mono_neutral_right) (auto simp: weight_def split: option.splits dest!: map_of_SomeD intro: rev_image_eqI)
  also have "\<dots> \<le> (\<Sum>g\<in>fst ` set p. weight p g * weight p g)"
    by (rule sum_mono2) auto
  also have "\<dots> = (\<Sum>g\<leftarrow>map fst p. weight p g * weight p g)"
    using sum_list_distinct_conv_sum_set [OF d, of "\<lambda>g. weight p g * weight p g"] by simp
  also have "\<dots> = (\<Sum>(_, n)\<leftarrow>p. n * n)"
  proof -
    have "map (\<lambda>g. weight p g * weight p g) (map fst p) = map (\<lambda>(_, n). n * n) p"
      unfolding map_map comp_def
      by (rule map_cong) (auto simp: weight_def map_of_is_SomeI [OF d] split: option.splits)
    then show ?thesis by (simp only:)
  qed
  finally show ?thesis .
qed

lemma string_cosine_range:
  "string_cosine collapse s1 s2 k \<in> {0..1} \<union> {err_value ErrEmptyVector, err_value ErrZeroVector}"
proof (cases "s1 = [] \<or> s2 = [] \<or> get_profile collapse s1 k = [] \<or> get_profile collapse s2 k = []
    \<or> norm (get_profile collapse s1 k) = 0 \<or> norm (get_profile collapse s2 k) = 0")
  case True
  then show ?thesis by (auto simp: string_cosine_def Let_def)
next
  case False
  define p1 p2 where "p1 = get_profile collapse s1 k" and "p2 = get_profile collapse s2 k"
  define as bs where "as = map (\<lambda>(_, n). real n) p1" and "bs = map (\<lambda>(g, _). real (weight p2 g)) p1"
  define N1 N2 where "N1 = (\<Sum>(_, n)\<leftarrow>p1. n * n)" and "N2 = (\<Sum>(_, n)\<leftarrow>p2. n * n)"
  define C where "C = (\<Sum>(g, n)\<leftarrow>p1. n * weight p2 g)"
  have C: "(\<Sum>(a, b)\<leftarrow>zip as bs. a * b) = real C"
    unfolding as_def bs_def C_def by (induction p1) auto
  have A: "(\<Sum>a\<leftarrow>as. a * a) = real N1" unfolding as_def N1_def by (induction p1) auto
  have "(\<Sum>b\<leftarrow>bs. b * b) = real (\<Sum>g\<leftarrow>map fst p1. weight p2 g * weight p2 g)"
    unfolding bs_def by (induction p1) auto
  also have "\<dots> \<le> real N2"
    unfolding N2_def by (intro of_nat_mono weights_le) (auto simp: p1_def p2_def profile_distinct)
  finally have B: "(\<Sum>b\<leftarrow>bs. b * b) \<le> real N2" .
  have "(real C)\<^sup>2 \<le> real N1 * (\<Sum>b\<leftarrow>bs. b * b)"
    using cauchy_schwarz [of as bs] unfolding C A by (simp add: as_def bs_def)
  also have "\<dots> \<le> real N1 * real N2" using B by (intro mult_left_mono) auto
  finally have CS: "(real C)\<^sup>2 \<le> real N1 * real N2" .
  have "norm p1 = sqrt (real N1)" "norm p2 = sqrt (real N2)" by (simp_all add: norm_def N1_def N2_def)
  then have pos: "0 < real N1" "0 < real N2" using False unfolding p1_def [symmetric] p2_def [symmetric] by auto
  have "string_cosine collapse s1 s2 k = real C / (sqrt (real N1) * sqrt (real N2))"
    using False by (simp add: string_cosine_def Let_def norm_def C_def N1_def N2_def weight_def case_prod_unfold
        flip: p1_def p2_def) (auto intro!: arg_cong [where f = sum_list] simp: split: option.splits)
  moreover have "\<bar>real C / (sqrt (real N1) * sqrt (real N2))\<bar> \<le> 1" by (rule quotient_range [OF CS pos])
  moreover have "0 \<le> real C / (sqrt (real N1) * sqrt (real N2))" by simp
  ultimately show ?thesis by auto
qed

subsection \<open>Properties\<close>

text \<open>
  C34: \<open>levenshtein_distance\<close> is the least number of insertions, deletions and replacements that
  turn one text into the other; it is symmetric, and 0 for equal texts only.
\<close>

theorem levenshtein_least:
  "edits s1 s2 (levenshtein_distance s1 s2) \<and>
   (\<forall>n. edits s1 s2 n \<longrightarrow> levenshtein_distance s1 s2 \<le> n) \<and>
   levenshtein_distance s1 s2 = levenshtein_distance s2 s1 \<and>
   (levenshtein_distance s1 s2 = 0 \<longleftrightarrow> s1 = s2)"
  unfolding levenshtein_ed
  using ed_edits [of "rev s1" "rev s2"] ed_least [of s1 s2] ed_sym [of "rev s1" "rev s2"] ed_zero_iff [of "rev s1" "rev s2"]
  by (metis rev_rev_ident)

theorem levenshtein_least_witness: "levenshtein_distance ''ab'' ''b'' \<le> 1"
proof -
  have "edits ''a'' [] (Suc 0)" using edits_delete [OF edits_Nil, of "CHR ''a''"] by simp
  then have "edits ''ab'' ''b'' 1" using edits_keep [of "''a''" "[]" "Suc 0" "CHR ''b''"] by simp
  with levenshtein_least [of "''ab''" "''b''"] show ?thesis by blast
qed

text \<open>
  The similarity of two texts that are not both empty lies between 0 and 1 and is 1 for
  equal texts only; for two empty texts it is not a number.
\<close>

theorem string_levenshtein_bounds:
  "(case string_levenshtein s1 s2 of
      None \<Rightarrow> s1 = [] \<and> s2 = []
    | Some v \<Rightarrow> 0 \<le> v \<and> v \<le> 1 \<and> (v = 1 \<longleftrightarrow> s1 = s2))"
  using string_levenshtein_range [of s1 s2]
  by (auto simp: string_levenshtein_def Let_def split: option.splits if_splits)

text \<open>
  The similarity of two texts by their k-grams is an error code or lies between 0 and 1,
  whatever the white space replacement does.
\<close>

theorem string_cosine_bounds:
  "string_cosine collapse s1 s2 k \<in> {0..1} \<union> {err_value ErrEmptyVector, err_value ErrZeroVector}"
  by (rule string_cosine_range)

text \<open>
  \<open>jaccard\<close> and \<open>dice\<close> of two non-empty sequences are the quotients of the sizes of the
  multisets of their elements, whatever their order.
\<close>

theorem jaccard_dice_multisets:
  "a \<noteq> [] \<and> b \<noteq> [] \<longrightarrow>
   fst (jaccard a b) = real (size (mset a \<inter># mset b)) / real (size (mset a \<union># mset b)) \<and>
   fst (dice a b) = 2 * real (size (mset a \<inter># mset b)) / real (length a + length b)"
  using jaccard_value dice_value by blast

theorem jaccard_dice_multisets_witness:
  "fst (jaccard [2, 1, 1] [1, 3 :: nat]) = 1 / 4"
proof -
  have "fst (jaccard [2, 1, 1] [1, 3 :: nat]) =
      real (size (mset [2, 1, 1] \<inter># mset [1, 3 :: nat])) / real (size (mset [2, 1, 1] \<union># mset [1, 3 :: nat]))"
    using jaccard_dice_multisets [of "[2, 1, 1]" "[1, 3 :: nat]"] by blast
  then show ?thesis by (simp add: inter_add_left1 inter_add_left2 sup_union_left2)
qed

end
