(* ===== verification/Matching.thy ===== *)
theory Matching
  imports SemanticNode Similarity "HOL-Library.List_Lexorder" "HOL-Library.Char_ord" "HOL-Library.Multiset" "HOL-Library.AList"
begin

section \<open>Matching two semantic graphs\<close>

text \<open>
  Models \<open>src/core/semantic/GraphMatcher.cpp\<close>, the matchers of \<open>include/mergebot/core/model/matcher\<close> and the
  results in \<open>include/mergebot/core/model/mapping\<close>: nodes with equal signatures are matched first, then
  the rest is matched kind by kind through similarities and a maximum weighted matching.

  Parameters: the hash functions, the white space replacement of \<open>string_cosine\<close>, the matching that
  \<open>boost::maximum_weighted_matching\<close> returns and the order in which an \<open>unordered_map\<close> is traversed.
  Failed assertions and casts, and the use of iterators that \<open>erase\<close> invalidated, are errors.
\<close>

subsection \<open>Doubles\<close>

text \<open>A \<open>double\<close> is a real number, or no number; every comparison with the latter is false.\<close>

type_synonym double = "real option"

definition dadd :: "double \<Rightarrow> double \<Rightarrow> double" where
  "dadd x y = (case x of None \<Rightarrow> None | Some a \<Rightarrow> (case y of None \<Rightarrow> None | Some b \<Rightarrow> Some (a + b)))"

definition dmul :: "double \<Rightarrow> real \<Rightarrow> double" where
  "dmul x c = map_option (\<lambda>a. a * c) x"

definition dless :: "double \<Rightarrow> real \<Rightarrow> bool" where
  "dless x c = (case x of None \<Rightarrow> False | Some a \<Rightarrow> a < c)"

definition clamp :: "double \<Rightarrow> double" where
  "clamp x = (if dless x 0 then Some 0 else x)"

definition MIN_SIMI :: real where "MIN_SIMI = 0.618"

definition HIGH_SIMI :: real where "HIGH_SIMI = 0.78"

subsection \<open>Results\<close>

text \<open>
  An entry of the bidirectional map: the two nodes, each with the signature it was hashed with on
  insertion. The merger changes nodes later, and the map does not notice.
\<close>

record entry =
  e_base :: ptr
  e_bhash :: u64
  e_rev :: ptr
  e_rhash :: u64

record TwoWayMatching =
  OneOneMatching :: "entry list"
  PossiblyDeleted :: "NodeKind \<Rightarrow> ptr list"
  PossiblyAdded :: "NodeKind \<Rightarrow> ptr list"

record match_env =
  hsh :: hashers
  collapse :: "string \<Rightarrow> string"
  mwm :: "nat \<Rightarrow> (nat \<times> nat \<times> double) list \<Rightarrow> nat \<Rightarrow> nat option"
  iter :: "(u64 \<times> ptr) list \<Rightarrow> (u64 \<times> ptr) list"

definition empty_matching :: TwoWayMatching where
  "empty_matching = \<lparr>OneOneMatching = [], PossiblyDeleted = (\<lambda>_. []), PossiblyAdded = (\<lambda>_. [])\<rparr>"

definition sig :: "match_env \<Rightarrow> store \<Rightarrow> ptr \<Rightarrow> u64" where
  "sig E st p = hashSignature (hsh E) (st p)"

definition bimap_insert :: "match_env \<Rightarrow> store \<Rightarrow> ptr \<Rightarrow> ptr \<Rightarrow> entry list \<Rightarrow> entry list" where
  "bimap_insert E st b r es =
     (if sig E st b \<in> set (map e_bhash es) \<or> sig E st r \<in> set (map e_rhash es) then es
      else es @ [\<lparr>e_base = b, e_bhash = sig E st b, e_rev = r, e_rhash = sig E st r\<rparr>])"

definition addUnmatchedNode :: "store \<Rightarrow> ptr \<Rightarrow> bool \<Rightarrow> TwoWayMatching \<Rightarrow> TwoWayMatching" where
  "addUnmatchedNode st p IsInBase M =
     (let k = Kind (st p)
      in if IsInBase then M\<lparr>PossiblyDeleted := (PossiblyDeleted M)(k := PossiblyDeleted M k @ [p])\<rparr>
         else M\<lparr>PossiblyAdded := (PossiblyAdded M)(k := PossiblyAdded M k @ [p])\<rparr>)"

record ThreeWayMapping =
  OurNode :: "ptr option"
  BaseNode :: "ptr option"
  TheirNode :: "ptr option"

definition mapping_toString :: "store \<Rightarrow> ThreeWayMapping \<Rightarrow> string" where
  "mapping_toString st m =
     (let name = (\<lambda>p. case p of Some q \<Rightarrow> QualifiedName (st q) | None \<Rightarrow> ''(absent)'');
          our = name (OurNode m); base = name (BaseNode m); their = name (TheirNode m);
          NameMatching = (our = base \<and> base = their)
      in (if NameMatching then [] else ''^^^^^^ '')
         @ ''ThreeWayMapping(OurNode='' @ our @ '', BaseNode='' @ base @ '', TheirNode='' @ their @ '')'')"

subsection \<open>Top-down matching\<close>

definition collect :: "match_env \<Rightarrow> store \<Rightarrow> ptr list \<Rightarrow> (u64 \<times> ptr) list" where
  "collect E st vs =
     foldl (\<lambda>m v. if NeedToMerge (st v) \<and> \<not> IsSynthetic (st v) then AList.update (sig E st v) v m else m) [] vs"

fun pair_up :: "match_env \<Rightarrow> store \<Rightarrow> (u64 \<times> ptr) list \<Rightarrow> (u64 \<times> ptr) list \<Rightarrow> TwoWayMatching \<Rightarrow>
                (u64 \<times> ptr) list \<times> TwoWayMatching" where
  "pair_up E st [] revs M = (revs, M)"
| "pair_up E st ((h, b) # bs) revs M =
     (case map_of revs h of
        Some r \<Rightarrow> pair_up E st bs (AList.delete h revs) (M\<lparr>OneOneMatching := bimap_insert E st b r (OneOneMatching M)\<rparr>)
      | None \<Rightarrow> pair_up E st bs revs (addUnmatchedNode st b True M))"

definition topDownMatch :: "match_env \<Rightarrow> store \<Rightarrow> ptr list \<Rightarrow> ptr list \<Rightarrow> TwoWayMatching \<Rightarrow> TwoWayMatching" where
  "topDownMatch E st baseGraph revisionGraph M =
     (let (revs, M') = pair_up E st (iter E (collect E st baseGraph)) (collect E st revisionGraph) M
      in foldl (\<lambda>M (h, r). addUnmatchedNode st r False M) M' (iter E revs))"

subsection \<open>Matching through a maximum weighted matching\<close>

datatype match_error = AssertionFailed | IteratorInvalidated

text \<open>What a matcher does with one pair of nodes: skip it, fail, or add an edge.\<close>

datatype pair_edge = NoEdge | CastFails | EdgeWeight double

fun add_edges :: "(nat \<Rightarrow> nat \<Rightarrow> pair_edge) \<Rightarrow> (nat \<times> nat) list \<Rightarrow> match_error + (nat \<times> nat \<times> double) list" where
  "add_edges f [] = Inr []"
| "add_edges f ((i, j) # ps) =
     (case f i j of
        NoEdge \<Rightarrow> add_edges f ps
      | CastFails \<Rightarrow> Inl AssertionFailed
      | EdgeWeight w \<Rightarrow>
          (case add_edges f ps of Inl e \<Rightarrow> Inl e | Inr es \<Rightarrow> Inr ((i, j, w) # es)))"

definition edge_weight :: "(nat \<times> nat \<times> double) list \<Rightarrow> nat \<Rightarrow> nat \<Rightarrow> double option" where
  "edge_weight es i j =
     map_option (\<lambda>(_, _, w). w) (find (\<lambda>(a, b, _). a = i \<and> b = j \<or> a = j \<and> b = i) es)"

text \<open>
  The loop over the base vertices after the matching was computed. Its bound is the size of the list
  of base nodes that the loop itself shortens. The state holds the bidirectional map, the two
  lists and the pairs of signatures that \<open>TypeSpecifierMatcher\<close> records.
\<close>

record loop_state =
  oneone :: "entry list"
  bases :: "ptr list"
  revs :: "ptr list"
  refactored :: "(u64 \<times> u64) list"

definition take_pair :: "match_env \<Rightarrow> store \<Rightarrow> ptr \<Rightarrow> ptr \<Rightarrow> loop_state \<Rightarrow> loop_state" where
  "take_pair E st b r s =
     \<lparr>oneone = bimap_insert E st b r (oneone s),
      bases = filter (\<lambda>p. sig E st p \<noteq> sig E st b) (bases s),
      revs = filter (\<lambda>p. sig E st p \<noteq> sig E st r) (revs s),
      refactored = (if sig E st b \<in> set (map fst (refactored s)) then refactored s
                    else refactored s @ [(sig E st b, sig E st r)])\<rparr>"

definition pair_step ::
    "match_env \<Rightarrow> store \<Rightarrow> real \<Rightarrow> (ptr \<Rightarrow> ptr \<Rightarrow> bool) \<Rightarrow> ptr list \<Rightarrow> (nat \<times> nat \<times> double) list \<Rightarrow>
     (nat \<Rightarrow> nat option) \<Rightarrow> nat \<Rightarrow> loop_state \<Rightarrow> loop_state" where
  "pair_step E st limit refused verts es mate i s =
     (case mate i of
        None \<Rightarrow> s
      | Some j \<Rightarrow>
          (case edge_weight es i j of
             None \<Rightarrow> s
           | Some w \<Rightarrow> if dless w limit \<or> refused (verts ! i) (verts ! j) then s
                        else take_pair E st (verts ! i) (verts ! j) s))"

lemma length_pair_step: "length (bases (pair_step E st limit refused verts es mate i s)) \<le> length (bases s)"
  by (simp add: pair_step_def take_pair_def split: option.splits)

function mate_loop ::
    "match_env \<Rightarrow> store \<Rightarrow> real \<Rightarrow> (ptr \<Rightarrow> ptr \<Rightarrow> bool) \<Rightarrow> ptr list \<Rightarrow> (nat \<times> nat \<times> double) list \<Rightarrow>
     (nat \<Rightarrow> nat option) \<Rightarrow> nat \<Rightarrow> loop_state \<Rightarrow> loop_state" where
  "mate_loop E st limit refused verts es mate i s =
     (if i < length (bases s)
      then mate_loop E st limit refused verts es mate (i + 1) (pair_step E st limit refused verts es mate i s)
      else s)"
  by pat_completeness auto
termination
proof (relation "measure (\<lambda>(E, st, limit, refused, verts, es, mate, i, s). length (bases s) - i)", goal_cases)
  case (2 E st limit refused verts es mate i s)
  then show ?case using length_pair_step [of E st limit refused verts es mate i s] by simp
qed simp

declare mate_loop.simps [simp del]

definition weighted_match ::
    "match_env \<Rightarrow> store \<Rightarrow> real \<Rightarrow> (SemanticNode \<Rightarrow> SemanticNode \<Rightarrow> pair_edge) \<Rightarrow> (ptr \<Rightarrow> ptr \<Rightarrow> bool) \<Rightarrow>
     loop_state \<Rightarrow> match_error + loop_state" where
  "weighted_match E st limit pair refused s =
     (let n = length (bases s); m = length (revs s); verts = bases s @ revs s
      in case add_edges (\<lambda>i j. pair (st (verts ! i)) (st (verts ! j))) (List.product [0..<n] [n..<n + m]) of
           Inl e \<Rightarrow> Inl e
         | Inr es \<Rightarrow> Inr (mate_loop E st limit refused verts es (mwm E (n + m) es) 0 s))"


subsection \<open>The matchers by similarity\<close>

definition available :: "string list \<Rightarrow> string list \<Rightarrow> bool" where
  "available BaseRefs RevisionRefs =
     (if BaseRefs = [] \<or> RevisionRefs = [] then False
      else \<not> (list_all (\<lambda>s. s = []) BaseRefs \<or> list_all (\<lambda>s. s = []) RevisionRefs))"

definition cosine7 :: "match_env \<Rightarrow> string \<Rightarrow> string \<Rightarrow> real" where
  "cosine7 E s t = string_cosine (collapse E) s t 7"

text \<open>The similarity of the names of the parents, when both nodes have one.\<close>

definition parent_similarity :: "store \<Rightarrow> SemanticNode \<Rightarrow> SemanticNode \<Rightarrow> double option" where
  "parent_similarity st b r =
     (case Parent b of
        None \<Rightarrow> None
      | Some p \<Rightarrow>
          (case Parent r of
             None \<Rightarrow> None
           | Some q \<Rightarrow> Some (string_levenshtein (QualifiedName (st p)) (QualifiedName (st q)))))"

definition FieldDecl_calcSimilarity ::
    "match_env \<Rightarrow> store \<Rightarrow> SemanticNode \<Rightarrow> FieldDeclaration \<Rightarrow> SemanticNode \<Rightarrow> FieldDeclaration \<Rightarrow> double" where
  "FieldDecl_calcSimilarity E st b x r y =
     (let s0 = (case parent_similarity st b r of None \<Rightarrow> Some 0 | Some v \<Rightarrow> dadd (Some 0) (clamp (dmul v 0.3)));
          declared = Declarator x \<noteq> [] \<and> Declarator y \<noteq> [];
          d = cosine7 E (Declarator x) (Declarator y) * 0.2
      in if declared \<and> d < MIN_SIMI * 0.2 then Some 0
         else let s1 = (if declared then dadd s0 (Some d) else s0);
                  s2 = (if available (fld_References x) (fld_References y)
                        then dadd s1 (clamp (Some (fst (dice (fld_References x) (fld_References y)) * 0.2))) else s1);
                  nb = getNearestNeighborNames (hsh E) st b; nr = getNearestNeighborNames (hsh E) st r
              in if available nb nr then dadd s2 (clamp (Some (fst (dice nb nr) * 0.3))) else s2)"

definition FieldDecl_pair :: "match_env \<Rightarrow> store \<Rightarrow> SemanticNode \<Rightarrow> SemanticNode \<Rightarrow> pair_edge" where
  "FieldDecl_pair E st b r =
     (case as_FieldDeclaration b of
        None \<Rightarrow> CastFails
      | Some x \<Rightarrow>
          (case as_FieldDeclaration r of
             None \<Rightarrow> CastFails
           | Some y \<Rightarrow> if cosine7 E (Declarator x) (Declarator y) < MIN_SIMI then NoEdge
                        else EdgeWeight (FieldDecl_calcSimilarity E st b x r y)))"

text \<open>
  A pair is refused when both nodes have parents of different signatures, unless the parent of the base
  node is a type that was matched with the parent of the other.
\<close>

definition moved :: "match_env \<Rightarrow> store \<Rightarrow> (u64 \<times> u64) list \<Rightarrow> ptr \<Rightarrow> ptr \<Rightarrow> bool" where
  "moved E st RefactoredTypes b r =
     (case Parent (st b) of
        None \<Rightarrow> False
      | Some p \<Rightarrow>
          (case Parent (st r) of
             None \<Rightarrow> False
           | Some q \<Rightarrow> sig E st p \<noteq> sig E st q \<and> map_of RefactoredTypes (sig E st p) \<noteq> Some (sig E st q)))"

definition FieldDeclMatcher_match :: "match_env \<Rightarrow> store \<Rightarrow> (u64 \<times> u64) list \<Rightarrow> loop_state \<Rightarrow> match_error + loop_state" where
  "FieldDeclMatcher_match E st RefactoredTypes = weighted_match E st MIN_SIMI (FieldDecl_pair E st) (moved E st RefactoredTypes)"

text \<open>A term of the weighted sums: the Dice coefficient of two lists, when they are available.\<close>

definition add_dice :: "string list \<Rightarrow> string list \<Rightarrow> real \<Rightarrow> double \<Rightarrow> double" where
  "add_dice a b c s = (if available a b then dadd s (dmul (clamp (Some (fst (dice a b)))) c) else s)"

definition add_parent :: "store \<Rightarrow> SemanticNode \<Rightarrow> SemanticNode \<Rightarrow> real \<Rightarrow> double \<Rightarrow> double" where
  "add_parent st b r c s = (case parent_similarity st b r of None \<Rightarrow> s | Some v \<Rightarrow> dadd s (dmul (clamp v) c))"

definition FuncDef_calcSimilarity ::
    "match_env \<Rightarrow> store \<Rightarrow> SemanticNode \<Rightarrow> FuncDef \<Rightarrow> SemanticNode \<Rightarrow> FuncDef \<Rightarrow> double" where
  "FuncDef_calcSimilarity E st b x r y =
     (let NameSim = string_levenshtein (OriginalSignature b) (OriginalSignature r)
      in if dless NameSim MIN_SIMI then Some 0
         else let s1 = dadd (Some 0) (dmul NameSim 0.5);
                  s2 = dadd s1 (dmul (clamp (Some (cosine7 E (Body x) (Body y)))) 0.2);
                  s3 = add_dice (fd_ParameterTypes x) (fd_ParameterTypes y) 0.075 s2;
                  s4 = add_dice (fd_References x) (fd_References y) 0.075 s3;
                  s5 = add_dice (getNearestNeighborNames (hsh E) st b) (getNearestNeighborNames (hsh E) st r) 0.075 s4
              in add_parent st b r 0.075 s5)"

definition FuncDef_pair :: "match_env \<Rightarrow> store \<Rightarrow> SemanticNode \<Rightarrow> SemanticNode \<Rightarrow> pair_edge" where
  "FuncDef_pair E st b r =
     (if cosine7 E (OriginalSignature b) (OriginalSignature r) < MIN_SIMI then NoEdge
      else case as_FuncDef b of
             None \<Rightarrow> CastFails
           | Some x \<Rightarrow> (case as_FuncDef r of None \<Rightarrow> CastFails | Some y \<Rightarrow> EdgeWeight (FuncDef_calcSimilarity E st b x r y)))"

definition FuncDefMatcher_match :: "match_env \<Rightarrow> store \<Rightarrow> (u64 \<times> u64) list \<Rightarrow> loop_state \<Rightarrow> match_error + loop_state" where
  "FuncDefMatcher_match E st RefactoredTypes = weighted_match E st MIN_SIMI (FuncDef_pair E st) (moved E st RefactoredTypes)"

definition FuncSpecialMember_calcSimilarity ::
    "match_env \<Rightarrow> store \<Rightarrow> SemanticNode \<Rightarrow> FuncSpecialMember \<Rightarrow> SemanticNode \<Rightarrow> FuncSpecialMember \<Rightarrow> double" where
  "FuncSpecialMember_calcSimilarity E st b x r y =
     (let NameSim = string_levenshtein (OriginalSignature b) (OriginalSignature r)
      in if dless NameSim MIN_SIMI then Some 0
         else let s1 = dadd (Some 0) (dmul NameSim 0.5);
                  s2 = dadd s1 (dmul (clamp (Some (cosine7 E (Body x) (Body y)))) 0.2);
                  s3 = add_dice (InitList x) (InitList y) 0.1 s2;
                  s4 = add_dice (sm_ParameterTypes x) (sm_ParameterTypes y) 0.05 s3;
                  s5 = add_dice (sm_References x) (sm_References y) 0.05 s4;
                  s6 = add_dice (getNearestNeighborNames (hsh E) st b) (getNearestNeighborNames (hsh E) st r) 0.05 s5
              in add_parent st b r 0.05 s6)"

definition FuncSpecialMember_pair :: "match_env \<Rightarrow> store \<Rightarrow> SemanticNode \<Rightarrow> SemanticNode \<Rightarrow> pair_edge" where
  "FuncSpecialMember_pair E st b r =
     (case as_FuncSpecialMember b of
        None \<Rightarrow> CastFails
      | Some x \<Rightarrow>
          (case as_FuncSpecialMember r of
             None \<Rightarrow> CastFails
           | Some y \<Rightarrow> EdgeWeight (FuncSpecialMember_calcSimilarity E st b x r y)))"

definition FuncSpecialMemberMatcher_match :: "match_env \<Rightarrow> store \<Rightarrow> loop_state \<Rightarrow> match_error + loop_state" where
  "FuncSpecialMemberMatcher_match E st = weighted_match E st MIN_SIMI (FuncSpecialMember_pair E st) (\<lambda>_ _. False)"

text \<open>The number of indicators and the sum of their similarities.\<close>

definition add_indicator :: "double \<Rightarrow> nat \<times> double \<Rightarrow> nat \<times> double" where
  "add_indicator v acc =
     (if dless v 0 then (fst acc + 1 - 1, dadd (snd acc) (Some 0)) else (fst acc + 1, dadd (snd acc) v))"

definition TypeSpecifier_calcSimilarity ::
    "match_env \<Rightarrow> store \<Rightarrow> SemanticNode \<Rightarrow> TypeDecl \<Rightarrow> SemanticNode \<Rightarrow> TypeDecl \<Rightarrow> double" where
  "TypeSpecifier_calcSimilarity E st b x r y =
     (let a0 = (0, Some 0);
          a1 = (if available (td_References x) (td_References y)
                then add_indicator (Some (fst (dice (td_References x) (td_References y)))) a0 else a0);
          nb = getNearestNeighborNames (hsh E) st b; nr = getNearestNeighborNames (hsh E) st r;
          a2 = (if available nb nr then add_indicator (Some (fst (dice nb nr))) a1 else a1);
          a3 = (case parent_similarity st b r of None \<Rightarrow> a2 | Some v \<Rightarrow> add_indicator v a2);
          NameSim = clamp (string_levenshtein (OriginalSignature b) (OriginalSignature r))
      in if fst a3 \<noteq> 0 then dmul (dadd (dmul (snd a3) (1 / real (fst a3))) NameSim) (1 / 2) else Some 0)"

definition TypeSpecifier_pair :: "match_env \<Rightarrow> store \<Rightarrow> SemanticNode \<Rightarrow> SemanticNode \<Rightarrow> pair_edge" where
  "TypeSpecifier_pair E st b r =
     (if cosine7 E (OriginalSignature b) (OriginalSignature r) < MIN_SIMI then NoEdge
      else case as_TypeDecl b of
             None \<Rightarrow> CastFails
           | Some x \<Rightarrow> (case as_TypeDecl r of None \<Rightarrow> CastFails | Some y \<Rightarrow> EdgeWeight (TypeSpecifier_calcSimilarity E st b x r y)))"

definition TypeSpecifierMatcher_match :: "match_env \<Rightarrow> store \<Rightarrow> loop_state \<Rightarrow> match_error + loop_state" where
  "TypeSpecifierMatcher_match E st = weighted_match E st MIN_SIMI (TypeSpecifier_pair E st) (\<lambda>_ _. False)"

definition Namespace_calcSimilarity :: "match_env \<Rightarrow> store \<Rightarrow> SemanticNode \<Rightarrow> SemanticNode \<Rightarrow> double" where
  "Namespace_calcSimilarity E st b r =
     (let SigSim = cosine7 E (OriginalSignature b) (OriginalSignature r);
          NameSim = cosine7 E (QualifiedName b) (QualifiedName r);
          nb = getNearestNeighborNames (hsh E) st b; nr = getNearestNeighborNames (hsh E) st r
      in if available nb nr then Some ((SigSim + NameSim + fst (dice nb nr)) / 3) else Some ((SigSim + NameSim) / 2))"

definition Namespace_pair :: "match_env \<Rightarrow> store \<Rightarrow> SemanticNode \<Rightarrow> SemanticNode \<Rightarrow> pair_edge" where
  "Namespace_pair E st b r =
     (case as_Namespace b of
        None \<Rightarrow> CastFails
      | Some x \<Rightarrow>
          (case as_Namespace r of
             None \<Rightarrow> CastFails
           | Some y \<Rightarrow> if ns_TUPath x \<noteq> ns_TUPath y then NoEdge else EdgeWeight (Namespace_calcSimilarity E st b r)))"

definition NamespaceMatcher_match :: "match_env \<Rightarrow> store \<Rightarrow> loop_state \<Rightarrow> match_error + loop_state" where
  "NamespaceMatcher_match E st = weighted_match E st MIN_SIMI (Namespace_pair E st) (\<lambda>_ _. False)"

definition Textual_calcSimilarity :: "match_env \<Rightarrow> store \<Rightarrow> SemanticNode \<Rightarrow> Textual \<Rightarrow> SemanticNode \<Rightarrow> Textual \<Rightarrow> double" where
  "Textual_calcSimilarity E st b x r y =
     (let BodySim = cosine7 E (Body x) (Body y);
          nb = getNearestNeighborNames (hsh E) st b; nr = getNearestNeighborNames (hsh E) st r
      in if available nb nr then Some ((BodySim + fst (dice nb nr)) / 2) else Some BodySim)"

definition Textual_pair :: "match_env \<Rightarrow> store \<Rightarrow> SemanticNode \<Rightarrow> SemanticNode \<Rightarrow> pair_edge" where
  "Textual_pair E st b r =
     (case as_Textual b of
        None \<Rightarrow> CastFails
      | Some x \<Rightarrow>
          (case as_Textual r of
             None \<Rightarrow> CastFails
           | Some y \<Rightarrow> if tx_TUPath x \<noteq> tx_TUPath y then NoEdge else EdgeWeight (Textual_calcSimilarity E st b x r y)))"

definition TextualMatcher_match :: "match_env \<Rightarrow> store \<Rightarrow> loop_state \<Rightarrow> match_error + loop_state" where
  "TextualMatcher_match E st = weighted_match E st HIGH_SIMI (Textual_pair E st) (\<lambda>_ _. False)"

subsection \<open>The matchers by pairs\<close>

text \<open>
  These matchers walk over all pairs with two range-based loops. The first pair that matches is inserted and
  erased from the lists the loops run over, which invalidates their iterators, so the next step of the loops
  has no meaning.
\<close>

fun range_match :: "('a \<Rightarrow> 'a \<Rightarrow> bool option) \<Rightarrow> ('a \<times> 'a) list \<Rightarrow> match_error + unit" where
  "range_match matched [] = Inr ()"
| "range_match matched ((b, r) # ps) =
     (case matched b r of
        None \<Rightarrow> Inl AssertionFailed
      | Some True \<Rightarrow> Inl IteratorInvalidated
      | Some False \<Rightarrow> range_match matched ps)"

definition range_matcher :: "store \<Rightarrow> (SemanticNode \<Rightarrow> SemanticNode \<Rightarrow> bool option) \<Rightarrow> loop_state \<Rightarrow> match_error + loop_state" where
  "range_matcher st matched s =
     (case range_match (\<lambda>b r. matched (st b) (st r)) (List.product (bases s) (revs s)) of
        Inl e \<Rightarrow> Inl e
      | Inr _ \<Rightarrow> Inr s)"

definition TU_isMatched :: "SemanticNode \<Rightarrow> SemanticNode \<Rightarrow> bool option" where
  "TU_isMatched b r =
     (if isa_TranslationUnit b \<and> isa_TranslationUnit r then Some (QualifiedName b = QualifiedName r) else None)"

definition TranslationUnitMatcher_match :: "store \<Rightarrow> loop_state \<Rightarrow> match_error + loop_state" where
  "TranslationUnitMatcher_match st = range_matcher st TU_isMatched"

definition Enum_isMatched :: "match_env \<Rightarrow> SemanticNode \<Rightarrow> SemanticNode \<Rightarrow> bool option" where
  "Enum_isMatched E b r =
     (case as_Enum b of
        None \<Rightarrow> None
      | Some x \<Rightarrow>
          (case as_Enum r of
             None \<Rightarrow> None
           | Some y \<Rightarrow>
               (let NameSim = clamp (string_levenshtein (QualifiedName b) (QualifiedName r));
                    BaseSim = clamp (Some (cosine7 E (EnumBase x) (EnumBase y)));
                    BodySim = clamp (Some (cosine7 E (en_Body x) (en_Body y)))
                in Some (case dadd (dadd (dmul NameSim 0.2) (dmul BaseSim 0.2)) (dmul BodySim 0.6) of
                           None \<Rightarrow> False
                         | Some v \<Rightarrow> MIN_SIMI \<le> v))))"

definition EnumMatcher_match :: "match_env \<Rightarrow> store \<Rightarrow> loop_state \<Rightarrow> match_error + loop_state" where
  "EnumMatcher_match E st = range_matcher st (Enum_isMatched E)"

definition LinkageSpec_isMatched :: "SemanticNode \<Rightarrow> SemanticNode \<Rightarrow> bool option" where
  "LinkageSpec_isMatched b r =
     (case as_LinkageSpec b of
        None \<Rightarrow> None
      | Some x \<Rightarrow>
          (case as_LinkageSpec r of
             None \<Rightarrow> None
           | Some y \<Rightarrow> Some (ls_ParentSignatureHash x = ls_ParentSignatureHash y)))"

definition LinkageSpecListMatcher_match :: "store \<Rightarrow> loop_state \<Rightarrow> match_error + loop_state" where
  "LinkageSpecListMatcher_match st = range_matcher st LinkageSpec_isMatched"

subsection \<open>Bottom-up matching\<close>

text \<open>
  A matcher works on the two lists of one kind, which it changes in place, and runs only when neither
  is empty. The pairs of types go to the later matchers.
\<close>

type_synonym bottom_up = "TwoWayMatching \<times> (u64 \<times> u64) list"

definition run_matcher ::
    "NodeKind \<Rightarrow> ((u64 \<times> u64) list \<Rightarrow> loop_state \<Rightarrow> match_error + loop_state) \<Rightarrow> bool \<Rightarrow>
     bottom_up \<Rightarrow> match_error + bottom_up" where
  "run_matcher k matcher keeps_pairs Mr =
     (let M = fst Mr; bs = PossiblyDeleted M k; rs = PossiblyAdded M k
      in if bs = [] \<or> rs = [] then Inr Mr
         else case matcher (snd Mr) \<lparr>oneone = OneOneMatching M, bases = bs, revs = rs, refactored = []\<rparr> of
                Inl e \<Rightarrow> Inl e
              | Inr s \<Rightarrow>
                  Inr (M\<lparr>OneOneMatching := oneone s,
                         PossiblyDeleted := (PossiblyDeleted M)(k := bases s),
                         PossiblyAdded := (PossiblyAdded M)(k := revs s)\<rparr>,
                       if keeps_pairs then refactored s else snd Mr))"

fun run_all :: "(bottom_up \<Rightarrow> match_error + bottom_up) list \<Rightarrow> bottom_up \<Rightarrow> match_error + bottom_up" where
  "run_all [] Mr = Inr Mr"
| "run_all (f # fs) Mr = (case f Mr of Inl e \<Rightarrow> Inl e | Inr Mr' \<Rightarrow> run_all fs Mr')"

definition matchers :: "match_env \<Rightarrow> store \<Rightarrow> (bottom_up \<Rightarrow> match_error + bottom_up) list" where
  "matchers E st =
     [run_matcher TRANSLATION_UNIT (\<lambda>_. TranslationUnitMatcher_match st) False,
      run_matcher LINKAGE_SPEC_LIST (\<lambda>_. LinkageSpecListMatcher_match st) False,
      run_matcher NAMESPACE (\<lambda>_. NamespaceMatcher_match E st) False,
      run_matcher TYPE_NODE (\<lambda>_. TypeSpecifierMatcher_match E st) True,
      run_matcher ENUM (\<lambda>_. EnumMatcher_match E st) False,
      run_matcher FIELD_DECLARATION (FieldDeclMatcher_match E st) False,
      run_matcher FUNC_DEF (FuncDefMatcher_match E st) False,
      run_matcher FUNC_SPECIAL_MEMBER (\<lambda>_. FuncSpecialMemberMatcher_match E st) False]"

definition bottomUpMatch :: "match_env \<Rightarrow> store \<Rightarrow> TwoWayMatching \<Rightarrow> match_error + TwoWayMatching" where
  "bottomUpMatch E st M = map_sum id fst (run_all (matchers E st) (M, []))"

definition match_graphs :: "match_env \<Rightarrow> store \<Rightarrow> ptr list \<Rightarrow> ptr list \<Rightarrow> match_error + TwoWayMatching" where
  "match_graphs E st baseGraph revisionGraph =
     bottomUpMatch E st (topDownMatch E st baseGraph revisionGraph empty_matching)"

end
