(* ===== verification/MatchingFacts.thy ===== *)
theory MatchingFacts
  imports Matching
begin

section \<open>What matching guarantees\<close>

text \<open>
  The properties of \<open>Matching\<close>: what the first phase finds, that no phase loses a node or uses one
  twice, when the second phase returns, and how many nodes its loops can take.
\<close>

subsection \<open>What top-down matching finds\<close>

text \<open>The nodes that take part, and the one an \<open>unordered_map\<close> keeps for a signature: the last.\<close>

definition wanted :: "store \<Rightarrow> ptr \<Rightarrow> bool" where
  "wanted st v \<longleftrightarrow> NeedToMerge (st v) \<and> \<not> IsSynthetic (st v)"

definition last_with :: "match_env \<Rightarrow> store \<Rightarrow> ptr list \<Rightarrow> u64 \<Rightarrow> ptr option" where
  "last_with E st vs h = find (\<lambda>v. wanted st v \<and> sig E st v = h) (rev vs)"

lemma collect_snoc:
  "collect E st (vs @ [v]) = (if wanted st v then AList.update (sig E st v) v (collect E st vs) else collect E st vs)"
  by (simp add: collect_def wanted_def)

lemma map_of_collect: "map_of (collect E st vs) h = last_with E st vs h"
proof (induction vs rule: rev_induct)
  case Nil
  then show ?case by (simp add: collect_def last_with_def)
next
  case (snoc v vs)
  then show ?case by (auto simp: collect_snoc last_with_def update_conv')
qed

lemma distinct_collect: "distinct (map fst (collect E st vs))"
  by (induction vs rule: rev_induct) (simp_all add: collect_snoc distinct_update, simp add: collect_def)

lemma sig_collect: "(h, p) \<in> set (collect E st vs) \<Longrightarrow> sig E st p = h"
  using map_of_is_SomeI [OF distinct_collect, of h p E st vs]
  by (auto simp: map_of_collect last_with_def find_Some_iff)

text \<open>Associations of signatures with nodes that have them, as \<open>collect\<close> builds them.\<close>

definition signed :: "match_env \<Rightarrow> store \<Rightarrow> (u64 \<times> ptr) list \<Rightarrow> bool" where
  "signed E st xs \<longleftrightarrow> distinct (map fst xs) \<and> (\<forall>(h, p) \<in> set xs. sig E st p = h)"

lemma signed_collect: "signed E st (collect E st vs)"
  using sig_collect by (fastforce simp: signed_def distinct_collect)

lemma signed_perm: "mset xs = mset ys \<Longrightarrow> signed E st xs \<longleftrightarrow> signed E st ys"
  using mset_eq_imp_distinct_iff [of "map fst xs" "map fst ys"] mset_eq_setD [of xs ys]
  by (simp add: signed_def)

lemma map_of_perm: "mset xs = mset ys \<Longrightarrow> distinct (map fst ys) \<Longrightarrow> map_of xs = map_of ys"
  using mset_eq_imp_distinct_iff [of "map fst xs" "map fst ys"] map_of_inject_set [of xs ys] mset_eq_setD [of xs ys]
  by simp

definition entry_of :: "match_env \<Rightarrow> store \<Rightarrow> ptr \<Rightarrow> ptr \<Rightarrow> entry" where
  "entry_of E st b r = \<lparr>e_base = b, e_bhash = sig E st b, e_rev = r, e_rhash = sig E st r\<rparr>"

lemma entry_of_simps [simp]:
  "e_base (entry_of E st b r) = b" "e_bhash (entry_of E st b r) = sig E st b"
  "e_rev (entry_of E st b r) = r" "e_rhash (entry_of E st b r) = sig E st r"
  by (simp_all add: entry_of_def)

lemma bimap_insert_new:
  assumes "sig E st b \<notin> e_bhash ` set es" and "sig E st r \<notin> e_rhash ` set es"
  shows "bimap_insert E st b r es = es @ [entry_of E st b r]"
  using assms by (simp add: bimap_insert_def entry_of_def)

definition matched_entries :: "match_env \<Rightarrow> store \<Rightarrow> (u64 \<times> ptr) list \<Rightarrow> (u64 \<times> ptr) list \<Rightarrow> entry list" where
  "matched_entries E st bs rv = List.map_filter (\<lambda>(h, b). map_option (entry_of E st b) (map_of rv h)) bs"

definition unmatched :: "(u64 \<times> ptr) list \<Rightarrow> (u64 \<times> ptr) list \<Rightarrow> ptr list" where
  "unmatched bs rv = map snd (filter (\<lambda>(h, _). h \<notin> set (map fst rv)) bs)"

definition of_kind :: "store \<Rightarrow> NodeKind \<Rightarrow> ptr list \<Rightarrow> ptr list" where
  "of_kind st k ps = filter (\<lambda>p. Kind (st p) = k) ps"

lemma addUnmatched_simps:
  "OneOneMatching (addUnmatchedNode st p ib M) = OneOneMatching M"
  "PossiblyDeleted (addUnmatchedNode st p ib M) k = PossiblyDeleted M k @ (if ib then of_kind st k [p] else [])"
  "PossiblyAdded (addUnmatchedNode st p ib M) k = PossiblyAdded M k @ (if ib then [] else of_kind st k [p])"
  by (simp_all add: addUnmatchedNode_def Let_def of_kind_def)

lemma of_kind_append [simp]: "of_kind st k (xs @ ys) = of_kind st k xs @ of_kind st k ys"
  by (simp add: of_kind_def)

lemma matched_entries_cong:
  "(\<And>h. h \<in> set (map fst bs) \<Longrightarrow> map_of rv h = map_of rv' h) \<Longrightarrow> matched_entries E st bs rv = matched_entries E st bs rv'"
  by (induction bs) (simp_all add: matched_entries_def map_filter_simps split: prod.splits option.splits)

lemma unmatched_cong:
  "(\<And>h. h \<in> set (map fst bs) \<Longrightarrow> h \<in> set (map fst rv) \<longleftrightarrow> h \<in> set (map fst rv')) \<Longrightarrow> unmatched bs rv = unmatched bs rv'"
  by (induction bs) (auto simp: unmatched_def simp del: set_map)

lemma pair_up_spec:
  assumes "signed E st bs" and "signed E st rv"
    and "e_bhash ` set (OneOneMatching M) \<inter> set (map fst bs) = {}"
    and "e_rhash ` set (OneOneMatching M) \<inter> set (map fst rv) = {}"
  shows "pair_up E st bs rv M =
     (filter (\<lambda>(h, _). h \<notin> set (map fst bs)) rv,
      M\<lparr>OneOneMatching := OneOneMatching M @ matched_entries E st bs rv,
        PossiblyDeleted := (\<lambda>k. PossiblyDeleted M k @ of_kind st k (unmatched bs rv))\<rparr>)"
  using assms
proof (induction bs arbitrary: rv M)
  case Nil
  then show ?case by (simp add: matched_entries_def unmatched_def of_kind_def)
next
  case (Cons hb bs)
  obtain h b where hb: "hb = (h, b)" by (cases hb)
  from Cons.prems hb have sb: "sig E st b = h" "h \<notin> set (map fst bs)" "signed E st bs"
    by (auto simp: signed_def)
  show ?case
  proof (cases "map_of rv h")
    case None
    then have h: "h \<notin> set (map fst rv)" by (simp add: map_of_eq_None_iff)
    have "pair_up E st bs rv (addUnmatchedNode st b True M) =
       (filter (\<lambda>(h, _). h \<notin> set (map fst bs)) rv,
        (addUnmatchedNode st b True M)
          \<lparr>OneOneMatching := OneOneMatching M @ matched_entries E st bs rv,
           PossiblyDeleted := (\<lambda>k. PossiblyDeleted (addUnmatchedNode st b True M) k @ of_kind st k (unmatched bs rv))\<rparr>)"
      using Cons.prems hb sb Cons.IH [of rv "addUnmatchedNode st b True M"] by (simp add: addUnmatched_simps)
    moreover from h have "filter (\<lambda>(h', _). h' \<notin> set (map fst (hb # bs))) rv = filter (\<lambda>(h, _). h \<notin> set (map fst bs)) rv"
      using hb by (intro filter_cong) force+
    ultimately show ?thesis
      using None hb h
      by (simp add: matched_entries_def unmatched_def addUnmatched_simps addUnmatchedNode_def Let_def of_kind_def fun_eq_iff
          map_filter_simps)
  next
    case (Some r)
    then have r: "(h, r) \<in> set rv" by (rule map_of_SomeD)
    with Cons.prems have sr: "sig E st r = h" by (auto simp: signed_def)
    let ?rv = "AList.delete h rv"
    let ?M = "M\<lparr>OneOneMatching := OneOneMatching M @ [entry_of E st b r]\<rparr>"
    have ins: "bimap_insert E st b r (OneOneMatching M) = OneOneMatching M @ [entry_of E st b r]"
      using Cons.prems(3,4) hb sb(1) sr r by (intro bimap_insert_new) force+
    have IH: "pair_up E st bs ?rv ?M =
       (filter (\<lambda>(h, _). h \<notin> set (map fst bs)) ?rv,
        ?M\<lparr>OneOneMatching := OneOneMatching ?M @ matched_entries E st bs ?rv,
           PossiblyDeleted := (\<lambda>k. PossiblyDeleted ?M k @ of_kind st k (unmatched bs ?rv))\<rparr>)"
      using Cons.prems(2-4) hb sb sr
      by (intro Cons.IH) (auto simp: signed_def AList.delete_eq distinct_map_filter)
    have "matched_entries E st bs ?rv = matched_entries E st bs rv" "unmatched bs ?rv = unmatched bs rv"
      using sb(2) by (auto intro!: matched_entries_cong unmatched_cong simp: delete_conv' delete_keys)
    moreover have "filter (\<lambda>(h, _). h \<notin> set (map fst bs)) ?rv = filter (\<lambda>(h', _). h' \<notin> set (map fst (hb # bs))) rv"
      using hb by (auto simp: AList.delete_eq intro!: filter_cong)
    moreover have "matched_entries E st (hb # bs) rv = entry_of E st b r # matched_entries E st bs rv"
      "unmatched (hb # bs) rv = unmatched bs rv"
      using hb Some r by (force simp: matched_entries_def unmatched_def map_filter_simps)+
    ultimately show ?thesis using IH hb Some ins by simp
  qed
qed

lemma foldl_added:
  "foldl (\<lambda>M (h, r). addUnmatchedNode st r False M) M xs =
   M\<lparr>PossiblyAdded := (\<lambda>k. PossiblyAdded M k @ of_kind st k (map snd xs))\<rparr>"
  by (induction xs arbitrary: M)
    (auto simp: addUnmatchedNode_def Let_def of_kind_def fun_eq_iff)

text \<open>The traversal of a map meets every entry once, in some order.\<close>

definition iter_ok :: "match_env \<Rightarrow> bool" where
  "iter_ok E \<longleftrightarrow> (\<forall>xs. mset (iter E xs) = mset xs)"

lemma set_iter: "iter_ok E \<Longrightarrow> set (iter E xs) = set xs"
  by (metis iter_ok_def set_mset_mset)

lemma topDownMatch_result:
  fixes st :: store and baseGraph revisionGraph :: "ptr list"
  assumes "iter_ok E"
  defines "bs \<equiv> collect E st baseGraph" and "rv \<equiv> collect E st revisionGraph"
  shows "topDownMatch E st baseGraph revisionGraph empty_matching =
     \<lparr>OneOneMatching = matched_entries E st (iter E bs) rv,
      PossiblyDeleted = (\<lambda>k. of_kind st k (unmatched (iter E bs) rv)),
      PossiblyAdded = (\<lambda>k. of_kind st k (map snd (iter E (filter (\<lambda>(h, _). h \<notin> set (map fst bs)) rv))))\<rparr>"
proof -
  have "signed E st (iter E bs)"
    using assms(1) signed_perm [of "iter E bs" bs] signed_collect by (simp add: iter_ok_def bs_def)
  then have "pair_up E st (iter E bs) rv empty_matching =
     (filter (\<lambda>(h, _). h \<notin> set (map fst (iter E bs))) rv,
      empty_matching\<lparr>OneOneMatching := matched_entries E st (iter E bs) rv,
        PossiblyDeleted := (\<lambda>k. of_kind st k (unmatched (iter E bs) rv))\<rparr>)"
    using pair_up_spec [of E st "iter E bs" rv empty_matching] signed_collect [of E st revisionGraph]
    by (simp add: rv_def empty_matching_def)
  then show ?thesis
    using set_iter [OF assms(1), of bs]
    by (simp add: topDownMatch_def foldl_added empty_matching_def flip: bs_def rv_def)
qed

lemma set_matched_entries:
  "set (matched_entries E st bs rv) = {entry_of E st b r | h b r. (h, b) \<in> set bs \<and> map_of rv h = Some r}"
  by (induction bs) (auto simp: matched_entries_def map_filter_simps split: option.splits; blast)+

lemma set_unmatched: "set (unmatched bs rv) = {b. \<exists>h. (h, b) \<in> set bs \<and> map_of rv h = None}"
  by (force simp: unmatched_def map_of_eq_None_iff)

lemma set_of_kind: "set (of_kind st k ps) = {p \<in> set ps. Kind (st p) = k}"
  by (auto simp: of_kind_def)

lemma set_collect: "(h, p) \<in> set (collect E st vs) \<longleftrightarrow> last_with E st vs h = Some p"
  using map_of_eq_Some_iff [OF distinct_collect] by (metis map_of_collect)

lemma topDown_sets:
  fixes st :: store and baseGraph revisionGraph :: "ptr list"
  assumes "iter_ok E"
  defines "M \<equiv> topDownMatch E st baseGraph revisionGraph empty_matching"
    and "B \<equiv> last_with E st baseGraph" and "R \<equiv> last_with E st revisionGraph"
  shows "(\<lambda>e. (e_base e, e_rev e)) ` set (OneOneMatching M) = {(b, r). \<exists>h. B h = Some b \<and> R h = Some r} \<and>
         (\<forall>k. set (PossiblyDeleted M k) = {b. Kind (st b) = k \<and> (\<exists>h. B h = Some b \<and> R h = None)}) \<and>
         (\<forall>k. set (PossiblyAdded M k) = {r. Kind (st r) = k \<and> (\<exists>h. R h = Some r \<and> B h = None)})"
proof -
  have *: "h \<notin> set (map fst (collect E st vs)) \<longleftrightarrow> last_with E st vs h = None" for h vs
    by (metis map_of_collect map_of_eq_None_iff set_map)
  note result = topDownMatch_result [OF assms(1), of st baseGraph revisionGraph, folded M_def]
  note sets = set_iter [OF assms(1)] set_collect map_of_collect
  have "(\<lambda>e. (e_base e, e_rev e)) ` set (OneOneMatching M) = {(b, r). \<exists>h. B h = Some b \<and> R h = Some r}"
    by (auto simp: result set_matched_entries sets B_def R_def image_iff) (metis entry_of_simps(1,3))
  moreover have "set (PossiblyDeleted M k) = {b. Kind (st b) = k \<and> (\<exists>h. B h = Some b \<and> R h = None)}" for k
    by (auto simp: result set_unmatched set_of_kind sets B_def R_def)
  moreover have "set (PossiblyAdded M k) = {r. Kind (st r) = k \<and> (\<exists>h. R h = Some r \<and> B h = None)}" for k
    unfolding result * by (force simp: set_of_kind sets B_def R_def)
  ultimately show ?thesis by blast
qed

text \<open>
  C32: After top-down matching the nodes with equal signatures are matched, the other nodes of the base graph count as possibly deleted
  and those of the revision as possibly added, each in the list of its kind; of several nodes of a graph with one signature
  the last takes part. The order in which the maps are traversed does not matter.
\<close>

theorem topDownMatch_partition:
  fixes st :: store and baseGraph revisionGraph :: "ptr list"
  assumes "iter_ok E"
  defines "M \<equiv> topDownMatch E st baseGraph revisionGraph empty_matching"
    and "B \<equiv> last_with E st baseGraph" and "R \<equiv> last_with E st revisionGraph"
  shows "(\<lambda>e. (e_base e, e_rev e)) ` set (OneOneMatching M) = {(b, r). \<exists>h. B h = Some b \<and> R h = Some r} \<and>
         (\<forall>k. set (PossiblyDeleted M k) = {b. Kind (st b) = k \<and> (\<exists>h. B h = Some b \<and> R h = None)}) \<and>
         (\<forall>k. set (PossiblyAdded M k) = {r. Kind (st r) = k \<and> (\<exists>h. R h = Some r \<and> B h = None)})"
  unfolding M_def B_def R_def by (rule topDown_sets [OF assms(1)])

subsection \<open>No node is lost and none is matched twice\<close>

text \<open>
  What \<open>boost::maximum_weighted_matching\<close> promises: the result is a matching along edges of the graph.
  That its weight is maximal is not used.
\<close>

definition is_matching :: "(nat \<times> nat \<times> double) list \<Rightarrow> (nat \<Rightarrow> nat option) \<Rightarrow> bool" where
  "is_matching es mate \<longleftrightarrow>
     (\<forall>i j. mate i = Some j \<longrightarrow> mate j = Some i \<and> (\<exists>w. (i, j, w) \<in> set es \<or> (j, i, w) \<in> set es))"

definition mwm_ok :: "match_env \<Rightarrow> bool" where
  "mwm_ok E \<longleftrightarrow> (\<forall>n es. is_matching es (mwm E n es))"

text \<open>The nodes of one side that a loop works on, and what holds of them throughout.\<close>

definition base_side :: "loop_state \<Rightarrow> ptr list" where
  "base_side s = map e_base (oneone s) @ bases s"

definition rev_side :: "loop_state \<Rightarrow> ptr list" where
  "rev_side s = map e_rev (oneone s) @ revs s"

definition entry_ok :: "match_env \<Rightarrow> store \<Rightarrow> entry \<Rightarrow> bool" where
  "entry_ok E st e \<longleftrightarrow> e_bhash e = sig E st (e_base e) \<and> e_rhash e = sig E st (e_rev e) \<and>
     (sig E st (e_base e) = sig E st (e_rev e) \<or> Kind (st (e_base e)) = Kind (st (e_rev e)))"

definition loop_ok :: "match_env \<Rightarrow> store \<Rightarrow> loop_state \<Rightarrow> bool" where
  "loop_ok E st s \<longleftrightarrow> (\<forall>e \<in> set (oneone s). entry_ok E st e) \<and>
     distinct (map (sig E st) (base_side s)) \<and> distinct (map (sig E st) (rev_side s))"

definition conserves :: "loop_state \<Rightarrow> loop_state \<Rightarrow> bool" where
  "conserves s s' \<longleftrightarrow> mset (base_side s') = mset (base_side s) \<and> mset (rev_side s') = mset (rev_side s) \<and>
     set (bases s') \<subseteq> set (bases s) \<and> set (revs s') \<subseteq> set (revs s)"

lemma conserves_refl [simp]: "conserves s s"
  by (simp add: conserves_def)

lemma conserves_trans: "conserves s s' \<Longrightarrow> conserves s' s'' \<Longrightarrow> conserves s s''"
  unfolding conserves_def by (metis subset_trans)

lemma conserves_length: "conserves s s' \<Longrightarrow> length (oneone s') + length (bases s') = length (oneone s) + length (bases s)"
  using mset_eq_length [of "base_side s'" "base_side s"] by (simp add: conserves_def base_side_def)

text \<open>Erasing the nodes with the signature of one node erases that node alone.\<close>

lemma filter_sig:
  assumes "distinct (map f xs)" and "x \<in> set xs"
  shows "mset xs = add_mset x (mset (filter (\<lambda>p. f p \<noteq> f x) xs))"
proof -
  have "filter (\<lambda>p. f p \<noteq> f x) xs = filter (\<lambda>p. p \<noteq> x) xs"
    using assms by (intro filter_cong) (auto dest: inj_onD simp: distinct_map)
  also have "\<dots> = remove1 x xs"
    using assms by (simp add: distinct_map distinct_remove1_removeAll removeAll_filter_not_eq eq_commute)
  finally show ?thesis using assms(2) by simp
qed

lemma distinct_perm: "mset xs = mset ys \<Longrightarrow> distinct (map f xs) \<longleftrightarrow> distinct (map f ys)"
  by (metis mset_eq_imp_distinct_iff mset_map)

lemma take_pair_keeps:
  assumes ok: "loop_ok E st s" and b: "b \<in> set (bases s)" and r: "r \<in> set (revs s)" and k: "Kind (st b) = Kind (st r)"
  shows "loop_ok E st (take_pair E st b r s)" and "conserves s (take_pair E st b r s)"
    and "set (bases (take_pair E st b r s)) = set (bases s) - {b}"
    and "set (revs (take_pair E st b r s)) = set (revs s) - {r}"
    and "length (oneone (take_pair E st b r s)) = length (oneone s) + 1"
proof -
  let ?s = "take_pair E st b r s"
  have db: "distinct (map (sig E st) (base_side s))" and dr: "distinct (map (sig E st) (rev_side s))"
    and es: "\<forall>e \<in> set (oneone s). entry_ok E st e" using ok by (simp_all add: loop_ok_def)
  have "sig E st b \<notin> sig E st ` e_base ` set (oneone s)" "sig E st r \<notin> sig E st ` e_rev ` set (oneone s)"
    using db dr b r by (auto simp: base_side_def rev_side_def)
  moreover have "e_bhash ` set (oneone s) = sig E st ` e_base ` set (oneone s)" "e_rhash ` set (oneone s) = sig E st ` e_rev ` set (oneone s)"
    using es by (force simp: entry_ok_def image_iff)+
  ultimately have new: "oneone ?s = oneone s @ [entry_of E st b r]"
    by (simp add: take_pair_def bimap_insert_new)
  have fb: "mset (bases s) = add_mset b (mset (bases ?s))" and fr: "mset (revs s) = add_mset r (mset (revs ?s))"
    using db dr b r filter_sig [of "sig E st" "bases s" b] filter_sig [of "sig E st" "revs s" r]
    by (simp_all add: take_pair_def base_side_def rev_side_def)
  have "set (bases ?s) \<subseteq> set (bases s)" "set (revs ?s) \<subseteq> set (revs s)" by (auto simp: take_pair_def)
  then show cons: "conserves s ?s" by (simp add: conserves_def base_side_def rev_side_def new fb fr)
  have "entry_ok E st (entry_of E st b r)" using k by (simp add: entry_ok_def)
  then show "loop_ok E st ?s"
    using es db dr cons distinct_perm [of "base_side ?s" "base_side s" "sig E st"]
      distinct_perm [of "rev_side ?s" "rev_side s" "sig E st"]
    by (simp add: loop_ok_def new conserves_def)
  show "set (bases ?s) = set (bases s) - {b}" "set (revs ?s) = set (revs s) - {r}"
    using db dr b r by (auto simp: take_pair_def base_side_def rev_side_def distinct_map dest: inj_onD)
  show "length (oneone ?s) = length (oneone s) + 1" by (simp add: new)
qed

text \<open>
  The invariant of the loop over the base vertices: the vertices that are still to come are in the
  lists, and at most as many pairs were taken as there were steps.
\<close>

definition loop_inv ::
    "match_env \<Rightarrow> store \<Rightarrow> loop_state \<Rightarrow> (nat \<Rightarrow> nat option) \<Rightarrow> nat \<Rightarrow> loop_state \<Rightarrow> bool" where
  "loop_inv E st s0 mate i s \<longleftrightarrow>
     loop_ok E st s \<and> conserves s0 s \<and>
     (\<forall>i'. i \<le> i' \<and> i' < length (bases s0) \<longrightarrow>
        bases s0 ! i' \<in> set (bases s) \<and> (\<forall>j. mate i' = Some j \<longrightarrow> (bases s0 @ revs s0) ! j \<in> set (revs s))) \<and>
     length (oneone s) \<le> length (oneone s0) + i \<and>
     2 * (length (oneone s) - length (oneone s0)) \<le> length (bases s0) + 1"

lemma loop_inv_Suc: "loop_inv E st s0 mate i s \<Longrightarrow> loop_inv E st s0 mate (i + 1) s"
  unfolding loop_inv_def by (meson add_leD1 le_trans le_add1 add_mono_thms_linordered_semiring(2))

text \<open>The matching pairs each base vertex with a revision vertex of its own.\<close>

definition mates_ok :: "loop_state \<Rightarrow> (nat \<Rightarrow> nat option) \<Rightarrow> bool" where
  "mates_ok s0 mate \<longleftrightarrow>
     (\<forall>i j. mate i = Some j \<longrightarrow> mate j = Some i) \<and>
     (\<forall>i j. mate i = Some j \<and> i < length (bases s0) \<longrightarrow> length (bases s0) \<le> j \<and> j < length (bases s0 @ revs s0))"

lemma mates_differ:
  assumes "mates_ok s0 mate" and "distinct (revs s0)"
    and "mate i = Some j" and "mate i' = Some j'" and "i \<noteq> i'" and "i < length (bases s0)" and "i' < length (bases s0)"
  shows "(bases s0 @ revs s0) ! j \<noteq> (bases s0 @ revs s0) ! j'"
proof -
  have "j \<noteq> j'" using assms(1,3-5) unfolding mates_ok_def by (metis option.inject)
  moreover have "length (bases s0) \<le> j \<and> j < length (bases s0 @ revs s0)"
    "length (bases s0) \<le> j' \<and> j' < length (bases s0 @ revs s0)"
    using assms unfolding mates_ok_def by blast+
  ultimately show ?thesis using assms(2) by (auto simp: nth_append nth_eq_iff_index_eq)
qed

lemma pair_step_inv:
  assumes inv: "loop_inv E st s0 mate i s" and i: "i < length (bases s)"
    and kinds: "\<forall>p \<in> set (bases s0 @ revs s0). Kind (st p) = k"
    and mates: "mates_ok s0 mate" and distinct: "distinct (revs s0)" "distinct (bases s0)"
    and i0: "i < length (bases s0)"
  shows "loop_inv E st s0 mate (i + 1) (pair_step E st limit refused (bases s0 @ revs s0) es mate i s)"
proof (cases "pair_step E st limit refused (bases s0 @ revs s0) es mate i s = s")
  case True
  with inv show ?thesis by (simp only: loop_inv_Suc)
next
  case False
  let ?v = "bases s0 @ revs s0"
  from False obtain j where j: "mate i = Some j"
    and s': "pair_step E st limit refused ?v es mate i s = take_pair E st (?v ! i) (?v ! j) s" (is "_ = ?s")
    by (auto simp: pair_step_def split: option.splits if_splits)
  have b: "?v ! i \<in> set (bases s)" and r: "?v ! j \<in> set (revs s)"
    using inv i0 j by (auto simp: loop_inv_def nth_append)
  have jr: "j < length ?v" using mates i0 j unfolding mates_ok_def by blast
  have k: "Kind (st (?v ! i)) = Kind (st (?v ! j))"
    using kinds i0 jr by (metis nth_mem length_append trans_less_add1)
  have ok: "loop_ok E st s" and cons: "conserves s0 s" using inv by (simp_all add: loop_inv_def)
  note kept = take_pair_keeps [OF ok b r k]
  have todo: "bases s0 ! i' \<in> set (bases ?s) \<and> (\<forall>j'. mate i' = Some j' \<longrightarrow> ?v ! j' \<in> set (revs ?s))"
    if i': "i + 1 \<le> i'" "i' < length (bases s0)" for i'
  proof -
    have "bases s0 ! i' \<in> set (bases s)" and "\<forall>j'. mate i' = Some j' \<longrightarrow> ?v ! j' \<in> set (revs s)"
      using inv i' unfolding loop_inv_def by (meson add_leD1)+
    moreover have "bases s0 ! i' \<noteq> ?v ! i"
      using i' i0 distinct(2) by (simp add: nth_append nth_eq_iff_index_eq)
    moreover have "?v ! j' \<noteq> ?v ! j" if "mate i' = Some j'" for j'
      using mates_differ [OF mates distinct(1) that j] i' i0 by simp
    ultimately show ?thesis by (simp add: kept(3,4))
  qed
  have len: "length (oneone s) + length (bases s) = length (oneone s0) + length (bases s0)"
    using conserves_length [OF cons] .
  have few: "length (oneone s) \<le> length (oneone s0) + i" using inv by (simp add: loop_inv_def)
  have "2 * (length (oneone ?s) - length (oneone s0)) \<le> length (bases s0) + 1"
    using len few i kept(5) by linarith
  then show ?thesis
    using kept(1,2,5) todo few conserves_trans [OF cons kept(2)] by (auto simp: loop_inv_def s')
qed

lemma mate_loop_inv:
  assumes "loop_inv E st s0 mate i s" and "\<forall>p \<in> set (bases s0 @ revs s0). Kind (st p) = k"
    and "mates_ok s0 mate" and "distinct (revs s0)" and "distinct (bases s0)" and "length (bases s) \<le> length (bases s0)"
  shows "\<exists>i'. loop_inv E st s0 mate i' (mate_loop E st limit refused (bases s0 @ revs s0) es mate i s)"
  using assms
proof (induction E st limit refused "bases s0 @ revs s0" es mate i s rule: mate_loop.induct)
  case (1 E st limit refused es mate i s)
  show ?case
  proof (cases "i < length (bases s)")
    case True
    let ?s = "pair_step E st limit refused (bases s0 @ revs s0) es mate i s"
    have "loop_inv E st s0 mate (i + 1) ?s"
      using 1(2-7) True by (intro pair_step_inv) auto
    moreover have "length (bases ?s) \<le> length (bases s0)"
      using 1(7) length_pair_step [of E st limit refused _ es mate i s] by (meson le_trans)
    ultimately show ?thesis
      using 1(1) [OF True _ 1(3-6)] True by (simp add: mate_loop.simps [of E st limit refused _ es mate i s])
  next
    case False
    then show ?thesis using 1(2) by (subst mate_loop.simps) auto
  qed
qed

text \<open>All edges lead from base vertices to revision vertices.\<close>

lemma add_edges_sub: "add_edges f ps = Inr es \<Longrightarrow> (i, j, w) \<in> set es \<Longrightarrow> (i, j) \<in> set ps"
proof (induction ps arbitrary: es)
  case (Cons p ps)
  obtain a b where p: "p = (a, b)" by (cases p)
  show ?case
  proof (cases "f a b")
    case NoEdge
    with Cons p show ?thesis by auto
  next
    case CastFails
    with Cons p show ?thesis by auto
  next
    case (EdgeWeight v)
    with Cons.prems p obtain es' where "add_edges f ps = Inr es'" "es = (a, b, v) # es'"
      by (auto split: sum.splits)
    with Cons p show ?thesis by auto
  qed
qed simp

lemma weighted_match_inv:
  assumes "mwm_ok E" and "loop_ok E st s" and "\<forall>p \<in> set (bases s @ revs s). Kind (st p) = k"
    and "weighted_match E st limit pair refused s = Inr s'"
  shows "loop_ok E st s' \<and> conserves s s' \<and>
         2 * (length (oneone s') - length (oneone s)) \<le> length (bases s) + 1"
proof -
  let ?n = "length (bases s)" and ?m = "length (revs s)" and ?v = "bases s @ revs s"
  from assms(4) obtain es where
    es: "add_edges (\<lambda>i j. pair (st (?v ! i)) (st (?v ! j))) (List.product [0..<?n] [?n..<?n + ?m]) = Inr es"
    and s': "s' = mate_loop E st limit refused ?v es (mwm E (?n + ?m) es) 0 s"
    by (auto simp: weighted_match_def Let_def split: sum.splits)
  let ?mate = "mwm E (?n + ?m) es"
  have edge: "i < ?n \<and> ?n \<le> j \<and> j < ?n + ?m" if "(i, j, w) \<in> set es" for i j w
    using add_edges_sub [OF es that] by auto
  have mate: "?mate j = Some i \<and> (\<exists>w. (i, j, w) \<in> set es \<or> (j, i, w) \<in> set es)" if "?mate i = Some j" for i j
    using assms(1) that unfolding mwm_ok_def is_matching_def by blast
  have right: "?n \<le> j \<and> j < ?n + ?m" if "?mate i = Some j" "i < ?n" for i j
    using mate [OF that(1)] edge that(2) by (metis not_le)
  have mates: "mates_ok s ?mate"
    unfolding mates_ok_def length_append using mate right by blast
  have d: "distinct (bases s)" "distinct (revs s)"
    using assms(2) by (auto simp: loop_ok_def base_side_def rev_side_def distinct_map)
  have "?v ! j \<in> set (revs s)" if "?mate i = Some j" "i < ?n" for i j
    using right [OF that] by (auto simp: nth_append)
  then have "loop_inv E st s ?mate 0 s"
    using assms(2) unfolding loop_inv_def by simp
  from mate_loop_inv [OF this assms(3) mates d(2,1) order_refl, of limit refused es]
  obtain i where "loop_inv E st s ?mate i s'" unfolding s' ..
  then show ?thesis by (simp add: loop_inv_def)
qed

lemma range_matcher_id: "range_matcher st matched s = Inr s' \<Longrightarrow> s' = s"
  by (simp add: range_matcher_def split: sum.splits)


text \<open>The same for a whole matching: all nodes of one side, whatever list they are in.\<close>

definition all_kinds :: "NodeKind list" where
  "all_kinds = [NODE, COMPOSITE_NODE, TRANSLATION_UNIT, LINKAGE_SPEC_LIST, NAMESPACE, TYPE_NODE, ENUM, LAST_COMPOSITE_NODE,
     TERMINAL_NODE, FIELD_DECLARATION, FUNC_DEF, FUNC_OPERATOR_CAST, FUNC_SPECIAL_MEMBER, ORPHAN_COMMENT, TEXTUAL,
     ACCESS_SPECIFIER, LAST_TERMINAL_NODE, COUNT]"

lemma all_kinds: "k \<in> set all_kinds" "distinct all_kinds"
  by (cases k) (simp_all add: all_kinds_def)

definition base_nodes :: "TwoWayMatching \<Rightarrow> ptr list" where
  "base_nodes M = map e_base (OneOneMatching M) @ concat (map (PossiblyDeleted M) all_kinds)"

definition revision_nodes :: "TwoWayMatching \<Rightarrow> ptr list" where
  "revision_nodes M = map e_rev (OneOneMatching M) @ concat (map (PossiblyAdded M) all_kinds)"

definition matching_ok :: "match_env \<Rightarrow> store \<Rightarrow> TwoWayMatching \<Rightarrow> bool" where
  "matching_ok E st M \<longleftrightarrow> (\<forall>e \<in> set (OneOneMatching M). entry_ok E st e) \<and>
     (\<forall>k. (\<forall>p \<in> set (PossiblyDeleted M k). Kind (st p) = k) \<and> (\<forall>p \<in> set (PossiblyAdded M k). Kind (st p) = k)) \<and>
     distinct (map (sig E st) (base_nodes M)) \<and> distinct (map (sig E st) (revision_nodes M))"

text \<open>Replacing the list of one kind, seen from all lists.\<close>

lemma concat_part:
  assumes "k \<in> set ks" and "distinct (map h (xs @ concat (map f ks)))"
  shows "distinct (map h (xs @ f k))"
proof -
  obtain ys zs where "ks = ys @ k # zs" using split_list [OF assms(1)] by blast
  with assms(2) show ?thesis by (auto simp: Int_Un_distrib)
qed

lemma concat_upd:
  assumes "distinct ks" and "k \<in> set ks" and "mset (xs' @ ys) = mset (xs @ f k)"
  shows "mset (xs' @ concat (map (f(k := ys)) ks)) = mset (xs @ concat (map f ks))"
proof -
  obtain as bs where ks: "ks = as @ k # bs" using split_list [OF assms(2)] by blast
  then have "concat (map (f(k := ys)) as) = concat (map f as)" "concat (map (f(k := ys)) bs) = concat (map f bs)"
    using assms(1) by (auto intro!: arg_cong [where f = concat])
  then have "concat (map (f(k := ys)) ks) = concat (map f as) @ ys @ concat (map f bs)"
    using ks by simp
  then have "mset (xs' @ concat (map (f(k := ys)) ks)) = mset (xs' @ ys) + mset (concat (map f as)) + mset (concat (map f bs))"
    by (simp only: mset_append ac_simps)
  also have "\<dots> = mset (xs @ concat (map f ks))" unfolding assms(3) by (simp add: ks ac_simps)
  finally show ?thesis .
qed

text \<open>A matcher that keeps the invariant of its lists keeps that of the matching.\<close>

definition keeps_lists :: "match_env \<Rightarrow> store \<Rightarrow> NodeKind \<Rightarrow> (loop_state \<Rightarrow> match_error + loop_state) \<Rightarrow> bool" where
  "keeps_lists E st k matcher \<longleftrightarrow>
     (\<forall>s s'. loop_ok E st s \<and> (\<forall>p \<in> set (bases s @ revs s). Kind (st p) = k) \<and> matcher s = Inr s' \<longrightarrow>
        loop_ok E st s' \<and> conserves s s')"

definition same_nodes :: "TwoWayMatching \<Rightarrow> TwoWayMatching \<Rightarrow> bool" where
  "same_nodes M M' \<longleftrightarrow> mset (base_nodes M') = mset (base_nodes M) \<and> mset (revision_nodes M') = mset (revision_nodes M)"

lemma run_matcher_keeps:
  assumes ok: "matching_ok E st (fst Mr)" and run: "run_matcher k matcher kp Mr = Inr Mr'"
    and keeps: "\<And>refs. keeps_lists E st k (matcher refs)"
  shows "matching_ok E st (fst Mr') \<and> same_nodes (fst Mr) (fst Mr')"
proof (cases "PossiblyDeleted (fst Mr) k = [] \<or> PossiblyAdded (fst Mr) k = []")
  case True
  with run ok show ?thesis by (auto simp: run_matcher_def Let_def same_nodes_def)
next
  case False
  let ?M = "fst Mr" and ?M' = "fst Mr'"
  let ?s = "\<lparr>oneone = OneOneMatching ?M, bases = PossiblyDeleted ?M k, revs = PossiblyAdded ?M k, refactored = []\<rparr>"
  from False run obtain s' where s': "matcher (snd Mr) ?s = Inr s'"
    and M': "?M' = ?M\<lparr>OneOneMatching := oneone s', PossiblyDeleted := (PossiblyDeleted ?M)(k := bases s'),
                       PossiblyAdded := (PossiblyAdded ?M)(k := revs s')\<rparr>"
    by (auto simp: run_matcher_def Let_def split: sum.splits)
  have "distinct (map (sig E st) (base_side ?s))" "distinct (map (sig E st) (rev_side ?s))"
    using ok concat_part [OF all_kinds(1) [of k], of "sig E st" _ "PossiblyDeleted ?M"]
      concat_part [OF all_kinds(1) [of k], of "sig E st" _ "PossiblyAdded ?M"]
    unfolding matching_ok_def base_nodes_def revision_nodes_def base_side_def rev_side_def loop_state.simps by blast+
  then have "loop_ok E st ?s" using ok by (simp add: loop_ok_def matching_ok_def)
  moreover have "\<forall>p \<in> set (bases ?s @ revs ?s). Kind (st p) = k" using ok by (auto simp: matching_ok_def)
  ultimately have s'_ok: "loop_ok E st s'" and cons: "conserves ?s s'"
    using keeps [of "snd Mr"] s' unfolding keeps_lists_def by blast+
  have same: "same_nodes ?M ?M'"
    using cons
      concat_upd [OF all_kinds(2) all_kinds(1), of "map e_base (oneone s')" "bases s'" "map e_base (OneOneMatching ?M)" "PossiblyDeleted ?M" k]
      concat_upd [OF all_kinds(2) all_kinds(1), of "map e_rev (oneone s')" "revs s'" "map e_rev (OneOneMatching ?M)" "PossiblyAdded ?M" k]
    by (simp add: same_nodes_def base_nodes_def revision_nodes_def M' conserves_def base_side_def rev_side_def)
  have sub: "set (bases s') \<subseteq> set (PossiblyDeleted ?M k)" "set (revs s') \<subseteq> set (PossiblyAdded ?M k)"
    using cons by (simp_all add: conserves_def)
  have "distinct (map (sig E st) (base_nodes ?M'))" "distinct (map (sig E st) (revision_nodes ?M'))"
    using ok same distinct_perm [of "base_nodes ?M'" "base_nodes ?M" "sig E st"]
      distinct_perm [of "revision_nodes ?M'" "revision_nodes ?M" "sig E st"]
    by (simp_all add: matching_ok_def same_nodes_def)
  moreover have "\<forall>e \<in> set (oneone s'). entry_ok E st e" using s'_ok by (simp add: loop_ok_def)
  ultimately show ?thesis using ok same sub by (auto simp: matching_ok_def M')
qed

lemma run_all_keeps:
  assumes "matching_ok E st (fst Mr)" and "run_all fs Mr = Inr Mr'"
    and "\<forall>f \<in> set fs. \<exists>k matcher kp. f = run_matcher k matcher kp \<and> (\<forall>refs. keeps_lists E st k (matcher refs))"
  shows "matching_ok E st (fst Mr') \<and> same_nodes (fst Mr) (fst Mr')"
  using assms
proof (induction fs arbitrary: Mr)
  case Nil
  then show ?case by (simp add: same_nodes_def)
next
  case (Cons f fs)
  from Cons.prems(2) obtain Mr1 where Mr1: "f Mr = Inr Mr1" "run_all fs Mr1 = Inr Mr'" by (auto split: sum.splits)
  have "matching_ok E st (fst Mr1) \<and> same_nodes (fst Mr) (fst Mr1)"
  proof -
    obtain k matcher kp where f: "f = run_matcher k matcher kp" "\<And>refs. keeps_lists E st k (matcher refs)"
      using Cons.prems(3) by auto
    show ?thesis by (rule run_matcher_keeps [OF Cons.prems(1) Mr1(1) [unfolded f(1)] f(2)])
  qed
  with Cons.IH [OF _ Mr1(2)] Cons.prems(3) show ?case by (auto simp: same_nodes_def)
qed

lemma keeps_weighted: "mwm_ok E \<Longrightarrow> keeps_lists E st k (weighted_match E st limit pair refused)"
  unfolding keeps_lists_def using weighted_match_inv by blast

lemma keeps_range: "keeps_lists E st k (range_matcher st matched)"
  unfolding keeps_lists_def using range_matcher_id by fastforce

lemmas matcher_defs =
  TranslationUnitMatcher_match_def LinkageSpecListMatcher_match_def NamespaceMatcher_match_def
  TypeSpecifierMatcher_match_def EnumMatcher_match_def FieldDeclMatcher_match_def FuncDefMatcher_match_def
  FuncSpecialMemberMatcher_match_def TextualMatcher_match_def

lemma bottomUpMatch_keeps:
  assumes "mwm_ok E" and "matching_ok E st M" and "bottomUpMatch E st M = Inr M'"
  shows "matching_ok E st M' \<and> same_nodes M M'"
proof -
  from assms(3) obtain refs where "run_all (matchers E st) (M, []) = Inr (M', refs)"
    by (auto simp: bottomUpMatch_def map_sum_def split: sum.splits)
  moreover have "\<forall>f \<in> set (matchers E st). \<exists>k matcher kp. f = run_matcher k matcher kp \<and> (\<forall>refs. keeps_lists E st k (matcher refs))"
    unfolding matchers_def matcher_defs
    using keeps_weighted [OF assms(1)] keeps_range
    unfolding list.set ball_simps by (intro conjI) blast+
  ultimately show ?thesis using run_all_keeps [of E st "(M, [])"] assms(2) by fastforce
qed


subsection \<open>The whole matching\<close>

lemma concat_of_kind_Cons:
  assumes "distinct ks"
  shows "mset (concat (map (\<lambda>k. of_kind st k (p # ps)) ks)) =
         (if Kind (st p) \<in> set ks then {#p#} else {#}) + mset (concat (map (\<lambda>k. of_kind st k ps) ks))"
  using assms by (induction ks) (auto simp: of_kind_def)

lemma concat_of_kind: "mset (concat (map (\<lambda>k. of_kind st k ps) all_kinds)) = mset ps"
proof (induction ps)
  case Nil
  then show ?case by (simp add: of_kind_def)
next
  case (Cons p ps)
  then show ?case using concat_of_kind_Cons [OF all_kinds(2)] all_kinds(1) by simp
qed

lemma matched_entries_simps [simp]:
  "matched_entries E st [] rv = []"
  "matched_entries E st ((h, b) # bs) rv =
     (case map_of rv h of None \<Rightarrow> matched_entries E st bs rv | Some r \<Rightarrow> entry_of E st b r # matched_entries E st bs rv)"
  by (simp_all add: matched_entries_def map_filter_simps split: option.splits)

lemma unmatched_simps [simp]:
  "unmatched [] rv = []"
  "unmatched ((h, b) # bs) rv = (if map_of rv h = None then b # unmatched bs rv else unmatched bs rv)"
  by (simp_all add: unmatched_def map_of_eq_None_iff)

lemma matched_base: "mset (map e_base (matched_entries E st bs rv) @ unmatched bs rv) = mset (map snd bs)"
  by (induction bs) (auto split: option.splits)

lemma matched_rev_sigs:
  assumes "signed E st rv"
  shows "map (sig E st) (map e_rev (matched_entries E st bs rv)) = map fst (filter (\<lambda>(h, _). map_of rv h \<noteq> None) bs)"
proof -
  have "sig E st r = h" if "map_of rv h = Some r" for h r
    using assms map_of_SomeD [OF that] by (auto simp: signed_def)
  then show ?thesis by (induction bs) (auto split: option.splits)
qed

lemma matched_revisions:
  assumes "signed E st bs" and "signed E st rv" and "set bs' = set bs"
  shows "mset (map e_rev (matched_entries E st bs rv) @ map snd (filter (\<lambda>(h, _). h \<notin> set (map fst bs')) rv)) = mset (map snd rv)"
    (is "mset ?xs = mset ?ys")
proof -
  have sigs: "map (sig E st) (map snd xs) = map fst xs" if "set xs \<subseteq> set rv" for xs
    using assms(2) that unfolding signed_def by (fastforce intro: map_cong)
  have "distinct (map (sig E st) ?ys)" using sigs [of rv] assms(2) by (simp only: subset_refl signed_def)
  then have "distinct ?ys" by (simp only: distinct_map)
  moreover have "distinct (map (sig E st) ?xs)"
  proof -
    let ?left = "filter (\<lambda>(h, _). h \<notin> set (map fst bs')) rv"
    have "map (sig E st) ?xs = map fst (filter (\<lambda>(h, _). map_of rv h \<noteq> None) bs) @ map fst ?left"
      using matched_rev_sigs [OF assms(2)] sigs [of ?left] by (simp only: map_append filter_is_subset)
    moreover have "distinct (map fst (filter P bs))" "distinct (map fst ?left)" for P
      using assms(1,2) distinct_map_filter by (auto simp: signed_def)
    moreover have "set (map fst (filter P bs)) \<inter> set (map fst ?left) = {}" for P
      using assms(3) by force
    ultimately show ?thesis by (simp only: distinct_append)
  qed
  then have "distinct ?xs" by (simp only: distinct_map)
  moreover have "set ?xs = set ?ys"
  proof -
    have "map_of rv h = Some r \<longleftrightarrow> (h, r) \<in> set rv" for h r using assms(2) by (simp add: signed_def)
    then show ?thesis using assms(3) by (force simp: set_matched_entries)
  qed
  ultimately show ?thesis by (simp only: set_eq_iff_mset_eq_distinct)
qed

lemma topDownMatch_ok:
  fixes st :: store and baseGraph revisionGraph :: "ptr list"
  assumes "iter_ok E"
  defines "M \<equiv> topDownMatch E st baseGraph revisionGraph empty_matching"
  shows "matching_ok E st M" and "mset (base_nodes M) = mset (map snd (collect E st baseGraph))"
    and "mset (revision_nodes M) = mset (map snd (collect E st revisionGraph))"
proof -
  let ?bs = "collect E st baseGraph" and ?rv = "collect E st revisionGraph"
  note result = topDownMatch_result [OF assms(1), of st baseGraph revisionGraph, folded M_def]
  have perm: "mset (iter E xs) = mset xs" for xs using assms(1) by (simp add: iter_ok_def)
  have sb: "signed E st (iter E ?bs)" using signed_perm [OF perm] signed_collect by blast
  show base: "mset (base_nodes M) = mset (map snd ?bs)"
    using matched_base [of E st "iter E ?bs" ?rv] perm [of ?bs]
    by (simp add: base_nodes_def result concat_of_kind)
  show rev: "mset (revision_nodes M) = mset (map snd ?rv)"
    using matched_revisions [OF sb signed_collect set_iter [OF assms(1), symmetric], of revisionGraph] perm
    by (simp add: revision_nodes_def result concat_of_kind)
  have "distinct (map (sig E st) (map snd (collect E st vs)))" for vs
  proof -
    have "map (sig E st) (map snd (collect E st vs)) = map fst (collect E st vs)" using sig_collect by force
    then show ?thesis using distinct_collect by metis
  qed
  then have "distinct (map (sig E st) (base_nodes M))" "distinct (map (sig E st) (revision_nodes M))"
    using base rev distinct_perm by metis+
  moreover have "entry_ok E st e" if "e \<in> set (OneOneMatching M)" for e
  proof -
    from that obtain h b r where e: "e = entry_of E st b r" "(h, b) \<in> set (iter E ?bs)" "map_of ?rv h = Some r"
      by (auto simp: result set_matched_entries)
    then have "sig E st b = h" "sig E st r = h"
      using sb map_of_SomeD [OF e(3)] sig_collect by (auto simp: signed_def)
    with e(1) show ?thesis by (simp add: entry_ok_def)
  qed
  ultimately show "matching_ok E st M" by (auto simp: matching_ok_def result set_of_kind)
qed

text \<open>
  C7: A matching of two graphs that is computed without error loses no node and uses none twice: every base node that takes part
  is in exactly one matched pair or once in the list of possibly deleted nodes of its kind, every revision node in exactly one pair or
  once in the list of possibly added nodes of its kind; the two nodes of a pair have the same signature or the same kind.
\<close>

theorem match_graphs_conserves:
  assumes "iter_ok E" and "mwm_ok E" and "match_graphs E st baseGraph revisionGraph = Inr M"
  shows "mset (base_nodes M) = mset (map snd (collect E st baseGraph)) \<and>
         mset (revision_nodes M) = mset (map snd (collect E st revisionGraph)) \<and>
         matching_ok E st M"
  using bottomUpMatch_keeps [OF assms(2) topDownMatch_ok(1) [OF assms(1)] assms(3) [unfolded match_graphs_def]]
    topDownMatch_ok(2,3) [OF assms(1), of st baseGraph revisionGraph]
  by (simp add: same_nodes_def)

text \<open>
  C36: A matcher that pairs nodes by similarity takes at most half of the base nodes, rounded up, however many of them the maximum
  weighted matching pairs: the loop compares its index with the size of the list it shortens.
\<close>

theorem weighted_match_half:
  assumes "mwm_ok E" and "loop_ok E st s" and "\<forall>p \<in> set (bases s @ revs s). Kind (st p) = k"
    and "weighted_match E st limit pair refused s = Inr s'"
  shows "length (oneone s') - length (oneone s) \<le> (length (bases s) + 1) div 2"
  using weighted_match_inv [OF assms] by (simp add: less_eq_div_iff_mult_less_eq)

subsection \<open>When matching returns\<close>

lemma mate_loop_sub:
  "set (bases (mate_loop E st limit refused verts es mate i s)) \<subseteq> set (bases s) \<and>
   set (revs (mate_loop E st limit refused verts es mate i s)) \<subseteq> set (revs s)"
proof (induction E st limit refused verts es mate i s rule: mate_loop.induct)
  case (1 E st limit refused verts es mate i s)
  have "set (bases (pair_step E st limit refused verts es mate i s)) \<subseteq> set (bases s)"
    "set (revs (pair_step E st limit refused verts es mate i s)) \<subseteq> set (revs s)"
    by (auto simp: pair_step_def take_pair_def split: option.splits)
  with 1 show ?case by (subst (1 2) mate_loop.simps) (auto split: if_splits)
qed

lemma add_edges_total: "\<forall>(i, j) \<in> set ps. f i j \<noteq> CastFails \<Longrightarrow> \<exists>es. add_edges f ps = Inr es"
  by (induction f ps rule: add_edges.induct) (auto split: pair_edge.splits)

text \<open>The lists of a matching hold well-formed nodes of their kind.\<close>

definition typed :: "store \<Rightarrow> TwoWayMatching \<Rightarrow> bool" where
  "typed st M \<longleftrightarrow> (\<forall>k p. p \<in> set (PossiblyDeleted M k) \<union> set (PossiblyAdded M k) \<longrightarrow> wf_node (st p) \<and> Kind (st p) = k)"

definition casts :: "NodeKind \<Rightarrow> (SemanticNode \<Rightarrow> SemanticNode \<Rightarrow> pair_edge) \<Rightarrow> bool" where
  "casts k pair \<longleftrightarrow> (\<forall>b r. wf_node b \<and> wf_node r \<and> Kind b = k \<and> Kind r = k \<longrightarrow> pair b r \<noteq> CastFails)"

lemma as_wf:
  assumes "wf_node n"
  shows "Kind n = FIELD_DECLARATION \<Longrightarrow> \<exists>x. as_FieldDeclaration n = Some x"
    and "Kind n = FUNC_DEF \<Longrightarrow> \<exists>x. as_FuncDef n = Some x"
    and "Kind n = FUNC_SPECIAL_MEMBER \<Longrightarrow> \<exists>x. as_FuncSpecialMember n = Some x"
    and "Kind n = TYPE_NODE \<Longrightarrow> \<exists>x. as_TypeDecl n = Some x"
    and "Kind n = NAMESPACE \<Longrightarrow> \<exists>x. as_Namespace n = Some x"
    and "Kind n = ENUM \<Longrightarrow> \<exists>x. as_Enum n = Some x"
    and "Kind n = LINKAGE_SPEC_LIST \<Longrightarrow> \<exists>x. as_LinkageSpec n = Some x"
  using assms by (cases "Data n"; simp add: wf_node_def as_defs isa_defs)+

lemma casts_pairs:
  "casts FIELD_DECLARATION (FieldDecl_pair E st)" "casts FUNC_DEF (FuncDef_pair E st)"
  "casts FUNC_SPECIAL_MEMBER (FuncSpecialMember_pair E st)" "casts TYPE_NODE (TypeSpecifier_pair E st)"
  "casts NAMESPACE (Namespace_pair E st)"
  unfolding casts_def FieldDecl_pair_def FuncDef_pair_def FuncSpecialMember_pair_def TypeSpecifier_pair_def Namespace_pair_def
  using as_wf by (auto split: option.splits) (metis option.distinct(1))+

definition same_lists :: "NodeKind \<Rightarrow> TwoWayMatching \<Rightarrow> TwoWayMatching \<Rightarrow> bool" where
  "same_lists k M M' \<longleftrightarrow> PossiblyDeleted M' k = PossiblyDeleted M k \<and> PossiblyAdded M' k = PossiblyAdded M k"

definition passes :: "store \<Rightarrow> NodeKind \<Rightarrow> (bottom_up \<Rightarrow> match_error + bottom_up) \<Rightarrow> bool" where
  "passes st k f \<longleftrightarrow> (\<forall>Mr. typed st (fst Mr) \<longrightarrow>
     (\<exists>Mr'. f Mr = Inr Mr' \<and> typed st (fst Mr') \<and> (\<forall>k'. k' \<noteq> k \<longrightarrow> same_lists k' (fst Mr) (fst Mr'))))"

lemma passesE:
  assumes "passes st k f" and "typed st (fst Mr)"
  obtains Mr' where "f Mr = Inr Mr'" and "typed st (fst Mr')" and "\<And>k'. k' \<noteq> k \<Longrightarrow> same_lists k' (fst Mr) (fst Mr')"
  using assms unfolding passes_def by blast

lemma weighted_step:
  assumes "typed st (fst Mr)" and "casts k pair"
  shows "\<exists>Mr'. run_matcher k (\<lambda>refs. weighted_match E st limit pair (refused refs)) kp Mr = Inr Mr' \<and>
               typed st (fst Mr') \<and> (\<forall>k'. k' \<noteq> k \<longrightarrow> same_lists k' (fst Mr) (fst Mr'))"
    (is "\<exists>Mr'. run_matcher k ?matcher kp Mr = _ \<and> _")
proof (cases "PossiblyDeleted (fst Mr) k = [] \<or> PossiblyAdded (fst Mr) k = []")
  case True
  with assms(1) show ?thesis by (auto simp: run_matcher_def Let_def same_lists_def)
next
  case False
  let ?M = "fst Mr"
  let ?s = "\<lparr>oneone = OneOneMatching ?M, bases = PossiblyDeleted ?M k, revs = PossiblyAdded ?M k, refactored = []\<rparr>"
  let ?v = "bases ?s @ revs ?s"
  let ?ps = "List.product [0..<length (bases ?s)] [length (bases ?s)..<length (bases ?s) + length (revs ?s)]"
  have "pair (st (?v ! i)) (st (?v ! j)) \<noteq> CastFails" if "(i, j) \<in> set ?ps" for i j
  proof -
    have "i < length ?v" "j < length ?v" using that by auto
    then have "?v ! i \<in> set ?v" "?v ! j \<in> set ?v" by (simp_all only: nth_mem)
    then show ?thesis using assms(1,2) unfolding typed_def casts_def by auto
  qed
  then obtain es where "add_edges (\<lambda>i j. pair (st (?v ! i)) (st (?v ! j))) ?ps = Inr es"
    using add_edges_total [of ?ps "\<lambda>i j. pair (st (?v ! i)) (st (?v ! j))"] by blast
  then have "?matcher (snd Mr) ?s =
      Inr (mate_loop E st limit (refused (snd Mr)) ?v es (mwm E (length (bases ?s) + length (revs ?s)) es) 0 ?s)"
    by (simp add: weighted_match_def Let_def)
  then obtain s' where s': "?matcher (snd Mr) ?s = Inr s'" "set (bases s') \<subseteq> set (bases ?s)" "set (revs s') \<subseteq> set (revs ?s)"
    using mate_loop_sub by blast
  with False have run: "run_matcher k ?matcher kp Mr =
      Inr (?M\<lparr>OneOneMatching := oneone s', PossiblyDeleted := (PossiblyDeleted ?M)(k := bases s'),
              PossiblyAdded := (PossiblyAdded ?M)(k := revs s')\<rparr>, if kp then refactored s' else snd Mr)"
    by (simp add: run_matcher_def Let_def)
  show ?thesis
    unfolding run using assms(1) s'(2,3) by (auto simp: typed_def same_lists_def)
qed

lemma passes_weighted: "casts k pair \<Longrightarrow> passes st k (run_matcher k (\<lambda>refs. weighted_match E st limit pair (refused refs)) kp)"
  unfolding passes_def using weighted_step by blast

lemma passes_matchers:
  "passes st NAMESPACE (run_matcher NAMESPACE (\<lambda>_. NamespaceMatcher_match E st) False)"
  "passes st TYPE_NODE (run_matcher TYPE_NODE (\<lambda>_. TypeSpecifierMatcher_match E st) True)"
  "passes st FIELD_DECLARATION (run_matcher FIELD_DECLARATION (FieldDeclMatcher_match E st) False)"
  "passes st FUNC_DEF (run_matcher FUNC_DEF (FuncDefMatcher_match E st) False)"
  "passes st FUNC_SPECIAL_MEMBER (run_matcher FUNC_SPECIAL_MEMBER (\<lambda>_. FuncSpecialMemberMatcher_match E st) False)"
  unfolding matcher_defs by (rule passes_weighted casts_pairs)+

definition clash :: "store \<Rightarrow> (SemanticNode \<Rightarrow> SemanticNode \<Rightarrow> bool option) \<Rightarrow> NodeKind \<Rightarrow> TwoWayMatching \<Rightarrow> bool" where
  "clash st matched k M \<longleftrightarrow>
     (\<exists>b \<in> set (PossiblyDeleted M k). \<exists>r \<in> set (PossiblyAdded M k). matched (st b) (st r) = Some True)"

lemma range_match_result:
  assumes "\<forall>(b, r) \<in> set ps. matched b r \<noteq> None"
  shows "range_match matched ps =
         (if \<exists>(b, r) \<in> set ps. matched b r = Some True then Inl IteratorInvalidated else Inr ())"
  using assms by (induction matched ps rule: range_match.induct) (auto split: option.splits bool.splits)

lemma range_step:
  assumes "\<forall>b \<in> set (PossiblyDeleted (fst Mr) k). \<forall>r \<in> set (PossiblyAdded (fst Mr) k). matched (st b) (st r) \<noteq> None"
  shows "run_matcher k (\<lambda>_. range_matcher st matched) False Mr =
         (if clash st matched k (fst Mr) then Inl IteratorInvalidated else Inr Mr)"
proof -
  have "range_match (\<lambda>b r. matched (st b) (st r)) (List.product (PossiblyDeleted (fst Mr) k) (PossiblyAdded (fst Mr) k)) =
        (if clash st matched k (fst Mr) then Inl IteratorInvalidated else Inr ())"
    using assms by (subst range_match_result) (auto simp: clash_def)
  then show ?thesis
    by (cases Mr) (auto simp: run_matcher_def Let_def range_matcher_def clash_def)
qed


lemma typed_matched:
  assumes "typed st M" and "b \<in> set (PossiblyDeleted M k)" and "r \<in> set (PossiblyAdded M k)"
  shows "k = TRANSLATION_UNIT \<Longrightarrow> TU_isMatched (st b) (st r) \<noteq> None"
    and "k = LINKAGE_SPEC_LIST \<Longrightarrow> LinkageSpec_isMatched (st b) (st r) \<noteq> None"
    and "k = ENUM \<Longrightarrow> Enum_isMatched E (st b) (st r) \<noteq> None"
proof -
  have w: "wf_node (st b)" "wf_node (st r)" "Kind (st b) = k" "Kind (st r) = k" using assms by (auto simp: typed_def)
  show "k = TRANSLATION_UNIT \<Longrightarrow> TU_isMatched (st b) (st r) \<noteq> None"
    using w by (simp add: TU_isMatched_def isa_TranslationUnit_def)
  show "k = LINKAGE_SPEC_LIST \<Longrightarrow> LinkageSpec_isMatched (st b) (st r) \<noteq> None"
    using w as_wf(7) [of "st b"] as_wf(7) [of "st r"] by (auto simp: LinkageSpec_isMatched_def)
  show "k = ENUM \<Longrightarrow> Enum_isMatched E (st b) (st r) \<noteq> None"
    using w as_wf(6) [of "st b"] as_wf(6) [of "st r"] by (auto simp: Enum_isMatched_def Let_def)
qed

lemma clash_same_lists: "same_lists k M M' \<Longrightarrow> clash st matched k M' = clash st matched k M"
  by (simp add: clash_def same_lists_def)

text \<open>Translation units with equal names have equal signatures, so none of them is left for the second phase.\<close>

lemma no_TU_clash:
  assumes "typed st M" and "\<forall>b \<in> set (PossiblyDeleted M TRANSLATION_UNIT). \<forall>r \<in> set (PossiblyAdded M TRANSLATION_UNIT).
      sig E st b \<noteq> sig E st r"
  shows "\<not> clash st TU_isMatched TRANSLATION_UNIT M"
proof
  assume "clash st TU_isMatched TRANSLATION_UNIT M"
  then obtain b r where br: "b \<in> set (PossiblyDeleted M TRANSLATION_UNIT)" "r \<in> set (PossiblyAdded M TRANSLATION_UNIT)"
    "QualifiedName (st b) = QualifiedName (st r)"
    by (auto simp: clash_def TU_isMatched_def split: if_splits)
  have "wf_node (st b)" "wf_node (st r)" "Kind (st b) = TRANSLATION_UNIT" "Kind (st r) = TRANSLATION_UNIT"
    using assms(1) br(1,2) by (auto simp: typed_def)
  then have "sig E st b = sig E st r"
    using br(3) by (cases "Data (st b)"; cases "Data (st r)") (simp_all add: wf_node_def sig_def hashSignature_def hash_defs)
  with assms(2) br(1,2) show False by blast
qed

lemma bottomUpMatch_returns:
  assumes t: "typed st M" and TU: "\<not> clash st TU_isMatched TRANSLATION_UNIT M"
  shows "case bottomUpMatch E st M of
           Inl e \<Rightarrow> e = IteratorInvalidated \<and>
             (clash st LinkageSpec_isMatched LINKAGE_SPEC_LIST M \<or> clash st (Enum_isMatched E) ENUM M)
         | Inr M' \<Rightarrow> \<not> clash st LinkageSpec_isMatched LINKAGE_SPEC_LIST M \<and> \<not> clash st (Enum_isMatched E) ENUM M"
proof -
  let ?f = "run_matcher LINKAGE_SPEC_LIST (\<lambda>_. LinkageSpecListMatcher_match st) False"
  have tu: "run_matcher TRANSLATION_UNIT (\<lambda>_. TranslationUnitMatcher_match st) False (M, []) = Inr (M, [])"
    unfolding TranslationUnitMatcher_match_def
    using TU typed_matched(1) [OF t] by (subst range_step) auto
  have ls: "?f (M, []) =
      (if clash st LinkageSpec_isMatched LINKAGE_SPEC_LIST M then Inl IteratorInvalidated else Inr (M, []))"
    unfolding LinkageSpecListMatcher_match_def
    using typed_matched(2) [OF t] by (subst range_step) auto
  obtain Mr1 where 1: "run_matcher NAMESPACE (\<lambda>_. NamespaceMatcher_match E st) False (M, []) = Inr Mr1" "typed st (fst Mr1)"
    "\<And>k'. k' \<noteq> NAMESPACE \<Longrightarrow> same_lists k' M (fst Mr1)"
    using passesE [OF passes_matchers(1), of st "(M, [])" E] t by auto
  obtain Mr2 where 2: "run_matcher TYPE_NODE (\<lambda>_. TypeSpecifierMatcher_match E st) True Mr1 = Inr Mr2" "typed st (fst Mr2)"
    "\<And>k'. k' \<noteq> TYPE_NODE \<Longrightarrow> same_lists k' (fst Mr1) (fst Mr2)"
    using passesE [OF passes_matchers(2) 1(2), of E] by blast
  have same: "same_lists ENUM M (fst Mr2)"
    using 1(3) [of ENUM] 2(3) [of ENUM] by (simp add: same_lists_def)
  have en: "run_matcher ENUM (\<lambda>_. EnumMatcher_match E st) False Mr2 =
      (if clash st (Enum_isMatched E) ENUM M then Inl IteratorInvalidated else Inr Mr2)"
    unfolding EnumMatcher_match_def clash_same_lists [OF same, symmetric]
    using typed_matched(3) [OF 2(2)] by (subst range_step) auto
  obtain Mr3 where 3: "run_matcher FIELD_DECLARATION (FieldDeclMatcher_match E st) False Mr2 = Inr Mr3" "typed st (fst Mr3)"
    using passesE [OF passes_matchers(3) 2(2), of E] by blast
  obtain Mr4 where 4: "run_matcher FUNC_DEF (FuncDefMatcher_match E st) False Mr3 = Inr Mr4" "typed st (fst Mr4)"
    using passesE [OF passes_matchers(4) 3(2), of E] by blast
  obtain Mr5 where 5: "run_matcher FUNC_SPECIAL_MEMBER (\<lambda>_. FuncSpecialMemberMatcher_match E st) False Mr4 = Inr Mr5"
    using passesE [OF passes_matchers(5) 4(2), of E] by blast
  show ?thesis
    using tu ls 1(1) 2(1) en 3(1) 4(1) 5 by (simp add: bottomUpMatch_def matchers_def)
qed

lemma match_graphs_stops:
  fixes st :: store and baseGraph revisionGraph :: "ptr list"
  assumes "iter_ok E" and "\<forall>p \<in> set (baseGraph @ revisionGraph). wf_node (st p)"
  defines "M \<equiv> topDownMatch E st baseGraph revisionGraph empty_matching"
  shows "case match_graphs E st baseGraph revisionGraph of
           Inl e \<Rightarrow> e = IteratorInvalidated \<and>
             (clash st LinkageSpec_isMatched LINKAGE_SPEC_LIST M \<or> clash st (Enum_isMatched E) ENUM M)
         | Inr M' \<Rightarrow> \<not> clash st LinkageSpec_isMatched LINKAGE_SPEC_LIST M \<and> \<not> clash st (Enum_isMatched E) ENUM M"
proof -
  have lists: "set (PossiblyDeleted M k) = {b. Kind (st b) = k \<and> (\<exists>h. last_with E st baseGraph h = Some b \<and> last_with E st revisionGraph h = None)}"
    "set (PossiblyAdded M k) = {r. Kind (st r) = k \<and> (\<exists>h. last_with E st revisionGraph h = Some r \<and> last_with E st baseGraph h = None)}" for k
    using topDown_sets [OF assms(1), of st baseGraph revisionGraph, folded M_def] by simp_all
  have last: "p \<in> set vs \<and> sig E st p = h" if "last_with E st vs h = Some p" for vs h p
    using that nth_mem [of _ "rev vs"] by (auto simp: last_with_def find_Some_iff)
  have "typed st M" unfolding typed_def using lists last assms(2) by auto
  moreover have "\<not> clash st TU_isMatched TRANSLATION_UNIT M"
    using calculation lists last by (intro no_TU_clash [where E = E]) force+
  ultimately show ?thesis unfolding match_graphs_def M_def [symmetric] by (rule bottomUpMatch_returns)
qed

text \<open>
  C29: On graphs of well-formed nodes matching stops exactly when an unmatched linkage specification
  of the base has the parent of one of the revision, or an unmatched enumeration of the base is similar to one of the revision: the loops then go on with iterators that
  \<open>erase\<close> invalidated. Otherwise matching returns.
\<close>

theorem match_graphs_returns:
  fixes st :: store and baseGraph revisionGraph :: "ptr list"
  assumes "iter_ok E" and "\<forall>p \<in> set (baseGraph @ revisionGraph). wf_node (st p)"
  defines "M \<equiv> topDownMatch E st baseGraph revisionGraph empty_matching"
  shows "case match_graphs E st baseGraph revisionGraph of
           Inl e \<Rightarrow> e = IteratorInvalidated \<and>
             (clash st LinkageSpec_isMatched LINKAGE_SPEC_LIST M \<or> clash st (Enum_isMatched E) ENUM M)
         | Inr M' \<Rightarrow> \<not> clash st LinkageSpec_isMatched LINKAGE_SPEC_LIST M \<and> \<not> clash st (Enum_isMatched E) ENUM M"
  unfolding M_def using assms(1,2) by (rule match_graphs_stops)

subsection \<open>An example\<close>

text \<open>Comments with bodies of different lengths, and a matching that pairs the halves of the vertices.\<close>

definition demo_nodes :: store where
  "demo_nodes p =
     TerminalNode_ctor (int p) True ORPHAN_COMMENT [] [] [] [] None [] (replicate (p mod 4) CHR ''x'') 0 1 False OrphanCommentNode"

definition demo_mates :: "nat \<Rightarrow> (nat \<times> nat \<times> double) list \<Rightarrow> nat \<Rightarrow> nat option" where
  "demo_mates n es i =
     (let h = n div 2
      in if i < h \<and> list_ex (\<lambda>(a, b, _). a = i \<and> b = i + h) es then Some (i + h)
         else if h \<le> i \<and> i < 2 * h \<and> list_ex (\<lambda>(a, b, _). a = i - h \<and> b = i) es then Some (i - h)
         else None)"

definition demo_hashers :: hashers where
  "demo_hashers = \<lparr>hash_str = (\<lambda>s. of_nat (length s)), hash_enum = of_nat, hash_size = id, hash_int = of_int\<rparr>"

definition demo_env :: match_env where
  "demo_env = \<lparr>hsh = demo_hashers, collapse = id, mwm = demo_mates, iter = id\<rparr>"

lemma demo_iter: "iter_ok demo_env"
  by (simp add: iter_ok_def demo_env_def)

lemma demo_mwm: "mwm_ok demo_env"
  by (fastforce simp: mwm_ok_def is_matching_def demo_env_def demo_mates_def Let_def list_ex_iff split: if_splits)

lemma demo_wf: "wf_node (demo_nodes p)"
  by (simp add: wf_node_def demo_nodes_def TerminalNode_ctor_def SemanticNode_ctor_def)

lemma demo_kind: "Kind (demo_nodes p) = ORPHAN_COMMENT"
  by (simp add: demo_nodes_def TerminalNode_ctor_def SemanticNode_ctor_def)

lemma demo_wanted: "wanted demo_nodes p"
  by (simp add: wanted_def demo_nodes_def TerminalNode_ctor_def SemanticNode_ctor_def)

lemma demo_sig: "sig demo_env demo_nodes p = hash_combine (hash_combine 1 13) (of_nat (p mod 4))"
  by (simp add: sig_def hashSignature_def demo_nodes_def TerminalNode_ctor_def SemanticNode_ctor_def hash_defs
      demo_env_def demo_hashers_def)

lemma demo_sigs_differ: "sig demo_env demo_nodes 0 \<noteq> sig demo_env demo_nodes 1" "sig demo_env demo_nodes 2 \<noteq> sig demo_env demo_nodes 3"
  unfolding demo_sig hash_combine_def by code_simp+

theorem topDownMatch_partition_witness:
  "(\<lambda>e. (e_base e, e_rev e)) ` set (OneOneMatching (topDownMatch demo_env demo_nodes [0] [4] empty_matching)) = {(0, 4)}"
  using topDownMatch_partition [OF demo_iter, of demo_nodes "[0]" "[4]"]
  by (auto simp: last_with_def demo_wanted demo_sig split: if_splits)

lemma bottomUpMatch_nothing: "(\<And>k. PossiblyDeleted M k = []) \<Longrightarrow> bottomUpMatch E st M = Inr M"
  by (simp add: bottomUpMatch_def matchers_def run_matcher_def)

lemma demo_all_matched: "PossiblyDeleted (topDownMatch demo_env demo_nodes [0] [4] empty_matching) k = []"
  using topDown_sets [OF demo_iter, of demo_nodes "[0]" "[4]"]
  by (auto simp: last_with_def demo_wanted demo_sig split: if_splits)

theorem match_graphs_conserves_witness:
  "\<exists>M. match_graphs demo_env demo_nodes [0] [4] = Inr M \<and> mset (base_nodes M) = {#0#} \<and> mset (revision_nodes M) = {#4#}"
proof -
  obtain M where M: "match_graphs demo_env demo_nodes [0] [4] = Inr M"
    using bottomUpMatch_nothing [OF demo_all_matched] by (simp add: match_graphs_def)
  have "collect demo_env demo_nodes [p] = [(sig demo_env demo_nodes p, p)]" for p
    using demo_wanted by (simp add: collect_def wanted_def)
  with match_graphs_conserves [OF demo_iter demo_mwm M] M show ?thesis by auto
qed

theorem match_graphs_returns_witness:
  "\<exists>M. match_graphs demo_env demo_nodes [0] [4] = Inr M"
  using match_graphs_returns [OF demo_iter, of "[0]" "[4]" demo_nodes] demo_wf
  by (simp add: clash_def demo_all_matched split: sum.splits)

definition demo_loop :: loop_state where
  "demo_loop = \<lparr>oneone = [], bases = [0, 1], revs = [2, 3], refactored = []\<rparr>"

theorem weighted_match_half_witness:
  "\<exists>s'. weighted_match demo_env demo_nodes MIN_SIMI (\<lambda>_ _. EdgeWeight (Some 1)) (\<lambda>_ _. False) demo_loop = Inr s' \<and>
        length (oneone s') \<le> 1"
proof -
  let ?f = "\<lambda>_ _. EdgeWeight (Some 1)"
  let ?ps = "List.product [0..<length (bases demo_loop)] [length (bases demo_loop)..<length (bases demo_loop) + length (revs demo_loop)]"
  obtain es where es: "add_edges ?f ?ps = Inr es" using add_edges_total [of ?ps ?f] by auto
  obtain s' where s': "weighted_match demo_env demo_nodes MIN_SIMI ?f (\<lambda>_ _. False) demo_loop = Inr s'"
    unfolding weighted_match_def Let_def es sum.case by blast
  have "loop_ok demo_env demo_nodes demo_loop"
    using demo_sigs_differ by (simp add: loop_ok_def demo_loop_def base_side_def rev_side_def)
  from weighted_match_half [OF demo_mwm this _ s', of ORPHAN_COMMENT] s' show ?thesis
    by (auto simp: demo_loop_def demo_kind)
qed

end
