(* ===== verification/Printer.thy ===== *)
theory Printer
  imports SemanticNode
begin

section \<open>Printing a merged tree\<close>

text \<open>
  Models \<open>src/core/semantic/pretty_printer.cpp\<close>: signatures, the indentation of code lines, and the
  text of a tree of nodes. The recursion over the children takes fuel; a tree of height \<open>n\<close> needs \<open>n + 1\<close>.
  The call into clang-format is a parameter.
\<close>

datatype print_error = PrintAssertion | PrintDepth

subsection \<open>Signatures\<close>

text \<open>\<open>fmt::join\<close>.\<close>

fun fmt_join :: "string list \<Rightarrow> string \<Rightarrow> string" where
  "fmt_join [] sep = []"
| "fmt_join [x] sep = x"
| "fmt_join (x # y # xs) sep = x @ sep @ fmt_join (y # xs) sep"

definition print_template :: "string \<Rightarrow> string" where
  "print_template t = (if 10 \<le> length t then t @ [NL] else if t \<noteq> [] then t @ '' '' else [])"

definition printFuncDefNodeSignature :: "string \<Rightarrow> FuncDef \<Rightarrow> string" where
  "printFuncDefNodeSignature name x =
     print_template (fd_TemplateParameterList x) @ fd_Attrs x @ fd_BeforeFuncName x @ name
     @ ''('' @ fmt_join (fd_ParameterList x) '', '' @ '')'' @ fd_AfterParameterList x"

definition printFuncOperatorCastSignature :: "string \<Rightarrow> FuncOperatorCast \<Rightarrow> string" where
  "printFuncOperatorCastSignature name x =
     print_template (oc_TemplateParameterList x) @ oc_Attrs x @ oc_BeforeFuncName x @ name
     @ ''('' @ fmt_join (oc_ParameterList x) '', '' @ '')'' @ oc_AfterParameterList x"

definition printFuncSpecialMemberSignature :: "string \<Rightarrow> FuncSpecialMember \<Rightarrow> string" where
  "printFuncSpecialMemberSignature name x =
     print_template (sm_TemplateParameterList x) @ sm_Attrs x @ sm_BeforeFuncName x @ name
     @ ''('' @ fmt_join (sm_ParameterList x) '', '' @ '')''
     @ (if InitList x \<noteq> [] then '': '' @ fmt_join (InitList x) '', '' @ '' '' else [])
     @ (case DefType x of Plain \<Rightarrow> [] | Defaulted \<Rightarrow> '' = default;'' | Deleted \<Rightarrow> '' = delete;'')"

subsection \<open>Indentation\<close>

definition has_mark :: "string \<Rightarrow> bool" where
  "has_mark line \<longleftrightarrow> contains_str line (mark_name ConflictMark.OURS) \<or> contains_str line (mark_name ConflictMark.BASE) \<or>
     contains_str line (mark_name ConflictMark.THEIRS) \<or> contains_str line (mark_name ConflictMark.END)"

definition isblank :: "char \<Rightarrow> bool" where
  "isblank c \<longleftrightarrow> c = CHR '' '' \<or> c = CHR 0x09"

definition indent_line :: "nat \<Rightarrow> nat \<Rightarrow> string \<Rightarrow> string" where
  "indent_line indent collapseSpaceCnt line =
     (let firstCharPos = length (takeWhile isblank line)
      in if has_mark line then line
         else if firstCharPos < indent then replicate (indent - firstCharPos - collapseSpaceCnt) (CHR '' '') @ line
         else line)"

definition indentCodeLines :: "string \<Rightarrow> nat \<Rightarrow> nat \<Rightarrow> string" where
  "indentCodeLines str indent collapseSpaceCnt =
     (let addLastNewLine = str \<noteq> [] \<and> last str = NL;
          indentedStr = concat (map (\<lambda>l. indent_line indent collapseSpaceCnt l @ [NL]) (getlines NL [] str))
      in if indentedStr \<noteq> [] \<and> \<not> addLastNewLine then butlast indentedStr else indentedStr)"

subsection \<open>Nodes\<close>

definition eols :: "int \<Rightarrow> string" where
  "eols n = replicate (nat n) NL"

text \<open>The text of a terminal node before it is indented.\<close>

definition print_signature :: "SemanticNode \<Rightarrow> Terminal \<Rightarrow> string" where
  "print_signature n t =
     (if isa_FuncDef n \<or> isa_FuncOperatorCast n \<or> isa_FuncSpecialMember n
      then if SigUnchanged t then OriginalSignature n
           else case Data n of
                  FuncDefNode x \<Rightarrow> printFuncDefNodeSignature (DisplayName n) x
                | FuncOperatorCastNode x \<Rightarrow> printFuncOperatorCastSignature (DisplayName n) x
                | FuncSpecialMemberNode x \<Rightarrow> printFuncSpecialMemberSignature (DisplayName n) x
                | _ \<Rightarrow> []
      else [])"

definition print_terminal :: "SemanticNode \<Rightarrow> Terminal \<Rightarrow> string" where
  "print_terminal n t = Comment n @ print_signature n t @ Body t @ eols (FollowingEOL n)"

fun composite_of :: "node_data \<Rightarrow> int option" where
  "composite_of (TranslationUnitNode x) = Some (BeforeFirstChildEOL x)"
| "composite_of (NamespaceNode x) = Some (BeforeFirstChildEOL x)"
| "composite_of (LinkageSpecNode x) = Some (BeforeFirstChildEOL x)"
| "composite_of (TypeDeclNode x) = Some (BeforeFirstChildEOL x)"
| "composite_of (EnumNode x) = Some (BeforeFirstChildEOL x)"
| "composite_of _ = None"

text \<open>The line an access specifier gets in front of the first member of its section.\<close>

definition access_line :: "AccessSpecifierKind \<Rightarrow> AccessSpecifierKind \<Rightarrow> string" where
  "access_line prev a = (if a \<noteq> prev \<and> a \<noteq> AS_None \<and> a \<noteq> AS_Default then access_name a @ [NL] else [])"

fun print_members ::
    "(ptr \<Rightarrow> print_error + string) \<Rightarrow> store \<Rightarrow> ptr list \<Rightarrow> AccessSpecifierKind \<Rightarrow> print_error + string" where
  "print_members print st [] prev = Inr []"
| "print_members print st (c # cs) prev =
     (let line = access_line prev (AccessSpecifier (st c))
      in case print c of
           Inl e \<Rightarrow> Inl e
         | Inr s \<Rightarrow>
             (case print_members print st cs (if line = [] then prev else AccessSpecifier (st c)) of
                Inl e \<Rightarrow> Inl e
              | Inr t \<Rightarrow> Inr (line @ s @ t)))"

fun print_children :: "(ptr \<Rightarrow> print_error + string) \<Rightarrow> ptr list \<Rightarrow> print_error + string" where
  "print_children print [] = Inr []"
| "print_children print (c # cs) =
     (case print c of
        Inl e \<Rightarrow> Inl e
      | Inr s \<Rightarrow> (case print_children print cs of Inl e \<Rightarrow> Inl e | Inr t \<Rightarrow> Inr (s @ t)))"

definition closing :: "SemanticNode \<Rightarrow> string" where
  "closing n =
     (case Data n of
        NamespaceNode x \<Rightarrow> '' '' @ NSComment x
      | TypeDeclNode _ \<Rightarrow> '';''
      | EnumNode _ \<Rightarrow> '';''
      | _ \<Rightarrow> [])"

definition print_composite :: "(ptr \<Rightarrow> print_error + string) \<Rightarrow> store \<Rightarrow> SemanticNode \<Rightarrow> int \<Rightarrow> print_error + string" where
  "print_composite print st n beforeEOL =
     (if isa_TranslationUnit n
      then map_sum id (\<lambda>t. eols beforeEOL @ t) (print_children print (Children n))
      else map_sum id (\<lambda>t. Comment n @ OriginalSignature n @ ''{'' @ eols beforeEOL @ t @ ''}'' @ closing n
                             @ eols (FollowingEOL n) @ [NL, NL])
             (print_members print st (Children n) AS_None))"

definition start_column :: "SemanticNode \<Rightarrow> nat" where
  "start_column n = (case StartPoint n of Some (row, column) \<Rightarrow> column | None \<Rightarrow> 0)"

primrec prettyPrintNode :: "store \<Rightarrow> nat \<Rightarrow> ptr \<Rightarrow> print_error + string" where
  "prettyPrintNode st 0 = (\<lambda>p. Inl PrintDepth)"
| "prettyPrintNode st (Suc fuel) =
     (\<lambda>p. let n = st p
          in if isa_Terminal n
             then (case terminal_of (Data n) of
                     None \<Rightarrow> Inl PrintAssertion
                   | Some t \<Rightarrow>
                       (let s = print_terminal n t
                        in Inr (indentCodeLines s (start_column n) (if s \<noteq> [] \<and> last s \<noteq> NL then length s else 0))))
             else if \<not> isa_Composite n then Inl PrintAssertion
             else case composite_of (Data n) of
                    None \<Rightarrow> Inl PrintAssertion
                  | Some beforeEOL \<Rightarrow>
                      map_sum id (\<lambda>s. indentCodeLines s (start_column n) 0)
                        (print_composite (prettyPrintNode st fuel) st n beforeEOL))"

subsection \<open>Translation units\<close>

definition header_guard :: "TranslationUnit \<Rightarrow> print_error + string" where
  "header_guard x =
     (if \<not> IsHeader x then Inr []
      else if TraditionGuard x
           then (if 3 \<le> length (HeaderGuard x) then Inr (HeaderGuard x ! 0 @ [NL] @ HeaderGuard x ! 1 @ [NL])
                 else Inl PrintAssertion)
           else (if HeaderGuard x = [] then Inl PrintAssertion else Inr (HeaderGuard x ! 0)))"

definition print_TU :: "store \<Rightarrow> nat \<Rightarrow> ptr \<Rightarrow> print_error + string" where
  "print_TU st fuel p =
     (case as_TranslationUnit (st p) of
        None \<Rightarrow> Inl PrintAssertion
      | Some x \<Rightarrow>
          (case header_guard x of
             Inl e \<Rightarrow> Inl e
           | Inr guard \<Rightarrow>
               map_sum id
                 (\<lambda>t. Comment (st p) @ [NL] @ guard @ concat (map (\<lambda>d. d @ [NL]) (FrontDecls x)) @ t
                      @ (if IsHeader x \<and> TraditionGuard x then HeaderGuard x ! 2 else []))
                 (prettyPrintNode st fuel p)))"

text \<open>
  The file that is written: its path and its content. \<open>format\<close> is what \<open>FormatSource\<close> makes of the
  content when the style file exists; it leaves the file as it is when it fails.
\<close>

definition FormatSource :: "(string \<Rightarrow> string option) \<Rightarrow> string \<Rightarrow> bool \<times> string" where
  "FormatSource reformat content = (case reformat content of Some s \<Rightarrow> (True, s) | None \<Rightarrow> (False, content))"

definition PrettyPrintTU ::
    "(string \<Rightarrow> string option) \<Rightarrow> bool \<Rightarrow> store \<Rightarrow> nat \<Rightarrow> ptr \<Rightarrow> string \<Rightarrow> print_error + (string \<times> string)" where
  "PrettyPrintTU reformat style_exists st fuel p DestDir =
     map_sum id
       (\<lambda>t. (path_join DestDir (DisplayName (st p)), if style_exists then snd (FormatSource reformat t) else t))
       (print_TU st fuel p)"

subsection \<open>Indentation adds spaces only\<close>

definition no_spaces :: "string \<Rightarrow> string" where
  "no_spaces s = filter (\<lambda>c. c \<noteq> CHR '' '') s"

lemma no_spaces_simps [simp]:
  "no_spaces [] = []" "no_spaces (s @ t) = no_spaces s @ no_spaces t" "no_spaces (c # s) = (if c = CHR '' '' then no_spaces s else c # no_spaces s)"
  by (simp_all add: no_spaces_def)

lemma getlines_text:
  "concat (map (\<lambda>l. l @ [d]) (getlines d acc s)) = (if acc @ s = [] \<or> s \<noteq> [] \<and> last s = d then acc @ s else acc @ s @ [d])"
  by (induction s arbitrary: acc) auto

lemma no_spaces_indent_line: "no_spaces (indent_line i c l) = no_spaces l"
  by (simp add: indent_line_def Let_def no_spaces_def)

lemma no_spaces_indented:
  "no_spaces (concat (map (\<lambda>l. indent_line i c l @ [NL]) ls)) = no_spaces (concat (map (\<lambda>l. l @ [NL]) ls))"
  by (induction ls) (simp_all add: no_spaces_indent_line)

lemma no_spaces_indent: "no_spaces (indentCodeLines s i c) = no_spaces s"
proof (cases "s = [] \<or> last s = NL")
  case True
  then show ?thesis
    by (auto simp: indentCodeLines_def Let_def no_spaces_indented getlines_text)
next
  case False
  let ?X = "concat (map (\<lambda>l. indent_line i c l @ [NL]) (getlines NL [] s))"
  have X: "no_spaces ?X = no_spaces s @ [NL]"
    using False by (simp add: no_spaces_indented getlines_text)
  have "getlines NL [] s \<noteq> []" using False getlines_text [of NL "[]" s] by auto
  then obtain ls l where "getlines NL [] s = ls @ [l]" by (metis rev_exhaust)
  then obtain Y where Y: "?X = Y @ [NL]" by simp
  with X have "no_spaces Y = no_spaces s" by simp
  then show ?thesis using False Y by (simp add: indentCodeLines_def Let_def)
qed

text \<open>A line with a conflict mark stays as it is, so that the conflict can be found again.\<close>

lemma indent_line_mark: "has_mark l \<Longrightarrow> indent_line i c l = l"
  by (simp add: indent_line_def Let_def)

subsection \<open>The text of a tree\<close>

fun members_text :: "(ptr \<Rightarrow> string) \<Rightarrow> store \<Rightarrow> ptr list \<Rightarrow> AccessSpecifierKind \<Rightarrow> string" where
  "members_text f st [] prev = []"
| "members_text f st (c # cs) prev =
     (let line = access_line prev (AccessSpecifier (st c))
      in line @ f c @ members_text f st cs (if line = [] then prev else AccessSpecifier (st c)))"

text \<open>What is printed, without the indentation.\<close>

primrec node_text :: "store \<Rightarrow> nat \<Rightarrow> ptr \<Rightarrow> string" where
  "node_text st 0 = (\<lambda>p. [])"
| "node_text st (Suc n) =
     (\<lambda>p. let x = st p
          in case terminal_of (Data x) of
               Some t \<Rightarrow> print_terminal x t
             | None \<Rightarrow>
                 (let beforeEOL = eols (the (composite_of (Data x)))
                  in if isa_TranslationUnit x then beforeEOL @ concat (map (node_text st n) (Children x))
                     else Comment x @ OriginalSignature x @ ''{'' @ beforeEOL @ members_text (node_text st n) st (Children x) AS_None
                          @ ''}'' @ closing x @ eols (FollowingEOL x) @ [NL, NL]))"

text \<open>Trees of well-formed nodes of less than a given height.\<close>

primrec printable :: "store \<Rightarrow> nat \<Rightarrow> ptr \<Rightarrow> bool" where
  "printable st 0 = (\<lambda>p. False)"
| "printable st (Suc n) =
     (\<lambda>p. wf_node (st p) \<and> (isa_Terminal (st p) \<or> list_all (printable st n) (Children (st p))))"

lemma print_members_text:
  assumes "\<forall>c \<in> set cs. \<exists>s. f c = Inr s \<and> no_spaces s = no_spaces (g c)"
  shows "\<exists>s. print_members f st cs prev = Inr s \<and> no_spaces s = no_spaces (members_text g st cs prev)"
  using assms
proof (induction cs arbitrary: prev)
  case (Cons c cs)
  let ?prev = "if access_line prev (AccessSpecifier (st c)) = [] then prev else AccessSpecifier (st c)"
  from Cons.prems obtain s where "f c = Inr s" "no_spaces s = no_spaces (g c)" by auto
  moreover from Cons obtain t where "print_members f st cs ?prev = Inr t"
    "no_spaces t = no_spaces (members_text g st cs ?prev)"
    by (metis list.set_intros(2))
  ultimately show ?case by (auto simp: Let_def)
qed simp

lemma print_children_text:
  assumes "\<forall>c \<in> set cs. \<exists>s. f c = Inr s \<and> no_spaces s = no_spaces (g c)"
  shows "\<exists>s. print_children f cs = Inr s \<and> no_spaces s = no_spaces (concat (map g cs))"
  using assms
proof (induction cs)
  case (Cons c cs)
  from Cons.prems obtain s where "f c = Inr s" "no_spaces s = no_spaces (g c)" by auto
  moreover from Cons obtain t where "print_children f cs = Inr t" "no_spaces t = no_spaces (concat (map g cs))" by auto
  ultimately show ?case by auto
qed simp

lemma composite_of_Some: "terminal_of d = None \<Longrightarrow> \<exists>b. composite_of d = Some b"
  by (cases d) simp_all

lemma print_node_text:
  assumes "printable st n p"
  shows "\<exists>s. prettyPrintNode st n p = Inr s \<and> no_spaces s = no_spaces (node_text st n p)"
  using assms
proof (induction n arbitrary: p)
  case (Suc n)
  let ?x = "st p"
  have wf: "wf_node ?x" using Suc.prems by simp
  show ?case
  proof (cases "terminal_of (Data ?x)")
    case (Some t)
    then have "isa_Terminal ?x" using wf by (simp add: wf_node_terminal)
    with Some show ?thesis by (simp add: Let_def no_spaces_indent)
  next
    case None
    then have nt: "\<not> isa_Terminal ?x" "isa_Composite ?x" using wf by (simp_all add: wf_node_terminal wf_node_composite)
    obtain b where b: "composite_of (Data ?x) = Some b" using composite_of_Some [OF None] by blast
    have IH: "\<forall>c \<in> set (Children ?x). \<exists>s. prettyPrintNode st n c = Inr s \<and> no_spaces s = no_spaces (node_text st n c)"
      using Suc nt(1) by (auto simp: list_all_iff)
    show ?thesis
      using None nt b print_children_text [OF IH] print_members_text [OF IH, of st AS_None]
      by (auto simp: Let_def print_composite_def no_spaces_indent)
  qed
qed simp

text \<open>
  C13: Printing a tree of well-formed nodes returns when the fuel exceeds its height, and the printed text is that of the nodes
  (comments, signatures, bodies, access specifiers, brackets and line ends, children in order) up to spaces: indentation adds nothing else and
  loses nothing.
\<close>

theorem prettyPrintNode_text:
  "printable st n p \<Longrightarrow>
   \<exists>s. prettyPrintNode st n p = Inr s \<and> no_spaces s = no_spaces (node_text st n p)"
  by (rule print_node_text)

lemma demo_class_printable: "printable demo_class 2 0"
  by (simp add: numeral_2_eq_2 demo_class_kinds)
    (simp add: wf_node_def isa_Terminal_def less_eq_NodeKind_def demo_class_def TerminalNode_ctor_def SemanticNode_ctor_def
      AccessSpecifierNode_ctor_def)

theorem prettyPrintNode_text_witness:
  "\<exists>s. prettyPrintNode demo_class 2 0 = Inr s \<and>
       no_spaces s = ''classA{'' @ [NL] @ ''//c'' @ [NL] @ ''//c'' @ [NL] @ ''};'' @ [NL, NL]"
proof -
  have "no_spaces (node_text demo_class 2 0) = ''classA{'' @ [NL] @ ''//c'' @ [NL] @ ''//c'' @ [NL] @ ''};'' @ [NL, NL]"
    by (simp add: numeral_2_eq_2 demo_class_kinds)
      (simp add: demo_class_def TerminalNode_ctor_def SemanticNode_ctor_def AccessSpecifierNode_ctor_def Let_def
        isa_TranslationUnit_def access_line_def eols_def closing_def print_terminal_def print_signature_def isa_defs Terminal.defs)
  with prettyPrintNode_text [OF demo_class_printable] show ?thesis by simp
qed

end
