(* ===== verification/Merger.thy ===== *)
theory Merger
  imports MatchingFacts Printer DependencyGraph
begin

section \<open>Merging three semantic graphs\<close>

text \<open>
  Models \<open>src/core/semantic/GraphMerger.cpp\<close>, with \<open>git_merge_textual\<close> of \<open>src/utils/gitservice.cpp\<close>. The nodes live in a store;
  merging a base node updates it in place. Since the matchings are hashed by signatures that this changes,
  a lookup finds an entry when the entry was put into the bucket that the present signature of the key leads to and the entry's present
  signature is that signature. Which hash values share a bucket is a parameter, as is the line merge of libgit2.
  The nodes of the three graphs are different objects, so the two revisions are read before the base node is written.

  The recursion takes fuel; \<open>merge_tree\<close> below says how much is enough.
\<close>

datatype merge_error = MergeAssertion | MergeDepth | PrintFails print_error | MatchFails match_error

datatype OrderInfavour = FavourOurs | FavourTheirs

record merge_env =
  m_match :: match_env
  same_bucket :: "u64 \<Rightarrow> u64 \<Rightarrow> bool"
  git_merge_file :: "string \<Rightarrow> string \<Rightarrow> string \<Rightarrow> string option"

record GraphMerger =
  OurMatching :: TwoWayMatching
  TheirMatching :: TwoWayMatching
  OrderInFavour :: OrderInfavour

text \<open>The order is chosen by an environment variable; for any other value the member stays unset.\<close>

definition initOrderInFavour :: "string option \<Rightarrow> OrderInfavour option" where
  "initOrderInFavour order_in_favour =
     (case order_in_favour of
        None \<Rightarrow> Some FavourOurs
      | Some v \<Rightarrow>
          (let s = map tolower v
           in if s = ''ours'' then Some FavourOurs else if s = ''theirs'' then Some FavourTheirs else None))"

subsection \<open>Texts and lists\<close>

definition git_merge_textual :: "merge_env \<Rightarrow> string \<Rightarrow> string \<Rightarrow> string \<Rightarrow> string" where
  "git_merge_textual G ours base theirs =
     (case git_merge_file G ours base theirs of Some s \<Rightarrow> s | None \<Rightarrow> [])"

definition mergeText :: "merge_env \<Rightarrow> string \<Rightarrow> string \<Rightarrow> string \<Rightarrow> string" where
  "mergeText G OurText BaseText TheirText =
     (if OurText = BaseText then TheirText
      else if TheirText = BaseText then OurText
      else git_merge_textual G OurText BaseText TheirText)"

definition insert_at :: "nat \<Rightarrow> 'a list \<Rightarrow> 'a list \<Rightarrow> 'a list" where
  "insert_at i ys xs = take i xs @ ys @ drop i xs"

text \<open>
  One pass over a list: items that are not in the first list are collected and inserted behind the
  last item before them that is; the rest goes to the end. The positions are those of the first list
  before anything was inserted.
\<close>

fun union_loop :: "string list \<Rightarrow> string list \<Rightarrow> string list \<Rightarrow> nat \<Rightarrow> string list \<Rightarrow> string list \<times> nat" where
  "union_loop V1 [] TmpList InsertPos Ret = (Ret @ TmpList, InsertPos)"
| "union_loop V1 (item # Vec) TmpList InsertPos Ret =
     (case find_last_idx (\<lambda>x. x = item) V1 of
        Some i \<Rightarrow> union_loop V1 Vec [] (i + 1) (insert_at InsertPos TmpList Ret)
      | None \<Rightarrow> union_loop V1 Vec (TmpList @ [item]) InsertPos Ret)"

definition mergeStrVecByUnion :: "string list \<Rightarrow> string list \<Rightarrow> string list \<Rightarrow> string list" where
  "mergeStrVecByUnion V1 V2 V3 =
     (let (Ret2, InsertPos) = union_loop V1 V2 [] 0 V1;
          (Ret3, _) = union_loop V1 V3 [] InsertPos Ret2
      in dedup [] Ret3)"

definition mergeListTextually :: "merge_env \<Rightarrow> string list \<Rightarrow> string list \<Rightarrow> string list \<Rightarrow> string list" where
  "mergeListTextually G OurList BaseList TheirList =
     map (\<lambda>sv. if has_mark sv then [NL] @ sv @ [NL] else sv)
       (string_split (mergeText G (string_join OurList [NL]) (string_join BaseList [NL]) (string_join TheirList [NL])) [NL] False)"

subsection \<open>Lookups\<close>

definition node_sig :: "merge_env \<Rightarrow> store \<Rightarrow> ptr \<Rightarrow> u64" where
  "node_sig G st p = sig (m_match G) st p"

definition left_find :: "merge_env \<Rightarrow> store \<Rightarrow> TwoWayMatching \<Rightarrow> ptr \<Rightarrow> ptr option" where
  "left_find G st M p =
     map_option e_rev
       (find (\<lambda>e. same_bucket G (e_bhash e) (node_sig G st p) \<and> node_sig G st (e_base e) = node_sig G st p) (OneOneMatching M))"

definition right_find :: "merge_env \<Rightarrow> store \<Rightarrow> TwoWayMatching \<Rightarrow> ptr \<Rightarrow> ptr option" where
  "right_find G st M p =
     map_option e_base
       (find (\<lambda>e. same_bucket G (e_rhash e) (node_sig G st p) \<and> node_sig G st (e_rev e) = node_sig G st p) (OneOneMatching M))"

text \<open>
  The added nodes below the partner of a base node, by their numbers. The lists of the kinds are
  visited in an unspecified order and sorted afterwards; nodes of one graph have different numbers.
\<close>

definition filterAddedNodes :: "merge_env \<Rightarrow> store \<Rightarrow> TwoWayMatching \<Rightarrow> ptr \<Rightarrow> ptr list" where
  "filterAddedNodes G st M p =
     (let AddedNodes = concat (map (PossiblyAdded M) all_kinds);
          FilteredAdded =
            (case left_find G st M p of
               None \<Rightarrow> []
             | Some q \<Rightarrow>
                 filter (\<lambda>a. case Parent (st a) of None \<Rightarrow> False | Some pa \<Rightarrow> node_sig G st pa = node_sig G st q) AddedNodes)
      in sort_key (\<lambda>a. ID (st a)) FilteredAdded)"

definition removeDuplicates :: "merge_env \<Rightarrow> store \<Rightarrow> ptr list \<Rightarrow> ptr list \<Rightarrow> ptr list" where
  "removeDuplicates G st OurAdded TheirAdded =
     foldl (\<lambda>ours t. filter (\<lambda>a. node_sig G st t \<noteq> node_sig G st a) ours) OurAdded TheirAdded"

text \<open>The siblings next to a node that are not comments of their own.\<close>

definition getNeighbors :: "merge_env \<Rightarrow> store \<Rightarrow> ptr \<Rightarrow> (ptr option \<times> ptr option) option" where
  "getNeighbors G st n =
     (case Parent (st n) of
        None \<Rightarrow> None
      | Some p \<Rightarrow>
          (let cs = Children (st p)
           in case find_idx (\<lambda>c. node_sig G st c = node_sig G st n) cs of
                None \<Rightarrow> None
              | Some i \<Rightarrow>
                  Some (find (\<lambda>c. \<not> isa_OrphanComment (st c)) (rev (take i cs)),
                        find (\<lambda>c. \<not> isa_OrphanComment (st c)) (drop (i + 1) cs))))"

text \<open>Inserting a node of the other side next to a sibling of its own side.\<close>

definition place_added :: "merge_env \<Rightarrow> store \<Rightarrow> ptr list \<Rightarrow> ptr \<Rightarrow> ptr list" where
  "place_added G st merged n =
     (let pos_of = (\<lambda>q. case q of None \<Rightarrow> None | Some s \<Rightarrow> find_idx (\<lambda>c. node_sig G st c = node_sig G st s) merged)
      in case getNeighbors G st n of
           None \<Rightarrow> merged @ [n]
         | Some (PrevSibling, NextSibling) \<Rightarrow>
             (case pos_of PrevSibling of
                Some i \<Rightarrow> insert_at (i + 1) [n] merged
              | None \<Rightarrow> (case pos_of NextSibling of Some i \<Rightarrow> insert_at i [n] merged | None \<Rightarrow> merged @ [n])))"

subsection \<open>Nodes\<close>

fun set_body :: "string \<Rightarrow> node_data \<Rightarrow> node_data" where
  "set_body s (FieldDeclarationNode x) = FieldDeclarationNode (x\<lparr>Body := s\<rparr>)"
| "set_body s (FuncDefNode x) = FuncDefNode (x\<lparr>Body := s\<rparr>)"
| "set_body s (FuncOperatorCastNode x) = FuncOperatorCastNode (x\<lparr>Body := s\<rparr>)"
| "set_body s (FuncSpecialMemberNode x) = FuncSpecialMemberNode (x\<lparr>Body := s\<rparr>)"
| "set_body s (OrphanCommentNode x) = OrphanCommentNode (x\<lparr>Body := s\<rparr>)"
| "set_body s (TextualNode x) = TextualNode (x\<lparr>Body := s\<rparr>)"
| "set_body s (AccessSpecifierNode x) = AccessSpecifierNode (x\<lparr>Body := s\<rparr>)"
| "set_body s d = d"

fun set_SigUnchanged :: "node_data \<Rightarrow> node_data" where
  "set_SigUnchanged (FuncDefNode x) = FuncDefNode (x\<lparr>SigUnchanged := True\<rparr>)"
| "set_SigUnchanged (FuncOperatorCastNode x) = FuncOperatorCastNode (x\<lparr>SigUnchanged := True\<rparr>)"
| "set_SigUnchanged (FuncSpecialMemberNode x) = FuncSpecialMemberNode (x\<lparr>SigUnchanged := True\<rparr>)"
| "set_SigUnchanged d = d"

fun set_BeforeFirstChildEOL :: "int \<Rightarrow> node_data \<Rightarrow> node_data" where
  "set_BeforeFirstChildEOL n (TranslationUnitNode x) = TranslationUnitNode (x\<lparr>BeforeFirstChildEOL := n\<rparr>)"
| "set_BeforeFirstChildEOL n (NamespaceNode x) = NamespaceNode (x\<lparr>BeforeFirstChildEOL := n\<rparr>)"
| "set_BeforeFirstChildEOL n (LinkageSpecNode x) = LinkageSpecNode (x\<lparr>BeforeFirstChildEOL := n\<rparr>)"
| "set_BeforeFirstChildEOL n (TypeDeclNode x) = TypeDeclNode (x\<lparr>BeforeFirstChildEOL := n\<rparr>)"
| "set_BeforeFirstChildEOL n (EnumNode x) = EnumNode (x\<lparr>BeforeFirstChildEOL := n\<rparr>)"
| "set_BeforeFirstChildEOL n d = d"

definition merge_FuncDef :: "merge_env \<Rightarrow> FuncDef \<Rightarrow> FuncDef \<Rightarrow> FuncDef \<Rightarrow> FuncDef" where
  "merge_FuncDef G our base their =
     base\<lparr>fd_TemplateParameterList :=
            mergeText G (fd_TemplateParameterList our) (fd_TemplateParameterList base) (fd_TemplateParameterList their),
          fd_Attrs := mergeText G (fd_Attrs our) (fd_Attrs base) (fd_Attrs their),
          fd_BeforeFuncName := mergeText G (fd_BeforeFuncName our) (fd_BeforeFuncName base) (fd_BeforeFuncName their),
          fd_ParameterList := mergeStrVecByUnion (fd_ParameterList our) (fd_ParameterList base) (fd_ParameterList their),
          fd_AfterParameterList :=
            mergeText G (fd_AfterParameterList our) (fd_AfterParameterList base) (fd_AfterParameterList their)\<rparr>"

definition merge_DefType :: "FuncSpecialMember \<Rightarrow> FuncSpecialMember \<Rightarrow> FuncSpecialMember \<Rightarrow> DefinitionType" where
  "merge_DefType our base their =
     (if Body base \<noteq> [] then Plain
      else if DefType our = DefType base then DefType their
      else if DefType their = DefType base then DefType our
      else Plain)"

definition merge_FuncSpecialMember :: "merge_env \<Rightarrow> FuncSpecialMember \<Rightarrow> FuncSpecialMember \<Rightarrow> FuncSpecialMember \<Rightarrow> FuncSpecialMember" where
  "merge_FuncSpecialMember G our base their =
     base\<lparr>sm_TemplateParameterList :=
            mergeText G (sm_TemplateParameterList our) (sm_TemplateParameterList base) (sm_TemplateParameterList their),
          DefType := merge_DefType our base their,
          sm_Attrs := mergeText G (sm_Attrs our) (sm_Attrs base) (sm_Attrs their),
          sm_BeforeFuncName := mergeText G (sm_BeforeFuncName our) (sm_BeforeFuncName base) (sm_BeforeFuncName their),
          sm_ParameterList := mergeStrVecByUnion (sm_ParameterList our) (sm_ParameterList base) (sm_ParameterList their),
          InitList := mergeStrVecByUnion (InitList our) (InitList base) (InitList their)\<rparr>"

definition merge_FuncOperatorCast :: "merge_env \<Rightarrow> FuncOperatorCast \<Rightarrow> FuncOperatorCast \<Rightarrow> FuncOperatorCast \<Rightarrow> FuncOperatorCast" where
  "merge_FuncOperatorCast G our base their =
     base\<lparr>oc_TemplateParameterList :=
            mergeText G (oc_TemplateParameterList our) (oc_TemplateParameterList base) (oc_TemplateParameterList their),
          oc_Attrs := mergeText G (oc_Attrs our) (oc_Attrs base) (oc_Attrs their),
          oc_BeforeFuncName := mergeText G (oc_BeforeFuncName our) (oc_BeforeFuncName base) (oc_BeforeFuncName their),
          oc_ParameterList := mergeStrVecByUnion (oc_ParameterList our) (oc_ParameterList base) (oc_ParameterList their),
          oc_AfterParameterList :=
            mergeText G (oc_AfterParameterList our) (oc_AfterParameterList base) (oc_AfterParameterList their)\<rparr>"

text \<open>The parts of a function signature, unless the signature of one revision is that of the base.\<close>

definition merge_signature :: "merge_env \<Rightarrow> SemanticNode \<Rightarrow> SemanticNode \<Rightarrow> SemanticNode \<Rightarrow> merge_error + node_data" where
  "merge_signature G our base their =
     (if OriginalSignature base = OriginalSignature our \<or> OriginalSignature base = OriginalSignature their
      then Inr (set_SigUnchanged (Data base))
      else if isa_FuncDef base
      then (case (as_FuncDef our, as_FuncDef base, as_FuncDef their) of
              (Some x, Some y, Some z) \<Rightarrow> Inr (FuncDefNode (merge_FuncDef G x y z))
            | _ \<Rightarrow> Inl MergeAssertion)
      else if isa_FuncSpecialMember base
      then (case (as_FuncSpecialMember our, as_FuncSpecialMember base, as_FuncSpecialMember their) of
              (Some x, Some y, Some z) \<Rightarrow> Inr (FuncSpecialMemberNode (merge_FuncSpecialMember G x y z))
            | _ \<Rightarrow> Inl MergeAssertion)
      else (case (as_FuncOperatorCast our, as_FuncOperatorCast base, as_FuncOperatorCast their) of
              (Some x, Some y, Some z) \<Rightarrow> Inr (FuncOperatorCastNode (merge_FuncOperatorCast G x y z))
            | _ \<Rightarrow> Inl MergeAssertion))"

definition merge_names :: "merge_env \<Rightarrow> SemanticNode \<Rightarrow> SemanticNode \<Rightarrow> SemanticNode \<Rightarrow> SemanticNode" where
  "merge_names G our base their =
     base\<lparr>FollowingEOL := FollowingEOL our, AccessSpecifier := AccessSpecifier our,
          Comment := mergeText G (Comment our) (Comment base) (Comment their),
          QualifiedName := mergeText G (QualifiedName our) (QualifiedName base) (QualifiedName their)\<rparr>"

definition merge_terminal :: "merge_env \<Rightarrow> SemanticNode \<Rightarrow> SemanticNode \<Rightarrow> SemanticNode \<Rightarrow> merge_error + SemanticNode" where
  "merge_terminal G our base their =
     (if \<not> (isa_Terminal our \<and> isa_Terminal their) then Inl MergeAssertion
      else let b1 = merge_names G our (base\<lparr>Data := set_body (mergeText G (body_of our) (body_of base) (body_of their)) (Data base)\<rparr>) their
           in case (if isa_FuncDef base \<or> isa_FuncSpecialMember base \<or> isa_FuncOperatorCast base
                    then merge_signature G our b1 their else Inr (Data b1)) of
                Inl e \<Rightarrow> Inl e
              | Inr d \<Rightarrow>
                  Inr (b1\<lparr>Data := d,
                          OriginalSignature :=
                            mergeText G (OriginalSignature our) (OriginalSignature base) (OriginalSignature their)\<rparr>))"

definition merge_TU :: "SemanticNode \<Rightarrow> SemanticNode \<Rightarrow> SemanticNode \<Rightarrow> merge_error + node_data" where
  "merge_TU our base their =
     (case (as_TranslationUnit our, as_TranslationUnit base, as_TranslationUnit their) of
        (Some x, Some y, Some z) \<Rightarrow>
          (if IsHeader y = IsHeader x \<and> IsHeader y = IsHeader z
           then Inr (TranslationUnitNode (y\<lparr>TraditionGuard := TraditionGuard x, HeaderGuard := HeaderGuard x,
                       FrontDecls := mergeStrVecByUnion (FrontDecls x) (FrontDecls y) (FrontDecls z)\<rparr>))
           else Inl MergeAssertion)
      | _ \<Rightarrow> Inr (Data base))"

text \<open>A composite node apart from its children.\<close>

definition merge_composite :: "merge_env \<Rightarrow> SemanticNode \<Rightarrow> SemanticNode \<Rightarrow> SemanticNode \<Rightarrow> merge_error + SemanticNode" where
  "merge_composite G our base their =
     (case merge_TU our base their of
        Inl e \<Rightarrow> Inl e
      | Inr d \<Rightarrow>
          if \<not> isa_Composite their then Inl MergeAssertion
          else case composite_of (Data their) of
                 None \<Rightarrow> Inl MergeAssertion
               | Some n \<Rightarrow>
                   Inr ((merge_names G our (base\<lparr>Data := set_BeforeFirstChildEOL n d\<rparr>) their)
                        \<lparr>OriginalSignature :=
                           mergeText G (OriginalSignature our) (OriginalSignature base) (OriginalSignature their)\<rparr>))"

subsection \<open>Children\<close>

type_synonym merge_rec = "ptr \<Rightarrow> store \<Rightarrow> merge_error + (store \<times> ptr option)"

text \<open>
  The children of the side whose order is kept: a child with a partner in the base is replaced by the merged
  partner, or left out when that was deleted; others are kept.
\<close>

fun children_loop :: "merge_env \<Rightarrow> TwoWayMatching \<Rightarrow> merge_rec \<Rightarrow> ptr list \<Rightarrow> store \<Rightarrow> merge_error + (store \<times> ptr list)" where
  "children_loop G M mergeNode [] st = Inr (st, [])"
| "children_loop G M mergeNode (c # cs) st =
     (case right_find G st M c of
        None \<Rightarrow>
          (case children_loop G M mergeNode cs st of
             Inl e \<Rightarrow> Inl e
           | Inr (st', ms) \<Rightarrow> Inr (st', c # ms))
      | Some b \<Rightarrow>
          (case mergeNode b st of
             Inl e \<Rightarrow> Inl e
           | Inr (st1, None) \<Rightarrow> children_loop G M mergeNode cs st1
           | Inr (st1, Some b') \<Rightarrow>
               (case children_loop G M mergeNode cs (st1(b' := (st1 b')\<lparr>FollowingEOL := FollowingEOL (st1 c)\<rparr>)) of
                  Inl e \<Rightarrow> Inl e
                | Inr (st', ms) \<Rightarrow> Inr (st', b' # ms))))"

definition mergeChildrenInOrder ::
    "merge_env \<Rightarrow> TwoWayMatching \<Rightarrow> TwoWayMatching \<Rightarrow> merge_rec \<Rightarrow> ptr \<Rightarrow> ptr \<Rightarrow> store \<Rightarrow> merge_error + (store \<times> ptr list)" where
  "mergeChildrenInOrder G M Other mergeNode side base st =
     (case children_loop G M mergeNode (Children (st side)) st of
        Inl e \<Rightarrow> Inl e
      | Inr (st', merged) \<Rightarrow>
          Inr (st', foldl (place_added G st') merged
                      (removeDuplicates G st' (filterAddedNodes G st' Other base) (filterAddedNodes G st' M base))))"

definition directMergeChildrenInOurOrder ::
    "merge_env \<Rightarrow> GraphMerger \<Rightarrow> merge_rec \<Rightarrow> ptr \<Rightarrow> ptr \<Rightarrow> store \<Rightarrow> merge_error + (store \<times> ptr list)" where
  "directMergeChildrenInOurOrder G mg mergeNode our base st =
     mergeChildrenInOrder G (OurMatching mg) (TheirMatching mg) mergeNode our base st"

definition directMergeChildrenInTheirOrder ::
    "merge_env \<Rightarrow> GraphMerger \<Rightarrow> merge_rec \<Rightarrow> ptr \<Rightarrow> ptr \<Rightarrow> store \<Rightarrow> merge_error + (store \<times> ptr list)" where
  "directMergeChildrenInTheirOrder G mg mergeNode their base st =
     mergeChildrenInOrder G (TheirMatching mg) (OurMatching mg) mergeNode their base st"

definition directMergeChildren ::
    "merge_env \<Rightarrow> GraphMerger \<Rightarrow> merge_rec \<Rightarrow> ptr \<Rightarrow> ptr \<Rightarrow> ptr \<Rightarrow> store \<Rightarrow> merge_error + (store \<times> ptr list)" where
  "directMergeChildren G mg mergeNode our base their st =
     (case OrderInFavour mg of
        FavourOurs \<Rightarrow> directMergeChildrenInOurOrder G mg mergeNode our base st
      | FavourTheirs \<Rightarrow> directMergeChildrenInTheirOrder G mg mergeNode their base st)"

text \<open>A base node: deleted unless both sides have it, otherwise merged in place.\<close>

definition merge_body :: "merge_env \<Rightarrow> GraphMerger \<Rightarrow> merge_rec \<Rightarrow> merge_rec" where
  "merge_body G mg mergeNode p st =
     (case (left_find G st (OurMatching mg) p, left_find G st (TheirMatching mg) p) of
        (Some our, Some their) \<Rightarrow>
          if isa_Terminal (st p)
          then (case merge_terminal G (st our) (st p) (st their) of
                  Inl e \<Rightarrow> Inl e
                | Inr n \<Rightarrow> Inr (st(p := n), Some p))
          else if \<not> isa_Composite (st p) then Inl MergeAssertion
          else (case merge_composite G (st our) (st p) (st their) of
                  Inl e \<Rightarrow> Inl e
                | Inr n \<Rightarrow>
                    (case directMergeChildren G mg mergeNode our p their (st(p := n)) of
                       Inl e \<Rightarrow> Inl e
                     | Inr (st', cs) \<Rightarrow> Inr (st'(p := (st' p)\<lparr>Children := cs\<rparr>), Some p)))
      | _ \<Rightarrow> Inr (st, None))"

primrec mergeSemanticNode :: "merge_env \<Rightarrow> GraphMerger \<Rightarrow> nat \<Rightarrow> merge_rec" where
  "mergeSemanticNode G mg 0 = (\<lambda>p st. Inl MergeDepth)"
| "mergeSemanticNode G mg (Suc fuel) = merge_body G mg (mergeSemanticNode G mg fuel)"

subsection \<open>The conservative merge of children\<close>

text \<open>
  \<open>threeWayMergeChildren\<close>, which is not called any more: base children that both revisions have are
  fences, and added children are inserted in front of the next fence. The first loop returns the base children
  after merging, with null pointers for deleted ones, and the positions of the fences.
\<close>

fun fence_loop ::
    "merge_env \<Rightarrow> GraphMerger \<Rightarrow> merge_rec \<Rightarrow> nat \<Rightarrow> ptr list \<Rightarrow> store \<Rightarrow> merge_error + (store \<times> ptr option list \<times> nat list)" where
  "fence_loop G mg mergeNode i [] st = Inr (st, [], [])"
| "fence_loop G mg mergeNode i (b # bs) st =
     (let fence = (if left_find G st (OurMatching mg) b \<noteq> None \<and> left_find G st (TheirMatching mg) b \<noteq> None then [i] else [])
      in case mergeNode b st of
           Inl e \<Rightarrow> Inl e
         | Inr (st1, r) \<Rightarrow>
             (case fence_loop G mg mergeNode (i + 1) bs st1 of
                Inl e \<Rightarrow> Inl e
              | Inr (st2, rs, fences) \<Rightarrow> Inr (st2, r # rs, fence @ fences)))"

definition insert_pos :: "int \<Rightarrow> nat list \<Rightarrow> nat \<Rightarrow> nat" where
  "insert_pos FenceIdx Fences n =
     (if Fences = [] then n
      else if FenceIdx < 0 then Fences ! nat (FenceIdx + 1)
      else if int (length Fences) - 1 \<le> FenceIdx then n
      else Fences ! nat (FenceIdx + 1))"

fun side_loop ::
    "merge_env \<Rightarrow> store \<Rightarrow> TwoWayMatching \<Rightarrow> TwoWayMatching \<Rightarrow> ptr list \<Rightarrow> int \<Rightarrow> nat list \<Rightarrow> ptr option list \<Rightarrow>
     nat list \<times> ptr option list" where
  "side_loop G st M Other [] FenceIdx Fences BaseChildren = (Fences, BaseChildren)"
| "side_loop G st M Other (c # cs) FenceIdx Fences BaseChildren =
     (case right_find G st M c of
        Some b \<Rightarrow>
          side_loop G st M Other cs (if left_find G st Other b \<noteq> None then FenceIdx + 1 else FenceIdx) Fences BaseChildren
      | None \<Rightarrow>
          side_loop G st M Other cs FenceIdx
            (map (\<lambda>i. if nat (FenceIdx + 1) \<le> i then Fences ! i + 1 else Fences ! i) [0..<length Fences])
            (insert_at (insert_pos FenceIdx Fences (length BaseChildren)) [Some c] BaseChildren))"

fun unique_sigs :: "merge_env \<Rightarrow> store \<Rightarrow> u64 list \<Rightarrow> ptr list \<Rightarrow> ptr list" where
  "unique_sigs G st SeenHashes [] = []"
| "unique_sigs G st SeenHashes (p # ps) =
     (if node_sig G st p \<in> set SeenHashes then unique_sigs G st SeenHashes ps
      else p # unique_sigs G st (node_sig G st p # SeenHashes) ps)"

definition threeWayMergeChildren ::
    "merge_env \<Rightarrow> GraphMerger \<Rightarrow> merge_rec \<Rightarrow> ptr list \<Rightarrow> ptr list \<Rightarrow> ptr list \<Rightarrow> store \<Rightarrow> merge_error + (store \<times> ptr list)" where
  "threeWayMergeChildren G mg mergeNode OurChildren BaseChildren TheirChildren st =
     (case fence_loop G mg mergeNode 0 BaseChildren st of
        Inl e \<Rightarrow> Inl e
      | Inr (st', merged, fences) \<Rightarrow>
          (let (fences1, merged1) = side_loop G st' (OurMatching mg) (TheirMatching mg) OurChildren (- 1) fences merged;
               (fences2, merged2) = side_loop G st' (TheirMatching mg) (OurMatching mg) TheirChildren (- 1) fences1 merged1
           in Inr (st', unique_sigs G st' [] (List.map_filter id merged2))))"

subsection \<open>Graphs\<close>

definition threeWayMatch ::
    "merge_env \<Rightarrow> (ptr list \<Rightarrow> ptr list) \<Rightarrow> store \<Rightarrow> ptr list \<Rightarrow> ptr list \<Rightarrow> ptr list \<Rightarrow> OrderInfavour \<Rightarrow>
     merge_error + (GraphMerger \<times> ThreeWayMapping list)" where
  "threeWayMatch G set_order st OurGraph BaseGraph TheirGraph favour =
     (case match_graphs (m_match G) st BaseGraph OurGraph of
        Inl e \<Rightarrow> Inl (MatchFails e)
      | Inr Ours \<Rightarrow>
          (case match_graphs (m_match G) st BaseGraph TheirGraph of
             Inl e \<Rightarrow> Inl (MatchFails e)
           | Inr Theirs \<Rightarrow>
               (let NeedToMergeNodes = set_order (remdups (filter (\<lambda>p. NeedToMerge (st p) \<or> \<not> IsSynthetic (st p)) BaseGraph))
                in Inr (\<lparr>OurMatching = Ours, TheirMatching = Theirs, OrderInFavour = favour\<rparr>,
                        map (\<lambda>p. \<lparr>OurNode = left_find G st Ours p, BaseNode = Some p, TheirNode = left_find G st Theirs p\<rparr>)
                          (filter (\<lambda>p. isa_TranslationUnit (st p) \<and> NeedToMerge (st p)) NeedToMergeNodes)))))"

fun threeWayMerge ::
    "merge_env \<Rightarrow> GraphMerger \<Rightarrow> (string \<Rightarrow> string option) \<Rightarrow> bool \<Rightarrow> string \<Rightarrow> nat \<Rightarrow> ThreeWayMapping list \<Rightarrow> store \<Rightarrow>
     merge_error + (store \<times> (string \<times> string) list)" where
  "threeWayMerge G mg reformat style_exists MergedDir fuel [] st = Inr (st, [])"
| "threeWayMerge G mg reformat style_exists MergedDir fuel (m # ms) st =
     (case BaseNode m of
        None \<Rightarrow> Inl MergeAssertion
      | Some p \<Rightarrow>
          (case mergeSemanticNode G mg fuel p st of
             Inl e \<Rightarrow> Inl e
           | Inr (st1, None) \<Rightarrow> threeWayMerge G mg reformat style_exists MergedDir fuel ms st1
           | Inr (st1, Some q) \<Rightarrow>
               (case PrettyPrintTU reformat style_exists st1 fuel q MergedDir of
                  Inl e \<Rightarrow> Inl (PrintFails e)
                | Inr f \<Rightarrow>
                    (case threeWayMerge G mg reformat style_exists MergedDir fuel ms st1 of
                       Inl e \<Rightarrow> Inl e
                     | Inr (st2, fs) \<Rightarrow> Inr (st2, f # fs)))))"

end
