(* ===== verification/MergerFacts.thy ===== *)
theory MergerFacts
  imports Merger
begin

section \<open>Facts on merging\<close>

text \<open>
  The lists that the merger unites, the children that a merged node gets, and that the recursion over the
  base nodes returns with fuel for the nodes it meets.
\<close>

subsection \<open>Merging lists of strings\<close>

lemma set_insert_at [simp]: "set (insert_at i ys xs) = set xs \<union> set ys"
  by (metis append_take_drop_id insert_at_def set_append sup.commute sup.left_commute)

lemma filter_insert_at: "filter P ys = [] \<Longrightarrow> filter P (insert_at i ys xs) = filter P xs"
  by (metis append_Nil append_take_drop_id filter_append insert_at_def)

lemma find_last_idx_None: "find_last_idx (\<lambda>x. x = a) xs = None \<longleftrightarrow> a \<notin> set xs"
  by (induction xs) (auto split: option.splits)

lemma find_last_idx_less: "find_last_idx P xs = Some i \<Longrightarrow> i < length xs"
  by (induction xs arbitrary: i) (auto split: option.splits if_splits)

lemma union_loop_spec:
  assumes "set TmpList \<inter> set V1 = {}"
  shows "set (fst (union_loop V1 Vec TmpList pos Ret)) = set Ret \<union> set TmpList \<union> (set Vec - set V1) \<and>
         filter (\<lambda>x. x \<in> set V1) (fst (union_loop V1 Vec TmpList pos Ret)) = filter (\<lambda>x. x \<in> set V1) Ret"
  using assms
proof (induction V1 Vec TmpList pos Ret rule: union_loop.induct)
  case (1 V1 TmpList pos Ret)
  then show ?case by (auto simp: filter_empty_conv)
next
  case (2 V1 item Vec TmpList pos Ret)
  show ?case
  proof (cases "find_last_idx (\<lambda>x. x = item) V1")
    case None
    then have "item \<notin> set V1" by (simp add: find_last_idx_None)
    with 2(1) [OF None] 2(3) None show ?thesis by auto
  next
    case (Some i)
    then have "item \<in> set V1" by (metis find_last_idx_None option.distinct(1))
    moreover have "filter (\<lambda>x. x \<in> set V1) TmpList = []" using 2(3) by (auto simp: filter_empty_conv)
    ultimately show ?thesis using 2(2) [OF Some] Some by (auto simp: filter_insert_at)
  qed
qed

text \<open>The positions are inside the list.\<close>

lemma union_loop_pos:
  assumes "pos \<le> length V1" and "length V1 \<le> length Ret"
  shows "snd (union_loop V1 Vec TmpList pos Ret) \<le> length V1 \<and> length V1 \<le> length (fst (union_loop V1 Vec TmpList pos Ret))"
  using assms
proof (induction Vec arbitrary: TmpList pos Ret)
  case (Cons item Vec)
  have "length V1 \<le> length (insert_at pos TmpList Ret)" using Cons.prems by (simp add: insert_at_def)
  then show ?case
    using Cons find_last_idx_less [of "\<lambda>x. x = item" V1] by (auto split: option.splits simp: Suc_leI)
qed simp

lemma dedup_seen_cong: "set seen = set seen' \<Longrightarrow> dedup seen xs = dedup seen' xs"
proof (induction xs arbitrary: seen seen')
  case (Cons x xs)
  from Cons.IH [of "x # seen" "x # seen'"] Cons.IH [of seen seen'] Cons.prems show ?case by simp
qed simp

lemma filter_dedup: "filter P (dedup seen xs) = dedup seen (filter P xs)"
proof (induction xs arbitrary: seen)
  case (Cons x xs)
  have *: "\<not> P x \<Longrightarrow> dedup (x # seen) (filter P xs) = dedup seen (filter P xs)"
  proof -
    have "dedup (x # s) ys = dedup s ys" if "x \<notin> set ys" for s ys
      using that
    proof (induction ys arbitrary: s)
      case (Cons y ys)
      have "dedup (y # x # s) ys = dedup (x # y # s) ys" by (rule dedup_seen_cong) auto
      with Cons show ?case by auto
    qed simp
    then show "\<not> P x \<Longrightarrow> dedup (x # seen) (filter P xs) = dedup seen (filter P xs)" by simp
  qed
  show ?case using Cons * by auto
qed simp

text \<open>
  C25: Merging three lists of strings by union loses no item of any list, repeats none, and keeps
  the first list in its order. An item of the base list that both revisions dropped comes back.
\<close>

theorem mergeStrVecByUnion_union:
  "set (mergeStrVecByUnion V1 V2 V3) = set V1 \<union> set V2 \<union> set V3 \<and>
   distinct (mergeStrVecByUnion V1 V2 V3) \<and>
   filter (\<lambda>x. x \<in> set V1) (mergeStrVecByUnion V1 V2 V3) = dedup [] V1"
proof -
  let ?r2 = "union_loop V1 V2 [] 0 V1"
  let ?r3 = "union_loop V1 V3 [] (snd ?r2) (fst ?r2)"
  have result: "mergeStrVecByUnion V1 V2 V3 = dedup [] (fst ?r3)"
    by (simp add: mergeStrVecByUnion_def Let_def split: prod.splits)
  show ?thesis
    using union_loop_spec [of "[]" V1 V2 0 V1] union_loop_spec [of "[]" V1 V3 "snd ?r2" "fst ?r2"]
    by (auto simp: result dedup_set dedup_distinct filter_dedup)
qed

subsection \<open>Merging children\<close>

lemma mset_insert_at [simp]: "mset (insert_at i ys xs) = mset xs + mset ys"
  by (metis append_take_drop_id insert_at_def mset_append union_assoc union_commute)

lemma subseq_insert_at: "subseq xs (insert_at i ys xs)"
proof -
  have "subseq (take i xs @ drop i xs) (take i xs @ ys @ drop i xs)"
    by (intro list_emb_append_mono subseq_order.order_refl) (simp add: list_emb_append2)
  then show ?thesis by (simp add: insert_at_def)
qed

lemma place_added_insert: "\<exists>i. place_added G st merged n = insert_at i [n] merged"
proof -
  have "merged @ [n] = insert_at (length merged) [n] merged" by (simp add: insert_at_def)
  then show ?thesis by (auto simp: place_added_def Let_def split: option.splits)
qed

lemma foldl_place_added:
  "mset (foldl (place_added G st) merged ns) = mset merged + mset ns \<and> subseq merged (foldl (place_added G st) merged ns)"
proof (induction ns arbitrary: merged)
  case (Cons n ns)
  obtain i where i: "place_added G st merged n = insert_at i [n] merged" using place_added_insert by blast
  show ?case
    using Cons.IH [of "insert_at i [n] merged"] subseq_insert_at [of merged i "[n]"] by (auto simp: i)
qed simp

text \<open>A node is placed directly behind the first node that has the signature of its previous sibling, if there is one.\<close>

lemma place_added_after:
  assumes "getNeighbors G st n = Some (Some s, nx)"
    and "find_idx (\<lambda>c. node_sig G st c = node_sig G st s) merged = Some i"
  shows "place_added G st merged n = take (i + 1) merged @ n # drop (i + 1) merged"
  using assms by (simp add: place_added_def insert_at_def)

lemma set_removeDuplicates:
  "set (removeDuplicates G st xs ys) = {x \<in> set xs. \<forall>y \<in> set ys. node_sig G st y \<noteq> node_sig G st x}"
  by (induction ys arbitrary: xs) (auto simp: removeDuplicates_def)

lemma set_filterAddedNodes:
  "set (filterAddedNodes G st M p) =
     (case left_find G st M p of
        None \<Rightarrow> {}
      | Some q \<Rightarrow> {a. (\<exists>k. a \<in> set (PossiblyAdded M k)) \<and> (\<exists>pa. Parent (st a) = Some pa \<and> node_sig G st pa = node_sig G st q)})"
  using all_kinds(1) by (auto simp: filterAddedNodes_def Let_def split: option.splits)

lemma sorted_filterAddedNodes: "sorted (map (\<lambda>a. ID (st a)) (filterAddedNodes G st M p))"
  by (simp add: filterAddedNodes_def Let_def)

lemma mergeChildren_result:
  assumes "mergeChildrenInOrder G M Other mergeNode side base st = Inr (st', cs)"
  obtains kept where "children_loop G M mergeNode (Children (st side)) st = Inr (st', kept)"
    and "subseq kept cs"
    and "mset cs = mset kept + mset (removeDuplicates G st' (filterAddedNodes G st' Other base) (filterAddedNodes G st' M base))"
proof -
  from assms obtain kept where "children_loop G M mergeNode (Children (st side)) st = Inr (st', kept)"
    and "cs = foldl (place_added G st') kept (removeDuplicates G st' (filterAddedNodes G st' Other base) (filterAddedNodes G st' M base))"
    by (auto simp: mergeChildrenInOrder_def split: sum.splits prod.splits)
  with foldl_place_added that show thesis by blast
qed


subsection \<open>Merging terminates\<close>

text \<open>The matching and the children of the side in favour.\<close>

definition fav_M :: "GraphMerger \<Rightarrow> TwoWayMatching" where
  "fav_M mg = (case OrderInFavour mg of FavourOurs \<Rightarrow> OurMatching mg | FavourTheirs \<Rightarrow> TheirMatching mg)"

definition fav_other :: "GraphMerger \<Rightarrow> TwoWayMatching" where
  "fav_other mg = (case OrderInFavour mg of FavourOurs \<Rightarrow> TheirMatching mg | FavourTheirs \<Rightarrow> OurMatching mg)"

definition fav_side :: "GraphMerger \<Rightarrow> ptr \<Rightarrow> ptr \<Rightarrow> ptr" where
  "fav_side mg our their = (case OrderInFavour mg of FavourOurs \<Rightarrow> our | FavourTheirs \<Rightarrow> their)"

lemma directMergeChildren_fav:
  "directMergeChildren G mg mergeNode our base their st =
   mergeChildrenInOrder G (fav_M mg) (fav_other mg) mergeNode (fav_side mg our their) base st"
  by (simp add: directMergeChildren_def directMergeChildrenInOurOrder_def directMergeChildrenInTheirOrder_def
      fav_M_def fav_other_def fav_side_def split: OrderInfavour.splits)

text \<open>
  \<open>merge_tree p T\<close>: the recursion from the base node \<open>p\<close> meets the base nodes \<open>T\<close>, none of them twice, every
  assertion holds, and no signature changes. All of this is said of the store before merging.
\<close>

inductive merge_tree :: "merge_env \<Rightarrow> GraphMerger \<Rightarrow> store \<Rightarrow> ptr \<Rightarrow> ptr list \<Rightarrow> bool"
  and merge_forest :: "merge_env \<Rightarrow> GraphMerger \<Rightarrow> store \<Rightarrow> ptr list \<Rightarrow> ptr list \<Rightarrow> bool"
  for G mg st where
  deleted: "left_find G st (OurMatching mg) p = None \<or> left_find G st (TheirMatching mg) p = None \<Longrightarrow> merge_tree G mg st p []"
| terminal: "left_find G st (OurMatching mg) p = Some our \<Longrightarrow> left_find G st (TheirMatching mg) p = Some their \<Longrightarrow>
    isa_Terminal (st p) \<Longrightarrow> merge_terminal G (st our) (st p) (st their) = Inr n \<Longrightarrow>
    hashSignature (hsh (m_match G)) n = node_sig G st p \<Longrightarrow> merge_tree G mg st p [p]"
| composite: "left_find G st (OurMatching mg) p = Some our \<Longrightarrow> left_find G st (TheirMatching mg) p = Some their \<Longrightarrow>
    \<not> isa_Terminal (st p) \<Longrightarrow> isa_Composite (st p) \<Longrightarrow> merge_composite G (st our) (st p) (st their) = Inr n \<Longrightarrow>
    hashSignature (hsh (m_match G)) n = node_sig G st p \<Longrightarrow>
    merge_forest G mg st (Children (st (fav_side mg our their))) T \<Longrightarrow> p \<notin> set T \<Longrightarrow> merge_tree G mg st p (p # T)"
| no_children: "merge_forest G mg st [] []"
| added: "right_find G st (fav_M mg) c = None \<Longrightarrow> merge_forest G mg st cs T \<Longrightarrow> merge_forest G mg st (c # cs) T"
| matched: "right_find G st (fav_M mg) c = Some b \<Longrightarrow> merge_tree G mg st b T \<Longrightarrow> merge_forest G mg st cs T' \<Longrightarrow>
    set T \<inter> set T' = {} \<Longrightarrow> merge_forest G mg st (c # cs) (T @ T')"

text \<open>The base nodes are apart from the nodes of the revisions.\<close>

definition apart :: "GraphMerger \<Rightarrow> store \<Rightarrow> ptr set \<Rightarrow> bool" where
  "apart mg st B \<longleftrightarrow>
     (\<forall>M \<in> {OurMatching mg, TheirMatching mg}.
        (\<forall>e \<in> set (OneOneMatching M). e_base e \<in> B \<and> e_rev e \<notin> B) \<and> (\<forall>k. set (PossiblyAdded M k) \<inter> B = {})) \<and>
     (\<forall>q. q \<notin> B \<longrightarrow> (\<forall>pa. Parent (st q) = Some pa \<longrightarrow> pa \<notin> B) \<and> set (Children (st q)) \<inter> B = {})"

text \<open>What merging leaves: all signatures, and all nodes outside a set.\<close>

definition stable :: "merge_env \<Rightarrow> store \<Rightarrow> store \<Rightarrow> ptr set \<Rightarrow> bool" where
  "stable G st st' D \<longleftrightarrow> (\<forall>q. node_sig G st' q = node_sig G st q) \<and> (\<forall>q. q \<notin> D \<longrightarrow> st' q = st q)"

definition kept_child :: "merge_env \<Rightarrow> GraphMerger \<Rightarrow> store \<Rightarrow> ptr \<Rightarrow> ptr option" where
  "kept_child G mg st c =
     (case right_find G st (fav_M mg) c of
        None \<Rightarrow> Some c
      | Some b \<Rightarrow> if left_find G st (OurMatching mg) b = None \<or> left_find G st (TheirMatching mg) b = None then None else Some b)"

text \<open>The children that a merged node gets, said of the store before merging.\<close>

definition merged_children :: "merge_env \<Rightarrow> GraphMerger \<Rightarrow> store \<Rightarrow> ptr \<Rightarrow> ptr list" where
  "merged_children G mg st p =
     (case (left_find G st (OurMatching mg) p, left_find G st (TheirMatching mg) p) of
        (Some our, Some their) \<Rightarrow>
          foldl (place_added G st) (List.map_filter (kept_child G mg st) (Children (st (fav_side mg our their))))
            (removeDuplicates G st (filterAddedNodes G st (fav_other mg) p) (filterAddedNodes G st (fav_M mg) p))
      | _ \<Rightarrow> [])"

lemma hash_ignores [simp]:
  "hashSignature H (n\<lparr>FollowingEOL := e\<rparr>) = hashSignature H n" "hashSignature H (n\<lparr>Children := cs\<rparr>) = hashSignature H n"
  by (cases "Data n"; simp add: hashSignature_def hash_defs Let_def)+

lemma node_sig_hash: "node_sig G st p = hashSignature (hsh (m_match G)) (st p)"
  by (simp add: node_sig_def sig_def)

lemma stable_upd: "stable G st st' D \<Longrightarrow> hashSignature (hsh (m_match G)) n = node_sig G st p \<Longrightarrow> stable G st (st'(p := n)) (insert p D)"
  by (auto simp: stable_def node_sig_hash)

lemma stable_mono: "stable G st st' D \<Longrightarrow> D \<subseteq> D' \<Longrightarrow> stable G st st' D'"
  by (auto simp: stable_def)

lemma stable_lookups:
  assumes "stable G st st' D"
  shows "left_find G st' M p = left_find G st M p" and "right_find G st' M p = right_find G st M p"
    and "removeDuplicates G st' xs ys = removeDuplicates G st xs ys"
  using assms by (simp_all add: stable_def left_find_def right_find_def removeDuplicates_def)

lemma insort_key_cong: "(\<And>y. y \<in> set (x # ys) \<Longrightarrow> f y = g y) \<Longrightarrow> insort_key f x ys = insort_key g x ys"
  by (induction ys) auto

lemma sort_key_cong: "(\<And>x. x \<in> set xs \<Longrightarrow> f x = g x) \<Longrightarrow> sort_key f xs = sort_key g xs"
proof (induction xs)
  case (Cons x xs)
  then have "sort_key f xs = sort_key g xs" by simp
  then show ?case using insort_key_cong [of x "sort_key g xs" f g] Cons.prems by simp
qed simp

lemma apartD:
  assumes "apart mg st B" and "q \<notin> B"
  shows "Parent (st q) = Some pa \<Longrightarrow> pa \<notin> B" and "c \<in> set (Children (st q)) \<Longrightarrow> c \<notin> B"
  using assms unfolding apart_def by (simp, metis disjoint_iff)

lemma stable_added:
  assumes "stable G st st' D" and "apart mg st B" and "D \<subseteq> B" and "M \<in> {OurMatching mg, TheirMatching mg}"
  shows "filterAddedNodes G st' M p = filterAddedNodes G st M p"
proof -
  have same: "st' a = st a" if "a \<in> set (concat (map (PossiblyAdded M) all_kinds))" for a
  proof -
    have "a \<notin> B" using that assms(2,4) unfolding apart_def by fastforce
    then show ?thesis using assms(1,3) unfolding stable_def by blast
  qed
  have sigs: "node_sig G st' q = node_sig G st q" for q using assms(1) by (simp add: stable_def)
  have f: "filter (\<lambda>a. case Parent (st' a) of None \<Rightarrow> False | Some pa \<Rightarrow> node_sig G st' pa = node_sig G st' q)
           (concat (map (PossiblyAdded M) all_kinds)) =
         filter (\<lambda>a. case Parent (st a) of None \<Rightarrow> False | Some pa \<Rightarrow> node_sig G st pa = node_sig G st q)
           (concat (map (PossiblyAdded M) all_kinds))" for q
    using same sigs by (intro filter_cong) (auto split: option.splits)
  have s: "sort_key (\<lambda>a. ID (st' a)) (filter P (concat (map (PossiblyAdded M) all_kinds))) =
           sort_key (\<lambda>a. ID (st a)) (filter P (concat (map (PossiblyAdded M) all_kinds)))" for P
    using same by (intro sort_key_cong) auto
  show ?thesis
    by (simp add: filterAddedNodes_def Let_def stable_lookups(1) [OF assms(1)] f s split: option.splits)
qed

lemma stable_place:
  assumes "stable G st st' D" and "apart mg st B" and "D \<subseteq> B" and "n \<notin> B"
  shows "place_added G st' merged n = place_added G st merged n"
proof -
  have sigs: "node_sig G st' q = node_sig G st q" for q using assms(1) by (simp add: stable_def)
  have same: "st' q = st q" if "q \<notin> B" for q using assms(1,3) that by (auto simp: stable_def)
  have "getNeighbors G st' n = getNeighbors G st n"
  proof (cases "Parent (st n)")
    case None
    then show ?thesis using same [OF assms(4)] by (simp add: getNeighbors_def)
  next
    case (Some p)
    then have p: "p \<notin> B" using apartD(1) [OF assms(2,4)] by simp
    have cs: "c \<notin> B" if "c \<in> set (Children (st p))" for c using apartD(2) [OF assms(2) p that] .
    have "find (\<lambda>c. \<not> isa_OrphanComment (st' c)) xs = find (\<lambda>c. \<not> isa_OrphanComment (st c)) xs"
      if "set xs \<subseteq> set (Children (st p))" for xs
      using that cs same by (intro find_cong) auto
    then show ?thesis
      using Some same [OF assms(4)] same [OF p] sigs
      by (simp add: getNeighbors_def Let_def set_take_subset set_drop_subset split: option.splits)
  qed
  then show ?thesis unfolding place_added_def sigs by simp
qed

lemma stable_place_all:
  assumes "stable G st st' D" and "apart mg st B" and "D \<subseteq> B" and "set ns \<inter> B = {}"
  shows "foldl (place_added G st') merged ns = foldl (place_added G st) merged ns"
  using assms(4)
  by (induction ns arbitrary: merged) (simp_all add: stable_place [OF assms(1-3)])

text \<open>What merging the nodes \<open>T\<close> does to a store that came from \<open>st\<close> by merging other nodes.\<close>

definition merged_to :: "merge_env \<Rightarrow> GraphMerger \<Rightarrow> store \<Rightarrow> store \<Rightarrow> ptr list \<Rightarrow> store \<Rightarrow> bool" where
  "merged_to G mg st st1 T st2 \<longleftrightarrow>
     (\<forall>q. node_sig G st2 q = node_sig G st q) \<and> (\<forall>q. q \<notin> set T \<longrightarrow> st2 q = st1 q) \<and>
     (\<forall>q \<in> set T. \<not> isa_Terminal (st q) \<longrightarrow> Children (st2 q) = merged_children G mg st q)"

lemma merged_to_stable: "stable G st st1 D \<Longrightarrow> merged_to G mg st st1 T st2 \<Longrightarrow> stable G st st2 (D \<union> set T)"
  by (auto simp: stable_def merged_to_def)

lemma merged_to_append:
  assumes "merged_to G mg st st1 T st2" and "merged_to G mg st st2 T' st3" and "set T \<inter> set T' = {}"
  shows "merged_to G mg st st1 (T @ T') st3"
  using assms unfolding merged_to_def by (auto simp: disjoint_iff)

lemma merged_to_EOL:
  assumes "merged_to G mg st st1 T st2" and "b \<in> set T"
  shows "merged_to G mg st st1 T (st2(b := (st2 b)\<lparr>FollowingEOL := e\<rparr>))"
  using assms by (auto simp: merged_to_def node_sig_hash)

text \<open>What the recursion has to do on the trees below a node.\<close>

definition merges :: "merge_env \<Rightarrow> GraphMerger \<Rightarrow> store \<Rightarrow> ptr set \<Rightarrow> merge_rec \<Rightarrow> ptr \<Rightarrow> ptr list \<Rightarrow> bool" where
  "merges G mg st B mergeNode p T \<longleftrightarrow>
     (\<forall>D st1. stable G st st1 D \<and> D \<union> set T \<subseteq> B \<and> D \<inter> set T = {} \<longrightarrow>
        (\<exists>st2. mergeNode p st1 = Inr (st2, if T = [] then None else Some p) \<and> merged_to G mg st st1 T st2))"

definition merges_all :: "merge_env \<Rightarrow> GraphMerger \<Rightarrow> store \<Rightarrow> ptr set \<Rightarrow> merge_rec \<Rightarrow> ptr list \<Rightarrow> ptr list \<Rightarrow> bool" where
  "merges_all G mg st B mergeNode cs T \<longleftrightarrow>
     (\<forall>D st1. stable G st st1 D \<and> D \<union> set T \<subseteq> B \<and> D \<inter> set T = {} \<longrightarrow>
        (\<exists>st2. children_loop G (fav_M mg) mergeNode cs st1 = Inr (st2, List.map_filter (kept_child G mg st) cs) \<and>
               merged_to G mg st st1 T st2))"

lemma fav_in: "fav_M mg \<in> {OurMatching mg, TheirMatching mg}" "fav_other mg \<in> {OurMatching mg, TheirMatching mg}"
  by (simp_all add: fav_M_def fav_other_def split: OrderInfavour.splits)

lemma apart_added: "apart mg st B \<Longrightarrow> M \<in> {OurMatching mg, TheirMatching mg} \<Longrightarrow> a \<in> set (PossiblyAdded M k) \<Longrightarrow> a \<notin> B"
  unfolding apart_def by blast

lemma left_find_rev:
  assumes "apart mg st B" and "M \<in> {OurMatching mg, TheirMatching mg}" and "left_find G st M p = Some q"
  shows "q \<notin> B"
  using assms unfolding apart_def left_find_def by (auto simp: find_Some_iff)

lemma merges_all_added:
  assumes "right_find G st (fav_M mg) c = None" and "merges_all G mg st B mergeNode cs T"
  shows "merges_all G mg st B mergeNode (c # cs) T"
  unfolding merges_all_def
proof (intro allI impI)
  fix D st1
  assume pre: "stable G st st1 D \<and> D \<union> set T \<subseteq> B \<and> D \<inter> set T = {}"
  then obtain st2 where "children_loop G (fav_M mg) mergeNode cs st1 = Inr (st2, List.map_filter (kept_child G mg st) cs)"
    "merged_to G mg st st1 T st2"
    using assms(2) unfolding merges_all_def by blast
  then show "\<exists>st2. children_loop G (fav_M mg) mergeNode (c # cs) st1 = Inr (st2, List.map_filter (kept_child G mg st) (c # cs)) \<and>
      merged_to G mg st st1 T st2"
    using assms(1) pre stable_lookups(2) [of G st st1 D] by (auto simp: map_filter_simps kept_child_def)
qed

lemma merges_all_matched:
  assumes find: "right_find G st (fav_M mg) c = Some b" and node: "merges G mg st B mergeNode b T"
    and rest: "merges_all G mg st B mergeNode cs T'" and disj: "set T \<inter> set T' = {}"
    and empty: "T = [] \<longleftrightarrow> left_find G st (OurMatching mg) b = None \<or> left_find G st (TheirMatching mg) b = None"
    and b: "T \<noteq> [] \<Longrightarrow> b \<in> set T"
  shows "merges_all G mg st B mergeNode (c # cs) (T @ T')"
  unfolding merges_all_def
proof (intro allI impI)
  fix D st1
  assume pre: "stable G st st1 D \<and> D \<union> set (T @ T') \<subseteq> B \<and> D \<inter> set (T @ T') = {}"
  then have "stable G st st1 D \<and> D \<union> set T \<subseteq> B \<and> D \<inter> set T = {}" by auto
  then obtain st2 where st2: "mergeNode b st1 = Inr (st2, if T = [] then None else Some b)" "merged_to G mg st st1 T st2"
    using node unfolding merges_def by blast
  define st2' where "st2' = (if T = [] then st2 else st2(b := (st2 b)\<lparr>FollowingEOL := FollowingEOL (st2 c)\<rparr>))"
  have m2: "merged_to G mg st st1 T st2'" unfolding st2'_def using st2(2) b merged_to_EOL by auto
  have "stable G st st2' (D \<union> set T)" using pre m2 merged_to_stable by blast
  moreover have "(D \<union> set T) \<union> set T' \<subseteq> B \<and> (D \<union> set T) \<inter> set T' = {}" using pre disj by auto
  ultimately obtain st3 where st3: "children_loop G (fav_M mg) mergeNode cs st2' = Inr (st3, List.map_filter (kept_child G mg st) cs)"
    "merged_to G mg st st2' T' st3"
    using rest unfolding merges_all_def by blast
  have "right_find G st1 (fav_M mg) c = Some b" using find pre stable_lookups(2) by metis
  then have "children_loop G (fav_M mg) mergeNode (c # cs) st1 = Inr (st3, List.map_filter (kept_child G mg st) (c # cs))"
    using st2(1) st3(1) find empty by (auto simp: st2'_def map_filter_simps kept_child_def)
  with merged_to_append [OF m2 st3(2) disj]
  show "\<exists>st2. children_loop G (fav_M mg) mergeNode (c # cs) st1 = Inr (st2, List.map_filter (kept_child G mg st) (c # cs)) \<and>
      merged_to G mg st st1 (T @ T') st2" by blast
qed

lemma merges_deleted:
  assumes "left_find G st (OurMatching mg) p = None \<or> left_find G st (TheirMatching mg) p = None"
  shows "merges G mg st B (merge_body G mg mergeNode) p []"
proof -
  have "merge_body G mg mergeNode p st1 = Inr (st1, None)" if "stable G st st1 D" for st1 D
    using assms stable_lookups(1) [OF that] by (auto simp: merge_body_def split: option.splits)
  then show ?thesis unfolding merges_def merged_to_def by (auto simp: stable_def)
qed

lemma merges_terminal:
  assumes "left_find G st (OurMatching mg) p = Some our" and "left_find G st (TheirMatching mg) p = Some their"
    and "isa_Terminal (st p)" and "merge_terminal G (st our) (st p) (st their) = Inr n"
    and "hashSignature (hsh (m_match G)) n = node_sig G st p" and "apart mg st B"
  shows "merges G mg st B (merge_body G mg mergeNode) p [p]"
  unfolding merges_def
proof (intro allI impI)
  fix D st1
  assume pre: "stable G st st1 D \<and> D \<union> set [p] \<subseteq> B \<and> D \<inter> set [p] = {}"
  then have st1: "\<And>q. q \<notin> D \<Longrightarrow> st1 q = st q" by (simp add: stable_def)
  have "our \<notin> B" "their \<notin> B" using left_find_rev [OF assms(6)] assms(1,2) by blast+
  then have "our \<notin> D" "their \<notin> D" "p \<notin> D" using pre by auto
  then have same: "st1 our = st our" "st1 their = st their" "st1 p = st p" using st1 by simp_all
  have "merge_body G mg mergeNode p st1 = Inr (st1(p := n), Some p)"
    using assms(1-4) same stable_lookups(1) [of G st st1 D] pre by (simp add: merge_body_def)
  moreover have "merged_to G mg st st1 [p] (st1(p := n))"
    using pre assms(3,5) by (auto simp: merged_to_def stable_def node_sig_hash)
  ultimately show "\<exists>st2. merge_body G mg mergeNode p st1 = Inr (st2, if [p] = [] then None else Some p) \<and> merged_to G mg st st1 [p] st2"
    by auto
qed

lemma merges_composite:
  assumes finds: "left_find G st (OurMatching mg) p = Some our" "left_find G st (TheirMatching mg) p = Some their"
    and kind: "\<not> isa_Terminal (st p)" "isa_Composite (st p)" and n: "merge_composite G (st our) (st p) (st their) = Inr n"
    and sig: "hashSignature (hsh (m_match G)) n = node_sig G st p" and apart: "apart mg st B"
    and kids: "merges_all G mg st B mergeNode (Children (st (fav_side mg our their))) T" and p: "p \<notin> set T"
  shows "merges G mg st B (merge_body G mg mergeNode) p (p # T)"
  unfolding merges_def
proof (intro allI impI)
  fix D st1
  assume pre: "stable G st st1 D \<and> D \<union> set (p # T) \<subseteq> B \<and> D \<inter> set (p # T) = {}"
  then have st1: "\<And>q. q \<notin> D \<Longrightarrow> st1 q = st q" by (simp add: stable_def)
  have rev: "our \<notin> B" "their \<notin> B" using left_find_rev [OF apart] finds by blast+
  then have "our \<notin> D" "their \<notin> D" "p \<notin> D" using pre by auto
  then have same: "st1 our = st our" "st1 their = st their" "st1 p = st p" using st1 by simp_all
  let ?side = "fav_side mg our their" and ?st1 = "st1(p := n)"
  have side: "?st1 ?side = st ?side"
    using same rev pre by (cases "OrderInFavour mg") (auto simp: fav_side_def)
  have s1: "stable G st ?st1 (insert p D)" using pre sig stable_upd by blast
  moreover have "insert p D \<union> set T \<subseteq> B \<and> insert p D \<inter> set T = {}" using pre p by auto
  ultimately have "\<exists>st2. children_loop G (fav_M mg) mergeNode (Children (st ?side)) ?st1 =
      Inr (st2, List.map_filter (kept_child G mg st) (Children (st ?side))) \<and> merged_to G mg st ?st1 T st2"
    using kids unfolding merges_all_def by (metis (no_types, lifting))
  then obtain st2 where st2: "children_loop G (fav_M mg) mergeNode (Children (st ?side)) ?st1 =
      Inr (st2, List.map_filter (kept_child G mg st) (Children (st ?side)))" "merged_to G mg st ?st1 T st2"
    by blast
  have s2: "stable G st st2 (insert p D \<union> set T)" by (rule merged_to_stable [OF s1 st2(2)])
  have DB: "insert p D \<union> set T \<subseteq> B" using pre by auto
  let ?added = "removeDuplicates G st (filterAddedNodes G st (fav_other mg) p) (filterAddedNodes G st (fav_M mg) p)"
  have "set (filterAddedNodes G st (fav_other mg) p) \<inter> B = {}"
    using apart_added [OF apart fav_in(2)] by (auto simp: set_filterAddedNodes split: option.splits)
  then have "set ?added \<inter> B = {}" by (auto simp: set_removeDuplicates)
  then have "directMergeChildren G mg mergeNode our p their ?st1 = Inr (st2, merged_children G mg st p)"
    unfolding directMergeChildren_fav mergeChildrenInOrder_def side st2(1)
    by (simp add: stable_lookups(3) [OF s2] stable_added [OF s2 apart DB] fav_in [simplified] stable_place_all [OF s2 apart DB]
        merged_children_def finds)
  then have run: "merge_body G mg mergeNode p st1 = Inr (st2(p := (st2 p)\<lparr>Children := merged_children G mg st p\<rparr>), Some p)"
    using finds kind n same stable_lookups(1) [of G st st1 D] pre by (simp add: merge_body_def)
  have "merged_to G mg st st1 (p # T) (st2(p := (st2 p)\<lparr>Children := merged_children G mg st p\<rparr>))"
    using st2(2) p sig by (auto simp: merged_to_def node_sig_hash)
  with run show "\<exists>st2. merge_body G mg mergeNode p st1 = Inr (st2, if p # T = [] then None else Some p) \<and>
      merged_to G mg st st1 (p # T) st2" by auto
qed

text \<open>A tree is empty exactly for a node that one side does not have, and starts with its root.\<close>

lemma merge_tree_root:
  "merge_tree G mg st p T \<Longrightarrow>
     (T = [] \<longleftrightarrow> left_find G st (OurMatching mg) p = None \<or> left_find G st (TheirMatching mg) p = None) \<and> (T \<noteq> [] \<longrightarrow> p \<in> set T)"
  by (erule merge_tree.cases) auto

lemma merge_tree_merges:
  assumes "apart mg st B"
  shows "merge_tree G mg st p T \<Longrightarrow> length T < fuel \<Longrightarrow> merges G mg st B (mergeSemanticNode G mg fuel) p T"
    and "merge_forest G mg st cs T \<Longrightarrow> length T < fuel \<Longrightarrow> merges_all G mg st B (mergeSemanticNode G mg fuel) cs T"
proof (induction arbitrary: fuel and fuel rule: merge_tree_merge_forest.inducts)
  case (deleted p)
  then obtain f where "fuel = Suc f" by (cases fuel) auto
  then show ?case
    using merges_deleted [OF deleted(1)] by simp
next
  case (terminal p our their n)
  then obtain f where "fuel = Suc f" by (cases fuel) auto
  then show ?case using merges_terminal [OF terminal(1-5) assms] by simp
next
  case (composite p our their n T)
  then obtain f where f: "fuel = Suc f" "length T < f" by (cases fuel) auto
  then show ?case using merges_composite [OF composite(1-6) assms composite(8) [OF f(2)] composite(9)] by simp
next
  case no_children
  then show ?case by (simp add: merges_all_def merged_to_def stable_def map_filter_simps)
next
  case (added c cs T)
  then show ?case using merges_all_added by blast
next
  case (matched c b T cs T')
  then show ?case
    using merge_tree_root [OF matched(2)] matched(3,5-7) by (intro merges_all_matched [OF matched(1)]) auto
qed


subsection \<open>An example\<close>

text \<open>
  A class of the base (0), of our revision (10) and of their revision (20) with the same comment in each; their revision
  adds a second comment (22).
\<close>

definition demo_merge_nodes :: store where
  "demo_merge_nodes p =
     (let cls = (\<lambda>cs. (SemanticNode_ctor 0 True TYPE_NODE ''A'' [] ''class A'' [] None [] False
            (TypeDeclNode \<lparr>BeforeFirstChildEOL = 1, TypeKind = TD_Class, td_Attrs = [], IsFinal = False, BaseClause = [],
               td_TemplateParameterList = [], td_References = []\<rparr>))\<lparr>Children := cs\<rparr>);
          com = (\<lambda>s par. (TerminalNode_ctor (int p) True ORPHAN_COMMENT [] [] [] [] None [] s 0 1 False OrphanCommentNode)\<lparr>Parent := Some par\<rparr>)
      in if p = 0 then cls [1] else if p = 10 then cls [11] else if p = 20 then cls [21, 22]
         else if p = 1 then com ''// c'' 0 else if p = 11 then com ''// c'' 10 else if p = 21 then com ''// c'' 20
         else com ''// new'' 20)"

definition demo_merge_env :: merge_env where
  "demo_merge_env = \<lparr>m_match = demo_env, same_bucket = (=), git_merge_file = (\<lambda>ours base theirs. Some ours)\<rparr>"

definition demo_merger :: GraphMerger where
  "demo_merger =
     (let s = sig demo_env demo_merge_nodes; en = (\<lambda>b r. \<lparr>e_base = b, e_bhash = s b, e_rev = r, e_rhash = s r\<rparr>)
      in \<lparr>OurMatching = \<lparr>OneOneMatching = [en 0 10, en 1 11], PossiblyDeleted = (\<lambda>_. []), PossiblyAdded = (\<lambda>_. [])\<rparr>,
          TheirMatching = \<lparr>OneOneMatching = [en 0 20, en 1 21], PossiblyDeleted = (\<lambda>_. []),
                           PossiblyAdded = (\<lambda>k. if k = ORPHAN_COMMENT then [22] else [])\<rparr>,
          OrderInFavour = FavourOurs\<rparr>)"

lemma demo_finds:
  "left_find demo_merge_env demo_merge_nodes (OurMatching demo_merger) 0 = Some 10"
  "left_find demo_merge_env demo_merge_nodes (TheirMatching demo_merger) 0 = Some 20"
  "left_find demo_merge_env demo_merge_nodes (OurMatching demo_merger) 1 = Some 11"
  "left_find demo_merge_env demo_merge_nodes (TheirMatching demo_merger) 1 = Some 21"
  "right_find demo_merge_env demo_merge_nodes (OurMatching demo_merger) 11 = Some 1"
  by code_simp+

lemma demo_merged: "merged_children demo_merge_env demo_merger demo_merge_nodes 0 = [1, 22]"
  by code_simp


lemma demo_merge_parts:
  "isa_Terminal (demo_merge_nodes 1)" "\<not> isa_Terminal (demo_merge_nodes 0)" "isa_Composite (demo_merge_nodes 0)"
  "Children (demo_merge_nodes 10) = [11]" "fav_side demo_merger 10 20 = 10" "fav_M demo_merger = OurMatching demo_merger"
  by (code_simp, code_simp, code_simp, code_simp, code_simp) (simp add: fav_M_def demo_merger_def Let_def)

definition keeps_sig :: "merge_error + SemanticNode \<Rightarrow> ptr \<Rightarrow> bool" where
  "keeps_sig r p =
     (case r of Inl _ \<Rightarrow> False | Inr n \<Rightarrow> hashSignature (hsh (m_match demo_merge_env)) n = node_sig demo_merge_env demo_merge_nodes p)"

lemma demo_merge_tree: "merge_tree demo_merge_env demo_merger demo_merge_nodes 0 [0, 1]"
proof -
  have "keeps_sig (merge_terminal demo_merge_env (demo_merge_nodes 11) (demo_merge_nodes 1) (demo_merge_nodes 21)) 1" by code_simp
  then have "merge_tree demo_merge_env demo_merger demo_merge_nodes 1 [1]"
    using terminal [OF demo_finds(3,4) demo_merge_parts(1)] by (auto simp: keeps_sig_def split: sum.splits)
  then have f: "merge_forest demo_merge_env demo_merger demo_merge_nodes (Children (demo_merge_nodes (fav_side demo_merger 10 20))) [1]"
    using matched [of demo_merge_env demo_merge_nodes demo_merger 11 1 "[1]" "[]" "[]"] no_children demo_finds(5) demo_merge_parts
    by simp
  have "keeps_sig (merge_composite demo_merge_env (demo_merge_nodes 10) (demo_merge_nodes 0) (demo_merge_nodes 20)) 0" by code_simp
  then show ?thesis
    using composite [OF demo_finds(1,2) demo_merge_parts(2,3) _ _ f] by (auto simp: keeps_sig_def split: sum.splits)
qed

lemma demo_apart: "apart demo_merger demo_merge_nodes {0, 1}"
  by (auto simp: apart_def demo_merger_def demo_merge_nodes_def Let_def SemanticNode_ctor_def TerminalNode_ctor_def split: if_splits)



end
