(* ===== verification/ThreadPool.thy ===== *)
theory ThreadPool
  imports Prelude
begin

section \<open>The thread pool\<close>

text \<open>
  Models \<open>src/utils/ThreadPool.cpp\<close> and \<open>include/mergebot/utils/ThreadPool.h\<close>. The static members are a
  record; a task, the pair of a function and its argument, is of a type parameter, and a slot that was reset to null
  pointers is \<open>None\<close>. What the calls of pthread return are arguments: \<open>True\<close> stands for 0. The code between locking
  and unlocking the mutex is one step, and the system of pool and workers is a step relation. The member \<open>held\<close>
  says that a call has returned without unlocking the mutex, and \<open>freed\<close> that the mutex is destroyed. The sizes are at most
  65535, so no \<open>int\<close> overflows. Workers start in \<open>threadpool_create\<close> while it still runs; as they need a task to change
  the pool, they are taken to start when it is done.
\<close>

record 'a pool =
  queue :: "'a option list"
  thread_count :: int
  queue_size :: int
  head :: int
  tail :: int
  cnt :: int
  shutdown :: int
  started :: int
  held :: bool
  freed :: bool

definition pool_init :: "'a pool" where
  "pool_init =
     \<lparr>queue = [], thread_count = 0, queue_size = 0, head = 0, tail = 0, cnt = 0, shutdown = 0, started = 0,
      held = False, freed = False\<rparr>"

definition THREADPOOL_LOCK_FAILURE :: int where "THREADPOOL_LOCK_FAILURE = - 2"
definition THREADPOOL_QUEUE_FULL :: int where "THREADPOOL_QUEUE_FULL = - 3"
definition THREADPOOL_SHUTDOWN :: int where "THREADPOOL_SHUTDOWN = - 4"
definition THREADPOOL_THREAD_FAILURE :: int where "THREADPOOL_THREAD_FAILURE = - 5"
definition MAX_THREADS :: int where "MAX_THREADS = 1024"
definition MAX_QUEUE :: int where "MAX_QUEUE = 65535"

lemmas pool_errors = THREADPOOL_LOCK_FAILURE_def THREADPOOL_QUEUE_FULL_def THREADPOOL_SHUTDOWN_def THREADPOOL_THREAD_FAILURE_def

datatype ShutDownOption = immediate_shutdown | graceful_shutdown

fun option_code :: "ShutDownOption \<Rightarrow> int" where
  "option_code immediate_shutdown = 1"
| "option_code graceful_shutdown = 2"

subsection \<open>Operations\<close>

definition pool_sizes :: "int \<Rightarrow> int \<Rightarrow> int \<times> int" where
  "pool_sizes tc qs =
     (if tc \<le> 0 \<or> MAX_THREADS < tc \<or> qs \<le> 0 \<or> MAX_QUEUE < qs then (4, 1024) else (tc, qs))"

fun start_workers :: "(nat \<Rightarrow> bool) \<Rightarrow> nat list \<Rightarrow> 'a pool \<Rightarrow> 'a pool \<times> int" where
  "start_workers created [] p = (p, 0)"
| "start_workers created (i # is) p =
     (if created i
      then start_workers created is (p\<lparr>thread_count := thread_count p + 1, started := started p + 1\<rparr>)
      else (p, - 1))"

definition threadpool_create :: "(nat \<Rightarrow> bool) \<Rightarrow> int \<Rightarrow> int \<Rightarrow> 'a pool \<Rightarrow> 'a pool \<times> int" where
  "threadpool_create created tc qs p =
     (let (tc, qs) = pool_sizes tc qs
      in start_workers created [0..<nat tc]
           (p\<lparr>thread_count := 0, queue_size := qs, head := 0, tail := 0, cnt := 0, shutdown := 0, started := 0,
              queue := take (nat qs) (queue p) @ replicate (nat qs - length (queue p)) None\<rparr>))"

definition threadpool_add :: "bool \<Rightarrow> bool \<Rightarrow> bool \<Rightarrow> 'a \<Rightarrow> 'a pool \<Rightarrow> 'a pool \<times> int" where
  "threadpool_add locked signalled unlocked t p =
     (if \<not> locked then (p, THREADPOOL_LOCK_FAILURE)
      else
        let next = (tail p + 1) mod queue_size p;
            (p', err) =
              (if cnt p = queue_size p then (p, THREADPOOL_QUEUE_FULL)
               else if shutdown p \<noteq> 0 then (p, THREADPOOL_SHUTDOWN)
               else (p\<lparr>queue := (queue p)[nat (tail p) := Some t], tail := next, cnt := cnt p + 1\<rparr>,
                     if signalled then 0 else THREADPOOL_LOCK_FAILURE))
        in if unlocked then (p', err) else (p'\<lparr>held := True\<rparr>, THREADPOOL_LOCK_FAILURE))"

text \<open>
  \<open>threadpool_destroy\<close> up to the joins of the workers, and from them on. Where the first part reports an error
  it has not unlocked the mutex.
\<close>

definition destroy_request :: "bool \<Rightarrow> bool \<Rightarrow> bool \<Rightarrow> ShutDownOption \<Rightarrow> 'a pool \<Rightarrow> 'a pool \<times> int" where
  "destroy_request locked broadcast unlocked shutdown_option p =
     (if \<not> locked then (p, THREADPOOL_LOCK_FAILURE)
      else if shutdown p \<noteq> 0 then (p\<lparr>held := True\<rparr>, THREADPOOL_SHUTDOWN)
      else
        let p = p\<lparr>shutdown := option_code shutdown_option\<rparr>
        in if \<not> broadcast \<or> \<not> unlocked then (p\<lparr>held := True\<rparr>, THREADPOOL_LOCK_FAILURE) else (p, 0))"

definition threadpool_free :: "'a pool \<Rightarrow> 'a pool \<times> int" where
  "threadpool_free p = (if 0 < started p then (p, - 1) else (p\<lparr>freed := True\<rparr>, 0))"

definition destroy_joined :: "bool list \<Rightarrow> 'a pool \<Rightarrow> 'a pool \<times> int" where
  "destroy_joined joined p =
     (if list_all id joined then (fst (threadpool_free p), 0) else (p, THREADPOOL_THREAD_FAILURE))"

text \<open>The loop of a worker: whether it waits or ends, taking a task, and ending.\<close>

definition worker_waits :: "'a pool \<Rightarrow> bool" where
  "worker_waits p \<longleftrightarrow> cnt p = 0 \<and> shutdown p = 0"

definition worker_quits :: "'a pool \<Rightarrow> bool" where
  "worker_quits p \<longleftrightarrow>
     shutdown p = option_code immediate_shutdown \<or> shutdown p = option_code graceful_shutdown \<and> cnt p = 0"

definition worker_takes :: "'a pool \<Rightarrow> 'a option \<times> 'a pool" where
  "worker_takes p =
     (queue p ! nat (head p),
      p\<lparr>queue := (queue p)[nat (head p) := None], head := (head p + 1) mod queue_size p, cnt := cnt p - 1\<rparr>)"

definition worker_ends :: "'a pool \<Rightarrow> 'a pool" where
  "worker_ends p = p\<lparr>started := started p - 1\<rparr>"

subsection \<open>The system\<close>

text \<open>
  A worker is about to lock the mutex, waits for the condition variable, runs a task, has called an empty function,
  or has exited.
\<close>

datatype 'a worker = Ready | Waiting | Running 'a | Crashed | Exited

datatype 'a event = Accepted 'a bool | Taken 'a | Silent

record 'a sys =
  pool :: "'a pool"
  workers :: "'a worker list"

definition can_lock :: "'a sys \<Rightarrow> bool" where
  "can_lock s \<longleftrightarrow> \<not> held (pool s) \<and> \<not> freed (pool s)"

text \<open>A signal wakes one waiting worker if there is one; a broadcast wakes them all.\<close>

inductive wakes :: "bool \<Rightarrow> 'a worker list \<Rightarrow> 'a worker list \<Rightarrow> bool" where
  no_signal: "wakes False ws ws"
| nobody: "Waiting \<notin> set ws \<Longrightarrow> wakes True ws ws"
| wake: "i < length ws \<Longrightarrow> ws ! i = Waiting \<Longrightarrow> wakes True ws (ws[i := Ready])"

definition wake_all :: "'a worker list \<Rightarrow> 'a worker list" where
  "wake_all = map (\<lambda>w. case w of Waiting \<Rightarrow> Ready | _ \<Rightarrow> w)"

text \<open>The steps of a worker. Waiting may also end without a signal.\<close>

inductive worker_step :: "'a sys \<Rightarrow> 'a event \<Rightarrow> 'a sys \<Rightarrow> bool" where
  waits: "i < length (workers s) \<Longrightarrow> workers s ! i = Ready \<Longrightarrow> can_lock s \<Longrightarrow> worker_waits (pool s) \<Longrightarrow>
    worker_step s Silent (s\<lparr>workers := (workers s)[i := Waiting]\<rparr>)"
| wakes_up: "i < length (workers s) \<Longrightarrow> workers s ! i = Waiting \<Longrightarrow>
    worker_step s Silent (s\<lparr>workers := (workers s)[i := Ready]\<rparr>)"
| takes: "i < length (workers s) \<Longrightarrow> workers s ! i = Ready \<Longrightarrow> can_lock s \<Longrightarrow> \<not> worker_waits (pool s) \<Longrightarrow>
    \<not> worker_quits (pool s) \<Longrightarrow> worker_takes (pool s) = (Some t, p') \<Longrightarrow>
    worker_step s (Taken t) \<lparr>pool = p', workers = (workers s)[i := Running t]\<rparr>"
| takes_nothing: "i < length (workers s) \<Longrightarrow> workers s ! i = Ready \<Longrightarrow> can_lock s \<Longrightarrow> \<not> worker_waits (pool s) \<Longrightarrow>
    \<not> worker_quits (pool s) \<Longrightarrow> worker_takes (pool s) = (None, p') \<Longrightarrow>
    worker_step s Silent \<lparr>pool = p', workers = (workers s)[i := Crashed]\<rparr>"
| finishes: "i < length (workers s) \<Longrightarrow> workers s ! i = Running t \<Longrightarrow>
    worker_step s Silent (s\<lparr>workers := (workers s)[i := Ready]\<rparr>)"
| quits: "i < length (workers s) \<Longrightarrow> workers s ! i = Ready \<Longrightarrow> can_lock s \<Longrightarrow> worker_quits (pool s) \<Longrightarrow>
    worker_step s Silent \<lparr>pool = worker_ends (pool s), workers = (workers s)[i := Exited]\<rparr>"

text \<open>The steps of the system: those of the workers, and calls from other threads.\<close>

inductive pool_step :: "'a sys \<Rightarrow> 'a event \<Rightarrow> 'a sys \<Rightarrow> bool" where
  worker: "worker_step s e s' \<Longrightarrow> pool_step s e s'"
| add: "can_lock s \<Longrightarrow> threadpool_add locked signalled unlocked t (pool s) = (p', err) \<Longrightarrow> cnt p' \<noteq> cnt (pool s) \<Longrightarrow>
    wakes signalled (workers s) ws' \<Longrightarrow> pool_step s (Accepted t signalled) \<lparr>pool = p', workers = ws'\<rparr>"
| add_rejected: "can_lock s \<Longrightarrow> threadpool_add locked signalled unlocked t (pool s) = (p', err) \<Longrightarrow>
    cnt p' = cnt (pool s) \<Longrightarrow> pool_step s Silent (s\<lparr>pool := p'\<rparr>)"
| destroy: "can_lock s \<Longrightarrow> destroy_request locked broadcast unlocked opt (pool s) = (p', err) \<Longrightarrow>
    pool_step s Silent
      \<lparr>pool = p', workers = (if broadcast \<and> shutdown p' \<noteq> shutdown (pool s) then wake_all (workers s) else workers s)\<rparr>"
| destroyed: "can_lock s \<Longrightarrow> shutdown (pool s) \<noteq> 0 \<Longrightarrow> \<forall>w \<in> set (workers s). w = Exited \<Longrightarrow>
    pool_step s Silent (s\<lparr>pool := fst (destroy_joined joined (pool s))\<rparr>)"

definition accepted :: "'a event list \<Rightarrow> 'a list" where
  "accepted es = List.map_filter (\<lambda>e. case e of Accepted t _ \<Rightarrow> Some t | _ \<Rightarrow> None) es"

definition taken :: "'a event list \<Rightarrow> 'a list" where
  "taken es = List.map_filter (\<lambda>e. case e of Taken t \<Rightarrow> Some t | _ \<Rightarrow> None) es"

lemma map_filter_append: "List.map_filter f (xs @ ys) = List.map_filter f xs @ List.map_filter f ys"
  by (simp add: List.map_filter_def)

lemma events_simps [simp]:
  "accepted [] = []" "taken [] = []" "accepted (es @ es') = accepted es @ accepted es'" "taken (es @ es') = taken es @ taken es'"
  "accepted [Accepted t b] = [t]" "accepted [Taken t] = []" "accepted [Silent] = []"
  "taken [Accepted t b] = []" "taken [Taken t] = [t]" "taken [Silent] = []"
  by (simp_all add: accepted_def taken_def map_filter_append map_filter_simps)

subsection \<open>First in, first out\<close>

text \<open>A system whose steps put items into and take items from a queue.\<close>

locale fifo_system =
  fixes step :: "'s \<Rightarrow> 'a event \<Rightarrow> 's \<Rightarrow> bool" and ok :: "'s \<Rightarrow> bool" and items :: "'s \<Rightarrow> 'a list"
  assumes keeps_ok: "step s e s' \<Longrightarrow> ok s \<Longrightarrow> ok s'"
    and accepts: "step s (Accepted t b) s' \<Longrightarrow> ok s \<Longrightarrow> items s' = items s @ [t]"
    and hands_out: "step s (Taken t) s' \<Longrightarrow> ok s \<Longrightarrow> items s = t # items s'"
    and else_same: "step s Silent s' \<Longrightarrow> ok s \<Longrightarrow> items s' = items s"
begin

lemma run_ok: "run step s es s' \<Longrightarrow> ok s \<Longrightarrow> ok s'"
  by (induction rule: run.induct) (auto intro: keeps_ok)

lemma in_order: "run step s es s' \<Longrightarrow> ok s \<Longrightarrow> items s @ accepted es = taken es @ items s'"
proof (induction rule: run.induct)
  case (run_snoc s es s' e s'')
  have "ok s'" by (rule run_ok [OF run_snoc(1,4)])
  with run_snoc show ?case
    using accepts [of s' _ _ s''] hands_out [of s' _ s''] else_same [of s' s''] by (cases e) (auto simp flip: append_assoc)
qed simp

end

definition slot :: "'a pool \<Rightarrow> nat \<Rightarrow> nat" where
  "slot p i = nat ((head p + int i) mod queue_size p)"

definition pool_ok :: "'a pool \<Rightarrow> bool" where
  "pool_ok p \<longleftrightarrow>
     0 < queue_size p \<and> int (length (queue p)) = queue_size p \<and> 0 \<le> head p \<and> head p < queue_size p \<and>
     0 \<le> cnt p \<and> cnt p \<le> queue_size p \<and> tail p = (head p + cnt p) mod queue_size p \<and>
     (\<forall>i < nat (cnt p). queue p ! slot p i \<noteq> None)"

text \<open>The tasks in the queue, the next one first.\<close>

definition tasks :: "'a pool \<Rightarrow> 'a list" where
  "tasks p = map (\<lambda>i. the (queue p ! slot p i)) [0..<nat (cnt p)]"

lemma length_tasks: "pool_ok p \<Longrightarrow> int (length (tasks p)) = cnt p"
  by (simp add: tasks_def pool_ok_def)

lemma slot_less: "pool_ok p \<Longrightarrow> slot p i < length (queue p)"
  unfolding slot_def pool_ok_def by (metis nat_less_iff pos_mod_bound pos_mod_sign)

lemma slots_differ:
  assumes "pool_ok p" and "i < j" and "int j < int i + queue_size p"
  shows "slot p i \<noteq> slot p j"
proof
  assume "slot p i = slot p j"
  then have "(head p + int i) mod queue_size p = (head p + int j) mod queue_size p"
    using assms(1) unfolding slot_def pool_ok_def by (simp add: nat_eq_iff2)
  then have "queue_size p dvd int j - int i" by (metis add_diff_cancel_left mod_eq_dvd_iff)
  moreover have "0 < int j - int i" "int j - int i < queue_size p" using assms(2,3) by auto
  ultimately show False by (simp add: zdvd_not_zless)
qed


text \<open>Adding a task puts it at the end; a worker takes the first one.\<close>

lemma threadpool_add_cases:
  assumes "threadpool_add locked signalled unlocked t p = (p', err)"
  obtains (full) "p' = p \<or> p' = p\<lparr>held := True\<rparr>"
  | (put) h where "cnt p \<noteq> queue_size p" and "shutdown p = 0"
      and "p' = p\<lparr>queue := (queue p)[nat (tail p) := Some t], tail := (tail p + 1) mod queue_size p, cnt := cnt p + 1, held := h\<rparr>"
proof -
  have "p' = p \<or> p' = p\<lparr>held := True\<rparr> \<or>
    cnt p \<noteq> queue_size p \<and> shutdown p = 0 \<and>
    (\<exists>h. p' = p\<lparr>queue := (queue p)[nat (tail p) := Some t], tail := (tail p + 1) mod queue_size p, cnt := cnt p + 1, held := h\<rparr>)"
    using assms by (cases p) (auto simp: threadpool_add_def Let_def split: if_splits)
  then show thesis using full put by blast
qed

lemma put_ok:
  assumes "pool_ok p" and "cnt p \<noteq> queue_size p"
    and "p' = p\<lparr>queue := (queue p)[nat (tail p) := Some t], tail := (tail p + 1) mod queue_size p, cnt := cnt p + 1, held := h\<rparr>"
  shows "pool_ok p'" and "tasks p' = tasks p @ [t]"
proof -
  have tail: "nat (tail p) = slot p (nat (cnt p))" using assms(1) by (simp add: pool_ok_def slot_def)
  have slots: "slot p' i = slot p i" for i by (simp add: slot_def assms(3))
  have new: "queue p' ! slot p (nat (cnt p)) = Some t" using slot_less [OF assms(1)] by (simp add: assms(3) tail)
  have old: "queue p' ! slot p i = queue p ! slot p i" if "i < nat (cnt p)" for i
  proof -
    have "int (nat (cnt p)) < int i + queue_size p" using assms(1,2) by (simp add: pool_ok_def)
    then have "slot p i \<noteq> slot p (nat (cnt p))" by (rule slots_differ [OF assms(1) that])
    then show ?thesis by (simp add: assms(3) tail)
  qed
  have cnt: "nat (cnt p') = Suc (nat (cnt p))" using assms(1) by (simp add: assms(3) pool_ok_def nat_add_distrib)
  have "(tail p + 1) mod queue_size p = (head p + (cnt p + 1)) mod queue_size p"
    using assms(1) by (simp add: pool_ok_def mod_add_left_eq add.assoc)
  moreover have "\<forall>i < nat (cnt p'). queue p' ! slot p' i \<noteq> None"
    unfolding cnt slots less_Suc_eq using old new assms(1) by (auto simp: pool_ok_def)
  ultimately show "pool_ok p'" using assms(1,2) unfolding pool_ok_def [of p'] by (simp add: assms(3) pool_ok_def)
  show "tasks p' = tasks p @ [t]" unfolding tasks_def cnt slots using old new by simp
qed

lemma take_ok:
  assumes "pool_ok p" and "0 < cnt p" and "worker_takes p = (r, p')"
  shows "pool_ok p'" and "\<exists>t. r = Some t \<and> tasks p = t # tasks p'"
proof -
  have p': "p' = p\<lparr>queue := (queue p)[slot p 0 := None], head := (head p + 1) mod queue_size p, cnt := cnt p - 1\<rparr>"
    and r: "r = queue p ! slot p 0"
    using assms(1,3) by (auto simp: worker_takes_def slot_def pool_ok_def)
  have slots: "slot p' i = slot p (Suc i)" for i by (simp add: slot_def p' mod_add_left_eq add.assoc)
  have same: "queue p' ! slot p (Suc i) = queue p ! slot p (Suc i)" if "Suc i < nat (cnt p)" for i
  proof -
    have "int (Suc i) < int 0 + queue_size p" using assms(1) that unfolding pool_ok_def by linarith
    then have "slot p 0 \<noteq> slot p (Suc i)" by (rule slots_differ [OF assms(1) zero_less_Suc])
    then show ?thesis by (simp add: p')
  qed
  have cnt: "nat (cnt p) = Suc (nat (cnt p'))" using assms(2) by (simp add: p')
  have "tail p = (head p' + cnt p') mod queue_size p"
    using assms(1) by (simp add: p' pool_ok_def mod_add_left_eq)
  moreover have "\<forall>i < nat (cnt p'). queue p' ! slot p' i \<noteq> None"
    using same assms(1) unfolding slots by (simp add: pool_ok_def cnt)
  ultimately show "pool_ok p'" using assms(1,2) unfolding pool_ok_def [of p'] by (simp add: p' pool_ok_def)
  obtain t where t: "r = Some t" using assms(1,2) unfolding r pool_ok_def by fastforce
  have "[0..<nat (cnt p)] = 0 # map Suc [0..<nat (cnt p')]" unfolding cnt by (simp add: map_Suc_upt upt_conv_Cons)
  then have "tasks p = the (queue p ! slot p 0) # map (\<lambda>i. the (queue p ! slot p (Suc i))) [0..<nat (cnt p')]"
    by (simp add: tasks_def comp_def)
  also have "map (\<lambda>i. the (queue p ! slot p (Suc i))) [0..<nat (cnt p')] = tasks p'"
    unfolding tasks_def slots using same cnt by simp
  finally show "\<exists>t. r = Some t \<and> tasks p = t # tasks p'" using t r by simp
qed


subsection \<open>The invariant of the system\<close>

definition sys_ok :: "'a sys \<Rightarrow> bool" where
  "sys_ok s \<longleftrightarrow> pool_ok (pool s) \<and> shutdown (pool s) \<in> {0, 1, 2} \<and> Crashed \<notin> set (workers s)"

lemma pool_ok_held [simp]:
  "pool_ok (p\<lparr>held := h\<rparr>) = pool_ok p" "pool_ok (p\<lparr>freed := h\<rparr>) = pool_ok p" "pool_ok (p\<lparr>started := n\<rparr>) = pool_ok p"
  "pool_ok (p\<lparr>shutdown := n\<rparr>) = pool_ok p"
  by (simp_all add: pool_ok_def slot_def)

lemma tasks_held [simp]:
  "tasks (p\<lparr>held := h\<rparr>) = tasks p" "tasks (p\<lparr>freed := h\<rparr>) = tasks p" "tasks (p\<lparr>started := n\<rparr>) = tasks p"
  "tasks (p\<lparr>shutdown := n\<rparr>) = tasks p"
  by (simp_all add: tasks_def slot_def)

lemma set_update: "x \<in> set (xs[i := y]) \<Longrightarrow> x = y \<or> x \<in> set xs"
  using set_update_subset_insert by fastforce

lemma busy:
  assumes "sys_ok s" and "\<not> worker_waits (pool s)" and "\<not> worker_quits (pool s)"
  shows "0 < cnt (pool s)"
  using assms by (auto simp: sys_ok_def pool_ok_def worker_waits_def worker_quits_def)

lemma destroy_request_cases:
  assumes "destroy_request locked broadcast unlocked opt p = (p', err)"
  shows "p' = p \<or> p' = p\<lparr>held := True\<rparr> \<or> shutdown p = 0 \<and> p' = p\<lparr>shutdown := option_code opt, held := held p \<or> \<not> (broadcast \<and> unlocked)\<rparr>"
  using assms by (cases p) (auto simp: destroy_request_def Let_def split: if_splits)

lemma destroy_joined_cases: "fst (destroy_joined joined p) = p \<or> fst (destroy_joined joined p) = p\<lparr>freed := True\<rparr>"
  by (simp add: destroy_joined_def threadpool_free_def)

lemma option_code_in: "option_code opt \<in> {1, 2}"
  by (cases opt) simp_all

lemma wakes_old: "wakes b ws ws' \<Longrightarrow> w \<in> set ws' \<Longrightarrow> w = Ready \<or> w \<in> set ws"
  by (erule wakes.cases) (auto dest: set_update)

lemma wake_all_old: "w \<in> set (wake_all ws) \<Longrightarrow> w = Ready \<or> w \<in> set ws \<and> w \<noteq> Waiting"
  by (auto simp: wake_all_def split: worker.splits)

text \<open>What a step does to the queue.\<close>

definition event_ok :: "'a sys \<Rightarrow> 'a event \<Rightarrow> 'a sys \<Rightarrow> bool" where
  "event_ok s e s' \<longleftrightarrow>
     sys_ok s' \<and>
     (case e of
        Accepted t _ \<Rightarrow> tasks (pool s') = tasks (pool s) @ [t]
      | Taken t \<Rightarrow> tasks (pool s) = t # tasks (pool s')
      | Silent \<Rightarrow> tasks (pool s') = tasks (pool s))"

lemma worker_step_ok:
  assumes "worker_step s e s'" and ok: "sys_ok s"
  shows "event_ok s e s'"
  using assms(1)
proof (cases rule: worker_step.cases)
  case (takes i t p')
  note take = take_ok [OF _ busy [OF ok takes(6,7)] takes(8)]
  have "shutdown p' = shutdown (pool s)" using takes(8) by (auto simp: worker_takes_def)
  with takes take ok show ?thesis by (auto simp: event_ok_def sys_ok_def dest!: set_update)
next
  case (takes_nothing i p')
  then show ?thesis using take_ok(2) [OF _ busy [OF ok takes_nothing(6,7)] takes_nothing(8)] ok by (auto simp: sys_ok_def)
qed (use ok in \<open>auto simp: event_ok_def sys_ok_def worker_ends_def dest!: set_update\<close>)

lemma pool_step_ok:
  assumes "pool_step s e s'" and ok: "sys_ok s"
  shows "event_ok s e s'"
  using assms(1)
proof (cases rule: pool_step.cases)
  case worker
  then show ?thesis using ok by (rule worker_step_ok)
next
  case (add locked signalled unlocked t p' err ws')
  have "Crashed \<notin> set ws'" using wakes_old [OF add(6)] ok by (auto simp: sys_ok_def)
  moreover obtain h where "cnt (pool s) \<noteq> queue_size (pool s)" and
    "p' = (pool s)\<lparr>queue := (queue (pool s))[nat (tail (pool s)) := Some t],
             tail := (tail (pool s) + 1) mod queue_size (pool s), cnt := cnt (pool s) + 1, held := h\<rparr>"
    using add(4,5) by (auto elim!: threadpool_add_cases)
  ultimately show ?thesis using add put_ok [where p = "pool s" and p' = p' and t = t and h = h] ok by (auto simp: event_ok_def sys_ok_def)
next
  case (add_rejected locked signalled unlocked t p' err)
  then show ?thesis using ok by (auto simp: event_ok_def sys_ok_def elim!: threadpool_add_cases)
next
  case (destroy locked broadcast unlocked opt p' err)
  then show ?thesis
    using ok destroy_request_cases [OF destroy(4)] option_code_in [of opt]
    by (auto simp: event_ok_def sys_ok_def dest!: wake_all_old)
next
  case (destroyed joined)
  then show ?thesis using ok destroy_joined_cases [of joined "pool s"] by (auto simp: event_ok_def sys_ok_def)
qed

interpretation fifo: fifo_system pool_step sys_ok "\<lambda>s. tasks (pool s)"
  using pool_step_ok by unfold_locales (force simp: event_ok_def)+


definition start :: "'a pool \<Rightarrow> 'a sys" where
  "start p = \<lparr>pool = p, workers = replicate (nat (thread_count p)) Ready\<rparr>"

lemma start_workers_only:
  "start_workers created is p = (p', r) \<Longrightarrow> \<exists>n m. p' = p\<lparr>thread_count := n, started := m\<rparr>"
proof (induction "is" arbitrary: p)
  case Nil
  then have "p' = p\<lparr>thread_count := thread_count p, started := started p\<rparr>" by simp
  then show ?case by blast
next
  case (Cons i "is")
  show ?case
  proof (cases "created i")
    case True
    then obtain n m where "p' = p\<lparr>thread_count := n, started := m\<rparr>" using Cons by fastforce
    then show ?thesis by blast
  next
    case False
    then have "p' = p\<lparr>thread_count := thread_count p, started := started p\<rparr>" using Cons.prems by simp
    then show ?thesis by blast
  qed
qed

lemma pool_sizes_pos: "pool_sizes tc qs = (m, n) \<Longrightarrow> 0 < m \<and> m \<le> MAX_THREADS \<and> 0 < n \<and> n \<le> MAX_QUEUE"
  by (auto simp: pool_sizes_def MAX_THREADS_def MAX_QUEUE_def split: if_splits)

lemma create_ok:
  assumes "threadpool_create created tc qs p0 = (p, r)"
  shows "sys_ok (start p)" and "tasks p = []" and "shutdown p = 0" and "cnt p = 0" and "queue_size p \<le> MAX_QUEUE"
proof -
  obtain m n where mn: "pool_sizes tc qs = (m, n)" by fastforce
  have n: "0 < n" "n \<le> MAX_QUEUE" using pool_sizes_pos [OF mn] by auto
  obtain a b where p: "p = p0\<lparr>queue_size := n, head := 0, tail := 0, cnt := 0, shutdown := 0,
        queue := take (nat n) (queue p0) @ replicate (nat n - length (queue p0)) None, thread_count := a, started := b\<rparr>"
    using assms start_workers_only unfolding threadpool_create_def mn by fastforce
  show "sys_ok (start p)" using n by (simp add: sys_ok_def start_def pool_ok_def p)
  show "tasks p = []" "shutdown p = 0" "cnt p = 0" "queue_size p \<le> MAX_QUEUE" using n by (simp_all add: p tasks_def)
qed

lemma queue_size_step: "pool_step s e s' \<Longrightarrow> queue_size (pool s') = queue_size (pool s)"
  by (induction rule: pool_step.induct)
    (auto simp: worker_takes_def worker_ends_def destroy_joined_def threadpool_free_def elim!: worker_step.cases threadpool_add_cases
      dest!: destroy_request_cases)

lemma queue_size_run: "run pool_step s es s' \<Longrightarrow> queue_size (pool s') = queue_size (pool s)"
  by (induction rule: run.induct) (simp_all add: queue_size_step)

text \<open>
  C26: The pool is a bounded queue: whatever the interleaving of the workers with calls of \<open>threadpool_add\<close> and \<open>threadpool_destroy\<close>, the tasks
  are taken in the order in which they were accepted, each once, those that are left are in the ring buffer and never more than it has
  slots, and no worker calls an empty function.
\<close>

theorem pool_fifo:
  assumes "threadpool_create created tc qs p0 = (p, r)" and "run pool_step (start p) es s"
  shows "accepted es = taken es @ tasks (pool s) \<and> int (length (tasks (pool s))) \<le> queue_size p \<and> Crashed \<notin> set (workers s)"
proof -
  have "sys_ok s" by (rule fifo.run_ok [OF assms(2) create_ok(1) [OF assms(1)]])
  then have "int (length (tasks (pool s))) \<le> queue_size (pool s)" "Crashed \<notin> set (workers s)"
    using length_tasks [of "pool s"] by (simp_all add: sys_ok_def pool_ok_def)
  then show ?thesis
    using fifo.in_order [OF assms(2) create_ok(1) [OF assms(1)]] create_ok(2) [OF assms(1)] queue_size_run [OF assms(2)]
    by (simp add: start_def)
qed

subsection \<open>Wake-ups\<close>

text \<open>Tasks in the queue have as many workers that are about to take one, unless no worker waits.\<close>

definition ready :: "'a worker list \<Rightarrow> int" where
  "ready ws = int (length (filter (\<lambda>w. w = Ready) ws))"

definition awake :: "'a sys \<Rightarrow> bool" where
  "awake s \<longleftrightarrow>
     (Waiting \<in> set (workers s) \<longrightarrow> cnt (pool s) \<le> ready (workers s) \<and> (can_lock s \<longrightarrow> shutdown (pool s) = 0))"

lemma ready_update:
  "i < length ws \<Longrightarrow> ready (ws[i := w]) = ready ws - of_bool (ws ! i = Ready) + of_bool (w = Ready)"
proof (induction ws arbitrary: i)
  case (Cons v ws)
  then show ?case by (cases i) (auto simp: ready_def)
qed simp

lemma ready_pos: "0 \<le> ready ws"
  by (simp add: ready_def)

lemma update_waiting: "w \<noteq> Waiting \<Longrightarrow> Waiting \<in> set (ws[i := w]) \<Longrightarrow> Waiting \<in> set ws"
  by (auto dest: set_update)

lemma no_waiting_all: "Waiting \<notin> set (wake_all ws)"
  by (auto dest: wake_all_old)

lemma worker_step_awake:
  assumes "worker_step s e s'" and "awake s"
  shows "awake s'"
  using assms(1)
proof (cases rule: worker_step.cases)
  case (waits i)
  then show ?thesis using ready_pos [of "workers s'"] by (auto simp: awake_def worker_waits_def)
next
  case (wakes_up i)
  then have "Waiting \<in> set (workers s)" by (metis nth_mem)
  then show ?thesis using assms(2) wakes_up by (auto simp: awake_def ready_update can_lock_def)
next
  case (takes i t p')
  then have "held p' = held (pool s)" "freed p' = freed (pool s)" "shutdown p' = shutdown (pool s)" "cnt p' = cnt (pool s) - 1"
    by (auto simp: worker_takes_def)
  then show ?thesis using assms(2) takes by (auto simp: awake_def ready_update can_lock_def dest!: update_waiting [rotated])
next
  case (takes_nothing i p')
  then have "held p' = held (pool s)" "freed p' = freed (pool s)" "shutdown p' = shutdown (pool s)" "cnt p' = cnt (pool s) - 1"
    by (auto simp: worker_takes_def)
  then show ?thesis using assms(2) takes_nothing by (auto simp: awake_def ready_update can_lock_def dest!: update_waiting [rotated])
next
  case (finishes i t)
  then show ?thesis using assms(2) by (auto simp: awake_def ready_update can_lock_def dest!: update_waiting [rotated])
next
  case (quits i)
  have "Waiting \<notin> set (workers s)"
    using assms(2) quits(5,6) by (auto simp: awake_def worker_quits_def)
  then show ?thesis using quits by (auto simp: awake_def dest!: update_waiting [rotated])
qed

lemma pool_step_awake:
  assumes "pool_step s e s'" and "awake s" and "\<forall>t. e \<noteq> Accepted t False"
  shows "awake s'"
  using assms(1)
proof (cases rule: pool_step.cases)
  case worker
  then show ?thesis using assms(2) by (rule worker_step_awake)
next
  case (add locked signalled unlocked t p' err ws')
  from add(4,5) have p': "cnt p' = cnt (pool s) + 1" "shutdown p' = 0" "shutdown (pool s) = 0" by (auto elim!: threadpool_add_cases)
  from add(1) assms(3) have "signalled" by auto
  with add(6) consider "ws' = workers s" "Waiting \<notin> set (workers s)"
    | i where "i < length (workers s)" "workers s ! i = Waiting" "ws' = (workers s)[i := Ready]"
    by (auto elim: wakes.cases)
  then show ?thesis
  proof cases
    case 2
    then have "Waiting \<in> set (workers s)" by (metis nth_mem)
    then show ?thesis using assms(2) add(2) 2 p' by (auto simp: awake_def ready_update)
  qed (use add(2) in \<open>simp add: awake_def\<close>)
next
  case (add_rejected locked signalled unlocked t p' err)
  then have "p' = pool s \<or> p' = (pool s)\<lparr>held := True\<rparr>" by (auto elim!: threadpool_add_cases)
  then show ?thesis using assms(2) add_rejected(2) by (auto simp: awake_def can_lock_def)
next
  case (destroy locked broadcast unlocked opt p' err)
  show ?thesis
  proof (cases "broadcast \<and> shutdown p' \<noteq> shutdown (pool s)")
    case True
    then show ?thesis using destroy(2) no_waiting_all [of "workers s"] by (simp add: awake_def)
  next
    case False
    then show ?thesis
      using assms(2) destroy_request_cases [OF destroy(4)] destroy(2) option_code_in [of opt] by (auto simp: awake_def can_lock_def)
  qed
next
  case (destroyed joined)
  then show ?thesis by (auto simp: awake_def)
qed

lemma run_awake: "run pool_step s es s' \<Longrightarrow> awake s \<Longrightarrow> \<forall>t. Accepted t False \<notin> set es \<Longrightarrow> awake s'"
proof (induction rule: run.induct)
  case (run_snoc s es s' e s'')
  then show ?case by (intro pool_step_awake [OF run_snoc(2)]) auto
qed simp

text \<open>
  C37: Unless a signal fails, no wake-up is lost: while a worker waits, every task in the queue has a worker of its own that is awake and about to take one.
\<close>

theorem no_lost_wakeup:
  assumes "threadpool_create created tc qs p0 = (p, r)" and "run pool_step (start p) es s" and "\<forall>t. Accepted t False \<notin> set es"
    and "Waiting \<in> set (workers s)"
  shows "length (tasks (pool s)) \<le> length (filter (\<lambda>w. w = Ready) (workers s))"
proof -
  have "awake (start p)" by (simp add: awake_def start_def)
  then have "awake s" by (rule run_awake [OF assms(2) _ assms(3)])
  moreover have "int (length (tasks (pool s))) = cnt (pool s)"
    using fifo.run_ok [OF assms(2) create_ok(1) [OF assms(1)]] by (simp add: sys_ok_def length_tasks)
  ultimately show ?thesis using assms(4) by (simp add: awake_def ready_def)
qed


subsection \<open>Shutting down\<close>

fun worker_work :: "'a worker \<Rightarrow> nat" where
  "worker_work Ready = 1"
| "worker_work Waiting = 2"
| "worker_work (Running t) = 2"
| "worker_work Crashed = 0"
| "worker_work Exited = 0"

definition work :: "'a sys \<Rightarrow> nat" where
  "work s = 2 * nat (cnt (pool s)) + sum_list (map worker_work (workers s))"

lemma sum_list_update_work:
  "i < length ws \<Longrightarrow> sum_list (map worker_work (ws[i := w])) + worker_work (ws ! i) = sum_list (map worker_work ws) + worker_work w"
proof (induction ws arbitrary: i)
  case (Cons v ws)
  then show ?case by (cases i) auto
qed simp

text \<open>A pool that is to shut down gracefully, after the broadcast.\<close>

definition draining :: "'a sys \<Rightarrow> bool" where
  "draining s \<longleftrightarrow> sys_ok s \<and> shutdown (pool s) = 2 \<and> can_lock s \<and> (Exited \<in> set (workers s) \<longrightarrow> cnt (pool s) = 0)"

lemma draining_step:
  assumes "worker_step s e s'" and "draining s"
  shows "draining s'" and "work s' < work s"
proof -
  have ok: "sys_ok s'" using worker_step_ok [OF assms(1)] assms(2) by (auto simp: draining_def event_ok_def)
  have "draining s' \<and> work s' < work s"
    using assms(1)
  proof (cases rule: worker_step.cases)
    case (takes i t p')
    have "0 < cnt (pool s)" using busy [of s] takes assms(2) by (simp add: draining_def)
    moreover from takes(8) have "cnt p' = cnt (pool s) - 1" "shutdown p' = shutdown (pool s)" "held p' = held (pool s)"
      "freed p' = freed (pool s)"
      by (auto simp: worker_takes_def)
    ultimately show ?thesis
      using ok takes assms(2) sum_list_update_work [OF takes(3), of "Running t"]
      by (auto simp: draining_def work_def can_lock_def dest!: set_update)
  next
    case (takes_nothing i p')
    then show ?thesis using ok by (auto simp: sys_ok_def set_update_memI)
  next
    case (quits i)
    then have "cnt (pool s) = 0" using assms(2) by (simp add: draining_def worker_quits_def)
    then show ?thesis
      using ok quits assms(2) sum_list_update_work [OF quits(3), of Exited]
      by (auto simp: draining_def work_def can_lock_def worker_ends_def)
  next
    case (waits i)
    then show ?thesis using assms(2) by (simp add: draining_def worker_waits_def)
  next
    case (wakes_up i)
    then show ?thesis
      using ok assms(2) sum_list_update_work [OF wakes_up(3), of Ready] by (auto simp: draining_def work_def can_lock_def dest!: set_update)
  next
    case (finishes i t)
    then show ?thesis
      using ok assms(2) sum_list_update_work [OF finishes(3), of Ready] by (auto simp: draining_def work_def can_lock_def dest!: set_update)
  qed
  then show "draining s'" "work s' < work s" by auto
qed

lemma draining_run:
  assumes "run worker_step s es s'" and "draining s"
  shows "draining s' \<and> work s' + length es \<le> work s"
  using assms
proof (induction rule: run.induct)
  case (run_snoc s es s' e s'')
  then have "draining s'" "work s' + length es \<le> work s" by auto
  with draining_step [OF run_snoc(2)] show ?case by simp
qed simp

lemma draining_progress:
  assumes "draining s" and "w \<in> set (workers s)" and "w \<noteq> Exited"
  shows "\<exists>e s'. worker_step s e s'"
proof -
  obtain i where i: "i < length (workers s)" "workers s ! i = w" using assms(2) by (metis in_set_conv_nth)
  show ?thesis
  proof (cases w)
    case Ready
    show ?thesis
    proof (cases "worker_quits (pool s)")
      case True
      then show ?thesis using quits [of i s] i Ready assms(1) by (auto simp: draining_def)
    next
      case False
      have "\<not> worker_waits (pool s)" using assms(1) by (simp add: draining_def worker_waits_def)
      then show ?thesis
        using takes [of i s] takes_nothing [of i s] i Ready False assms(1)
        by (cases "worker_takes (pool s)"; cases "fst (worker_takes (pool s))") (auto simp: draining_def)
    qed
  next
    case Crashed
    then show ?thesis using assms by (simp add: draining_def sys_ok_def)
  qed (use i assms(3) wakes_up [of i s] finishes [of i s] in auto)
qed

text \<open>The worker steps of a run are steps of the system.\<close>

lemma run_worker: "run worker_step s es s' \<Longrightarrow> run pool_step s es s'"
  by (induction rule: run.induct) (auto intro: run.intros worker)

lemma drains:
  assumes "sys_ok s0" and "can_lock s0" and "Exited \<notin> set (workers s0)" and "workers s0 \<noteq> []"
    and p': "p' = (pool s0)\<lparr>shutdown := 2\<rparr>" and "run worker_step \<lparr>pool = p', workers = wake_all (workers s0)\<rparr> es s"
  shows "length es \<le> work \<lparr>pool = p', workers = wake_all (workers s0)\<rparr>"
    and "(\<nexists>e s'. worker_step s e s') \<Longrightarrow> (\<forall>w \<in> set (workers s). w = Exited) \<and> taken es = tasks (pool s0) \<and> tasks (pool s) = []"
proof -
  let ?s1 = "\<lparr>pool = p', workers = wake_all (workers s0)\<rparr>"
  have d: "draining ?s1"
    using assms(1-3) by (auto simp: draining_def sys_ok_def can_lock_def p' dest!: wake_all_old)
  note run = draining_run [OF assms(6) d]
  show "length es \<le> work ?s1" using run by simp
  assume stuck: "\<nexists>e s'. worker_step s e s'"
  then have exited: "\<forall>w \<in> set (workers s). w = Exited" using draining_progress run by blast
  have "length (workers s) = length (workers s0)"
  proof -
    have "worker_step s e s' \<Longrightarrow> length (workers s') = length (workers s)" for s e and s' :: "'a sys"
      by (induction rule: worker_step.induct) auto
    with assms(6) have "length (workers s) = length (workers ?s1)" by (induction rule: run.induct) auto
    then show ?thesis by (simp add: wake_all_def)
  qed
  then have "Exited \<in> set (workers s)" using exited assms(4) by (cases "workers s") auto
  then have "cnt (pool s) = 0" using run by (simp add: draining_def)
  then have "tasks (pool s) = []" by (simp add: tasks_def)
  moreover have "tasks (pool s0) @ accepted es = taken es @ tasks (pool s)"
    using fifo.in_order [OF run_worker [OF assms(6)]] d by (simp add: draining_def p')
  moreover have "accepted es = []"
  proof -
    have "worker_step s e s' \<Longrightarrow> accepted [e] = []" for s e and s' :: "'a sys"
      by (induction rule: worker_step.induct) auto
    with assms(6) show ?thesis by (induction rule: run.induct) auto
  qed
  ultimately show "(\<forall>w \<in> set (workers s). w = Exited) \<and> taken es = tasks (pool s0) \<and> tasks (pool s) = []" using exited by simp
qed


text \<open>Before the shutdown no worker exits, and a successful creation starts at least one.\<close>

lemma alive_step:
  assumes "pool_step s e s'" and "shutdown (pool s) = 0 \<longrightarrow> Exited \<notin> set (workers s)"
  shows "shutdown (pool s') = 0 \<longrightarrow> Exited \<notin> set (workers s')"
  using assms
  by (induction rule: pool_step.induct)
    (auto simp: worker_takes_def worker_ends_def worker_quits_def destroy_joined_def threadpool_free_def dest!: set_update wakes_old wake_all_old destroy_request_cases
      elim!: worker_step.cases threadpool_add_cases split: if_splits)

lemma alive_run:
  assumes "run pool_step s es s'" and "shutdown (pool s) = 0 \<longrightarrow> Exited \<notin> set (workers s)"
  shows "shutdown (pool s') = 0 \<longrightarrow> Exited \<notin> set (workers s')"
  using assms by (induction rule: run.induct) (simp_all add: alive_step)

lemma workers_length_step: "pool_step s e s' \<Longrightarrow> length (workers s') = length (workers s)"
  by (induction rule: pool_step.induct) (auto simp: wake_all_def elim!: worker_step.cases wakes.cases)

lemma workers_length_run: "run pool_step s es s' \<Longrightarrow> length (workers s') = length (workers s)"
  by (induction rule: run.induct) (simp_all add: workers_length_step)

lemma start_workers_all: "start_workers created is p = (p', 0) \<Longrightarrow> thread_count p' = thread_count p + int (length is)"
  by (induction "is" arbitrary: p) (auto split: if_splits)

lemma create_starts: "threadpool_create created tc qs p0 = (p, 0) \<Longrightarrow> 0 < thread_count p"
  using pool_sizes_pos [of tc qs] by (auto simp: threadpool_create_def dest!: start_workers_all split: prod.splits)

text \<open>
  C28: A graceful shutdown drains the pool. From the broadcast on the workers make only finitely many steps, and once none can make another,
  all of them have exited, so that they can be joined, and have taken every task that was in the queue, in its order.
\<close>

theorem graceful_drains:
  assumes "threadpool_create created tc qs p0 = (p, 0)" and "run pool_step (start p) es0 s0" and "can_lock s0"
    and "destroy_request True True True graceful_shutdown (pool s0) = (p', 0)"
    and "run worker_step \<lparr>pool = p', workers = wake_all (workers s0)\<rparr> es s"
  shows "length es \<le> work \<lparr>pool = p', workers = wake_all (workers s0)\<rparr> \<and>
    ((\<nexists>e s'. worker_step s e s') \<longrightarrow>
       (\<forall>w \<in> set (workers s). w = Exited) \<and> taken es = tasks (pool s0) \<and> tasks (pool s) = [])"
proof -
  have p': "p' = (pool s0)\<lparr>shutdown := 2\<rparr>" and "shutdown (pool s0) = 0"
    using assms(4) by (auto simp: destroy_request_def Let_def pool_errors split: if_splits)
  then have "Exited \<notin> set (workers s0)" using alive_run [OF assms(2)] by (simp add: start_def)
  moreover have "workers s0 \<noteq> []"
    using workers_length_run [OF assms(2)] create_starts [OF assms(1)] by (auto simp: start_def)
  moreover have "sys_ok s0" by (rule fifo.run_ok [OF assms(2) create_ok(1) [OF assms(1)]])
  ultimately show ?thesis using drains [OF _ assms(3) _ _ p' assms(5)] by blast
qed

text \<open>Once a call has left the mutex locked, nothing moves but the tasks that already run.\<close>

lemma blocked_step:
  assumes "pool_step s e s'" and "held (pool s)"
  shows "pool s' = pool s \<and> taken [e] = [] \<and> length (workers s') = length (workers s) \<and>
    (\<forall>i < length (workers s). workers s' ! i = Exited \<longleftrightarrow> workers s ! i = Exited)"
  using assms
  by (induction rule: pool_step.induct) (auto simp: can_lock_def nth_list_update elim!: worker_step.cases split: if_splits)

lemma blocked_run:
  assumes "run pool_step s es s'"
  shows "held (pool s) \<Longrightarrow> pool s' = pool s \<and> taken es = [] \<and> length (workers s') = length (workers s) \<and>
    (\<forall>i < length (workers s). workers s' ! i = Exited \<longleftrightarrow> workers s ! i = Exited)"
  using assms
proof (induction rule: run.induct)
  case (run_snoc s es s' e s'')
  then show ?case using blocked_step [OF run_snoc(2)] by auto
qed simp

text \<open>
  A second \<open>threadpool_destroy\<close>, made while the first still waits for the workers, returns without unlocking the mutex. From then on
  the pool never changes, so no queued task is taken any more, and no worker exits that had not before, so the first call
  waits forever.
\<close>

theorem destroy_again_blocks:
  assumes "shutdown (pool s) \<noteq> 0" and "destroy_request True broadcast unlocked opt (pool s) = (p', err)"
    and "run pool_step \<lparr>pool = p', workers = workers s\<rparr> es s'"
  shows "err = THREADPOOL_SHUTDOWN \<and> pool s' = p' \<and> taken es = [] \<and>
    (\<forall>i < length (workers s). workers s' ! i = Exited \<longleftrightarrow> workers s ! i = Exited)"
proof -
  have p': "p' = (pool s)\<lparr>held := True\<rparr>" and err: "err = THREADPOOL_SHUTDOWN"
    using assms(1,2) by (auto simp: destroy_request_def)
  show ?thesis using blocked_run [OF assms(3)] by (simp add: p' err)
qed


subsection \<open>An example\<close>

text \<open>Two workers wait for tasks; one task is added, then another.\<close>

definition demo_pool :: "nat option list \<Rightarrow> int \<Rightarrow> int \<Rightarrow> int \<Rightarrow> int \<Rightarrow> int \<Rightarrow> nat pool" where
  "demo_pool q h t c sd n =
     \<lparr>queue = q, thread_count = 2, queue_size = 2, head = h, tail = t, cnt = c, shutdown = sd, started = n, held = False, freed = False\<rparr>"

definition demo_new :: "nat pool" where
  "demo_new = demo_pool [None, None] 0 0 0 0 2"

definition demo_one :: "nat sys" where
  "demo_one = \<lparr>pool = demo_pool [Some 7, None] 0 1 1 0 2, workers = [Ready, Waiting]\<rparr>"

definition demo_two :: "nat sys" where
  "demo_two = \<lparr>pool = demo_pool [Some 7, Some 8] 0 0 2 0 2, workers = [Ready, Ready]\<rparr>"

lemma demo_create: "threadpool_create (\<lambda>_. True) 2 2 pool_init = (demo_new, 0)"
  by code_simp

lemma demo_wait: "run pool_step (start demo_new) [Silent, Silent] \<lparr>pool = demo_new, workers = [Waiting, Waiting]\<rparr>"
proof -
  have "start demo_new = \<lparr>pool = demo_new, workers = [Ready, Ready]\<rparr>"
    by (simp add: start_def demo_new_def demo_pool_def numeral_2_eq_2)
  moreover have "worker_step \<lparr>pool = demo_new, workers = [Ready, Ready]\<rparr> Silent \<lparr>pool = demo_new, workers = [Waiting, Ready]\<rparr>"
    using waits [of 0 "\<lparr>pool = demo_new, workers = [Ready, Ready]\<rparr>"] by (simp add: demo_new_def demo_pool_def can_lock_def worker_waits_def)
  moreover have "worker_step \<lparr>pool = demo_new, workers = [Waiting, Ready]\<rparr> Silent \<lparr>pool = demo_new, workers = [Waiting, Waiting]\<rparr>"
    using waits [of 1 "\<lparr>pool = demo_new, workers = [Waiting, Ready]\<rparr>"] by (simp add: demo_new_def demo_pool_def can_lock_def worker_waits_def)
  ultimately show ?thesis by (metis run_cons run_nil worker)
qed

lemma demo_run_one: "run pool_step (start demo_new) [Silent, Silent, Accepted 7 True] demo_one"
proof -
  have "pool_step \<lparr>pool = demo_new, workers = [Waiting, Waiting]\<rparr> (Accepted 7 True) demo_one"
    unfolding demo_one_def
  proof (rule add)
    show "threadpool_add True True True 7 (pool \<lparr>pool = demo_new, workers = [Waiting, Waiting]\<rparr>) = (demo_pool [Some 7, None] 0 1 1 0 2, 0)"
      by code_simp
    show "wakes True (workers \<lparr>pool = demo_new, workers = [Waiting, Waiting]\<rparr>) [Ready, Waiting]"
      using wake [of 0 "[Waiting, Waiting]"] by simp
  qed (simp_all add: demo_new_def demo_pool_def can_lock_def)
  then show ?thesis using run_snoc [where step = pool_step, OF demo_wait] by simp
qed

lemma demo_run_two: "run pool_step (start demo_new) [Silent, Silent, Accepted 7 True, Accepted 8 True] demo_two"
proof -
  have "pool_step demo_one (Accepted 8 True) demo_two"
    unfolding demo_two_def
  proof (rule add)
    show "threadpool_add True True True 8 (pool demo_one) = (demo_pool [Some 7, Some 8] 0 0 2 0 2, 0)" by code_simp
    show "wakes True (workers demo_one) [Ready, Ready]" using wake [of 1 "[Ready, Waiting]"] by (simp add: demo_one_def)
  qed (simp_all add: demo_one_def demo_pool_def can_lock_def)
  then show ?thesis using run_snoc [where step = pool_step, OF demo_run_one] by simp
qed

theorem pool_fifo_witness:
  "\<exists>s. run pool_step (start demo_new) [Silent, Silent, Accepted 7 True, Accepted 8 True, Taken 7] s \<and> tasks (pool s) = [8]"
proof -
  let ?s = "\<lparr>pool = demo_pool [None, Some 8] 1 0 1 0 2, workers = [Running 7, Ready]\<rparr>"
  have "worker_takes (pool demo_two) = (Some 7, demo_pool [None, Some 8] 1 0 1 0 2)" by code_simp
  then have "worker_step demo_two (Taken 7) ?s"
    using takes [of 0 demo_two 7]
    by (auto simp: demo_two_def demo_pool_def can_lock_def worker_waits_def worker_quits_def)
  then have r: "run pool_step (start demo_new) [Silent, Silent, Accepted 7 True, Accepted 8 True, Taken 7] ?s"
    using run_snoc [where step = pool_step, OF demo_run_two worker] by simp
  have "accepted [Silent, Silent, Accepted 7 True, Accepted 8 True, Taken 7] = [7 :: nat, 8]"
    "taken [Silent, Silent, Accepted 7 True, Accepted 8 True, Taken 7] = [7 :: nat]"
    by (simp_all add: accepted_def taken_def map_filter_simps)
  with pool_fifo [OF demo_create r] r show ?thesis by auto
qed

theorem no_lost_wakeup_witness:
  "Waiting \<in> set (workers demo_one) \<and> length (tasks (pool demo_one)) \<le> length (filter (\<lambda>w. w = Ready) (workers demo_one))"
  using no_lost_wakeup [OF demo_create demo_run_one] by (auto simp: demo_one_def)

definition demo_stop :: "nat sys" where
  "demo_stop = \<lparr>pool = demo_pool [Some 7, None] 0 1 1 2 2, workers = [Ready, Ready]\<rparr>"

lemma demo_drain:
  "run worker_step demo_stop [Taken 7, Silent, Silent, Silent] \<lparr>pool = demo_pool [None, None] 1 1 0 2 0, workers = [Exited, Exited]\<rparr>"
proof -
  let ?p = "demo_pool [None, None] 1 1 0 2"
  have "worker_takes (pool demo_stop) = (Some 7, ?p 2)" by code_simp
  then have 1: "worker_step demo_stop (Taken 7) \<lparr>pool = ?p 2, workers = [Running 7, Ready]\<rparr>"
    using takes [of 0 demo_stop 7] by (auto simp: demo_stop_def demo_pool_def can_lock_def worker_waits_def worker_quits_def)
  have 2: "worker_step \<lparr>pool = ?p 2, workers = [Running 7, Ready]\<rparr> Silent \<lparr>pool = ?p 2, workers = [Ready, Ready]\<rparr>"
    using finishes [of 0 "\<lparr>pool = ?p 2, workers = [Running 7, Ready]\<rparr>"] by simp
  have 3: "worker_step \<lparr>pool = ?p 2, workers = [Ready, Ready]\<rparr> Silent \<lparr>pool = ?p 1, workers = [Exited, Ready]\<rparr>"
    using quits [of 0 "\<lparr>pool = ?p 2, workers = [Ready, Ready]\<rparr>"]
    by (simp add: demo_pool_def can_lock_def worker_quits_def worker_ends_def)
  have 4: "worker_step \<lparr>pool = ?p 1, workers = [Exited, Ready]\<rparr> Silent \<lparr>pool = ?p 0, workers = [Exited, Exited]\<rparr>"
    using quits [of 1 "\<lparr>pool = ?p 1, workers = [Exited, Ready]\<rparr>"]
    by (simp add: demo_pool_def can_lock_def worker_quits_def worker_ends_def)
  show ?thesis using run_cons [where step = worker_step, OF run_cons [where step = worker_step, OF run_cons [where step = worker_step,
          OF run_cons [where step = worker_step, OF run_nil 4] 3] 2] 1] .
qed

theorem graceful_drains_witness:
  "\<exists>es s. run worker_step demo_stop es s \<and> (\<forall>w \<in> set (workers s). w = Exited) \<and> taken es = tasks (pool demo_one)"
proof -
  have "destroy_request True True True graceful_shutdown (pool demo_one) = (pool demo_stop, 0)" by code_simp
  note claim = graceful_drains [OF demo_create demo_run_one _ this]
  have "demo_stop = \<lparr>pool = pool demo_stop, workers = wake_all (workers demo_one)\<rparr>"
    by (simp add: demo_stop_def demo_one_def wake_all_def)
  with claim demo_drain
  have "(\<nexists>e s'. worker_step \<lparr>pool = demo_pool [None, None] 1 1 0 2 0, workers = [Exited, Exited]\<rparr> e s') \<longrightarrow>
      taken [Taken 7, Silent, Silent, Silent] = tasks (pool demo_one)"
    by (auto simp: can_lock_def demo_one_def demo_pool_def)
  moreover have "\<nexists>e s'. worker_step \<lparr>pool = demo_pool [None, None] 1 1 0 2 0, workers = [Exited, Exited]\<rparr> e s'"
    by (auto simp: less_Suc_eq nth_Cons' elim!: worker_step.cases)
  ultimately show ?thesis using demo_drain by fastforce
qed

theorem destroy_again_blocks_witness:
  "\<exists>p'. destroy_request True True True graceful_shutdown (pool demo_stop) = (p', THREADPOOL_SHUTDOWN) \<and>
     (\<forall>es s'. run pool_step \<lparr>pool = p', workers = workers demo_stop\<rparr> es s' \<longrightarrow> workers s' ! 0 \<noteq> Exited)"
proof -
  obtain p' err where d: "destroy_request True True True graceful_shutdown (pool demo_stop) = (p', err)" by fastforce
  have stopped: "shutdown (pool demo_stop) \<noteq> 0" by (simp add: demo_stop_def demo_pool_def)
  have "workers s' ! 0 \<noteq> Exited" if "run pool_step \<lparr>pool = p', workers = workers demo_stop\<rparr> es s'" for es s'
    using destroy_again_blocks [OF stopped d that] by (auto simp: demo_stop_def)
  moreover have "err = THREADPOOL_SHUTDOWN" using destroy_again_blocks [OF stopped d run_nil] by simp
  ultimately show ?thesis using d by blast
qed

end
