(* ===== verification/Transport.thy ===== *)
theory Transport
  imports StringOp
begin

section \<open>Messages of the language server client\<close>

text \<open>
  Models \<open>PipeCommunicator::write\<close> and \<open>read\<close> of \<open>src/lsp/communicator.cpp\<close> and the class \<open>JSONRpcEndpoint\<close> of
  \<open>src/lsp/client.cpp\<close>. The pipe to read from is the list of what its calls of \<open>read\<close> will meet: bytes, of which a
  call gets at most as many as it asks for, or one of the two kinds of errors; an empty list is the end of the file. For the pipe to write to
  the list holds the outcomes of the calls of \<open>write\<close>, and an empty list stands for a pipe that takes everything. Of \<open>errno\<close> the code only
  asks whether it is \<open>EAGAIN\<close> or \<open>EWOULDBLOCK\<close>. Sleeping, locking and logging are left out. The JSON library is a
  parameter.
\<close>

datatype chunk = Data char string | Again | Failed

datatype write_result = Wrote nat | Write_again | Write_failed

record channel =
  incoming :: "chunk list"
  errno_again :: bool
  writes :: "write_result list"
  outgoing :: string

fun chunk_size :: "chunk \<Rightarrow> nat" where
  "chunk_size (Data c s) = Suc (length s)"
| "chunk_size Again = 1"
| "chunk_size Failed = 1"

definition pending :: "channel \<Rightarrow> nat" where
  "pending ch = sum_list (map chunk_size (incoming ch))"

subsection \<open>Reading from the pipe\<close>

definition rest_of :: "string \<Rightarrow> chunk list" where
  "rest_of s = (case s of [] \<Rightarrow> [] | c # s' \<Rightarrow> [Data c s'])"

text \<open>The system call: its result, the bytes, and the channel afterwards.\<close>

definition sys_read :: "nat \<Rightarrow> channel \<Rightarrow> int \<times> string \<times> channel" where
  "sys_read n ch =
     (case incoming ch of
        [] \<Rightarrow> (0, [], ch)
      | Data c s # cs \<Rightarrow>
          (let got = take n (c # s) in (int (length got), got, ch\<lparr>incoming := rest_of (drop n (c # s)) @ cs\<rparr>))
      | Again # cs \<Rightarrow> (- 1, [], ch\<lparr>incoming := cs, errno_again := True\<rparr>)
      | Failed # cs \<Rightarrow> (- 1, [], ch\<lparr>incoming := cs, errno_again := False\<rparr>))"

lemma pending_rest: "sum_list (map chunk_size (rest_of s)) = length s"
  by (cases s) (simp_all add: rest_of_def)

lemma sys_read_less:
  assumes "sys_read n ch = (r, s, ch')" and "0 < n" and "r \<noteq> 0"
  shows "pending ch' < pending ch"
  using assms by (auto simp: sys_read_def pending_def pending_rest Let_def split: list.splits chunk.splits)

lemma sys_read_eof: "sys_read n ch = (0, s, ch') \<Longrightarrow> 0 < n \<Longrightarrow> ch' = ch \<and> s = [] \<and> incoming ch = []"
  by (auto simp: sys_read_def Let_def split: list.splits chunk.splits)

definition MaxRetryCnt :: nat where "MaxRetryCnt = 3"

text \<open>\<open>PipeCommunicator::read\<close>, with what it has put into the buffer so far.\<close>

function pipe_read :: "nat \<Rightarrow> string \<Rightarrow> nat \<Rightarrow> channel \<Rightarrow> int \<times> string \<times> channel" where
  "pipe_read len buf retryCnt ch =
     (if length buf < len then
        (case sys_read (len - length buf) ch of
           (bytesRead, s, ch') \<Rightarrow>
             if bytesRead = - 1 then
               (if errno_again ch' then
                  (if buf = [] then (0, buf, ch')
                   else if retryCnt < MaxRetryCnt then pipe_read len buf (retryCnt + 1) ch'
                   else (- 1, buf, ch'))
                else (- 1, buf, ch'))
             else if bytesRead = 0 then (0, buf, ch')
             else pipe_read len (buf @ s) retryCnt ch')
      else (int (length buf), buf, ch))"
  by pat_completeness auto
termination
  by (relation "measure (\<lambda>(len, buf, retryCnt, ch). pending ch)") (auto dest: sys_read_less [OF sym])

declare pipe_read.simps [simp del]

lemma pipe_read_pending:
  "pipe_read len buf retryCnt ch = (r, s, ch') \<Longrightarrow>
   pending ch' \<le> pending ch \<and> (length buf < len \<longrightarrow> 0 < r \<longrightarrow> pending ch' < pending ch)"
proof (induction len buf retryCnt ch rule: pipe_read.induct)
  case (1 len buf retryCnt ch)
  show ?case
  proof (cases "length buf < len")
    case True
    obtain b t ch1 where step: "sys_read (len - length buf) ch = (b, t, ch1)" by (cases "sys_read (len - length buf) ch") auto
    have pos: "0 < len - length buf" using True by simp
    have less: "b \<noteq> 0 \<Longrightarrow> pending ch1 < pending ch" by (rule sys_read_less [OF step pos])
    have same: "b = 0 \<Longrightarrow> ch1 = ch" using sys_read_eof [OF _ pos] step by blast
    note unfolded = 1(3) [unfolded pipe_read.simps [of len buf retryCnt ch] step prod.case if_P [OF True]]
    consider "b = - 1" "errno_again ch1" "buf \<noteq> []" "retryCnt < MaxRetryCnt" | "b \<noteq> - 1" "b \<noteq> 0"
      | "ch' = ch1" "r \<le> 0"
      using unfolded by (auto split: if_splits)
    then show ?thesis
    proof cases
      case 1
      then have "pipe_read len buf (retryCnt + 1) ch1 = (r, s, ch')" using unfolded by simp
      with "1.IH"(1) [OF True step [symmetric] refl] 1 less show ?thesis by fastforce
    next
      case 2
      then have "pipe_read len (buf @ t) retryCnt ch1 = (r, s, ch')" using unfolded by simp
      with "1.IH"(2) [OF True step [symmetric] refl] 2 less show ?thesis by fastforce
    next
      case 3
      then show ?thesis using less same by (cases "b = 0") auto
    qed
  next
    case False
    then show ?thesis using 1(3) by (simp add: pipe_read.simps)
  qed
qed


subsection \<open>Receiving a message\<close>

datatype rpc_error = Buffer_overrun | Length_error

abbreviation NUL :: char where "NUL \<equiv> CHR 0x00"
abbreviation CR :: char where "CR \<equiv> CHR 0x0D"

text \<open>
  \<open>readLine\<close> collects bytes in an array of 256 that is filled with zeros. A longer line is written behind the array, and
  a line that fills it is read beyond it. The result ends at the first zero. It is empty when nothing came or an error occurred.
\<close>

function read_line_loop :: "string \<Rightarrow> channel \<Rightarrow> rpc_error + string \<times> channel" where
  "read_line_loop buf ch =
     (if 256 \<le> length buf then Inl Buffer_overrun
      else
        (case pipe_read 1 [] 0 ch of
           (bytesRead, s, ch') \<Rightarrow>
             if bytesRead \<le> 0 then Inr ([], ch')
             else if s = [NL] then
               (if length buf = 255 then Inl Buffer_overrun else Inr (takeWhile (\<lambda>c. c \<noteq> NUL) (buf @ s), ch'))
             else read_line_loop (buf @ s) ch'))"
  by pat_completeness auto
termination
  by (relation "measure (\<lambda>(buf, ch). pending ch)") (auto dest: pipe_read_pending [OF sym])

declare read_line_loop.simps [simp del]

definition readLine :: "channel \<Rightarrow> rpc_error + string \<times> channel" where
  "readLine = read_line_loop []"

lemma read_line_less: "read_line_loop buf ch = Inr (line, ch') \<Longrightarrow> line \<noteq> [] \<Longrightarrow> pending ch' < pending ch"
proof (induction buf ch rule: read_line_loop.induct)
  case (1 buf ch)
  obtain r s ch1 where step: "pipe_read 1 [] 0 ch = (r, s, ch1)" by (cases "pipe_read 1 [] 0 ch") auto
  then have less: "0 < r \<Longrightarrow> pending ch1 < pending ch" using pipe_read_pending [OF step] by simp
  show ?case
    using 1(2) 1(1) [OF _ step [symmetric] refl] 1(3) less
    unfolding read_line_loop.simps [of buf ch] step by (auto split: if_splits)
qed

definition LEN_HEADER :: string where "LEN_HEADER = ''Content-Length: ''"
definition TYPE_HEADER :: string where "TYPE_HEADER = ''Content-Type: ''"

text \<open>\<open>strtoll\<close> in base 10: white space, a sign, digits; it stops at the limits of the type.\<close>

fun digits_value :: "int \<Rightarrow> string \<Rightarrow> int" where
  "digits_value acc [] = acc"
| "digits_value acc (c # s) = (if isdigit c then digits_value (10 * acc + (int (of_char c) - 48)) s else acc)"

definition strtoll :: "string \<Rightarrow> int" where
  "strtoll s =
     (let v = (case dropWhile isspace s of
                 [] \<Rightarrow> 0
               | c # t \<Rightarrow> if c = CHR ''-'' then - digits_value 0 t else if c = CHR ''+'' then digits_value 0 t else digits_value 0 (c # t))
      in max (- (2 ^ 63)) (min (2 ^ 63 - 1) v))"

text \<open>The header lines: nothing to read, an illegal line, or the size of the body.\<close>

datatype header = No_data | Illegal | Body_size int

function recv_headers :: "int \<Rightarrow> channel \<Rightarrow> rpc_error + header \<times> channel" where
  "recv_headers bodySize ch =
     (case readLine ch of
        Inl e \<Rightarrow> Inl e
      | Inr (line, ch') \<Rightarrow>
          if line = [] then Inr (No_data, ch')
          else if \<not> ends_with line [CR, NL] then Inr (Illegal, ch')
          else
            (let line = take (length line - 2) line
             in if line = [] then Inr (Body_size bodySize, ch')
                else if starts_with line LEN_HEADER then recv_headers (strtoll (drop (length LEN_HEADER) line)) ch'
                else recv_headers bodySize ch'))"
  by pat_completeness auto
termination
  by (relation "measure (\<lambda>(n, ch). pending ch)") (auto simp: readLine_def dest: read_line_less)

declare recv_headers.simps [simp del]

definition maxRetryCnt :: nat where "maxRetryCnt = 6"

text \<open>\<open>readMessageContent\<close>; nothing is returned when the body cannot be read in full.\<close>

function content_loop :: "nat \<Rightarrow> string \<Rightarrow> nat \<Rightarrow> channel \<Rightarrow> string \<times> channel" where
  "content_loop len content retryCnt ch =
     (if length content < len then
        (case pipe_read (len - length content) [] 0 ch of
           (bytesRead, s, ch') \<Rightarrow>
             if bytesRead = 0 \<and> errno_again ch' then
               (if retryCnt < maxRetryCnt then content_loop len content (retryCnt + 1) ch' else ([], ch'))
             else if bytesRead \<le> 0 then ([], ch')
             else content_loop len (content @ s) retryCnt ch')
      else (content, ch))"
  by pat_completeness auto
termination
  by (relation "measure (\<lambda>(len, content, retryCnt, ch). pending ch + (maxRetryCnt - retryCnt))")
    (auto dest!: pipe_read_pending [OF sym])

declare content_loop.simps [simp del]

definition readMessageContent :: "int \<Rightarrow> channel \<Rightarrow> rpc_error + string \<times> channel" where
  "readMessageContent len ch = (if len < 0 then Inl Length_error else Inr (content_loop (nat len) [] 0 ch))"

text \<open>
  \<open>RecvResponse\<close>. The parser of the JSON library returns nothing for an illegal text; \<open>empty_string\<close> is the JSON string
  without characters.
\<close>

definition RecvResponse :: "(string \<Rightarrow> 'j option) \<Rightarrow> 'j \<Rightarrow> channel \<Rightarrow> rpc_error + 'j option \<times> channel" where
  "RecvResponse parse empty_string ch =
     (case recv_headers (- 1) ch of
        Inl e \<Rightarrow> Inl e
      | Inr (No_data, ch') \<Rightarrow> Inr (Some empty_string, ch')
      | Inr (Illegal, ch') \<Rightarrow> Inr (None, ch')
      | Inr (Body_size bodySize, ch') \<Rightarrow>
          if bodySize = - 1 then Inr (None, ch')
          else
            (case readMessageContent bodySize ch' of
               Inl e \<Rightarrow> Inl e
             | Inr (msgContent, ch'') \<Rightarrow> Inr (parse msgContent, ch'')))"

subsection \<open>Sending a message\<close>

text \<open>A number in decimal.\<close>

fun decimal :: "nat \<Rightarrow> string" where
  "decimal n = (if n < 10 then [char_of (48 + n)] else decimal (n div 10) @ [char_of (48 + n mod 10)])"

declare decimal.simps [simp del]

definition fillMessageHeader :: "string \<Rightarrow> string" where
  "fillMessageHeader body = LEN_HEADER @ decimal (length body) @ [CR, NL, CR, NL] @ body"

definition BufSize :: nat where "BufSize = 4096"
definition MaxRetries :: nat where "MaxRetries = 10"

text \<open>\<open>PipeCommunicator::write\<close>: the number of bytes written.\<close>

function pipe_write :: "string \<Rightarrow> nat \<Rightarrow> nat \<Rightarrow> channel \<Rightarrow> nat \<times> channel" where
  "pipe_write message written retries ch =
     (if written < length message then
        (let n = min BufSize (length message - written)
         in case writes ch of
              [] \<Rightarrow> pipe_write message (written + n) 0 (ch\<lparr>outgoing := outgoing ch @ substr message written n\<rparr>)
            | Wrote k # ws \<Rightarrow>
                pipe_write message (written + min k n) 0 (ch\<lparr>outgoing := outgoing ch @ substr message written (min k n), writes := ws\<rparr>)
            | Write_again # ws \<Rightarrow>
                (if MaxRetries \<le> retries + 1 then (written, ch\<lparr>writes := ws, errno_again := True\<rparr>)
                 else pipe_write message written (retries + 1) (ch\<lparr>writes := ws, errno_again := True\<rparr>))
            | Write_failed # ws \<Rightarrow> (written, ch\<lparr>writes := ws, errno_again := False\<rparr>))
      else (written, ch))"
  by pat_completeness auto
termination
  by (relation "measures [\<lambda>(m, written, r, ch). length (writes ch), \<lambda>(m, written, r, ch). length m - written]")
    (auto simp: BufSize_def)

declare pipe_write.simps [simp del]

definition SendRequest :: "('j \<Rightarrow> string) \<Rightarrow> 'j \<Rightarrow> channel \<Rightarrow> nat \<times> channel" where
  "SendRequest dump json ch = pipe_write (fillMessageHeader (dump json)) 0 0 ch"


subsection \<open>A message arrives\<close>

text \<open>Bytes that wait in the pipe, in whatever pieces.\<close>

fun chunk_bytes :: "chunk \<Rightarrow> string" where
  "chunk_bytes (Data c s) = c # s"
| "chunk_bytes _ = []"

definition stream :: "chunk list \<Rightarrow> string \<Rightarrow> bool" where
  "stream cs s \<longleftrightarrow> Again \<notin> set cs \<and> Failed \<notin> set cs \<and> concat (map chunk_bytes cs) = s"

lemma stream_simps [simp]:
  "stream [] s \<longleftrightarrow> s = []" "stream (Data c t # cs) s \<longleftrightarrow> (\<exists>s'. s = c # t @ s' \<and> stream cs s')"
  "\<not> stream (Again # cs) s" "\<not> stream (Failed # cs) s"
  by (auto simp: stream_def)

lemma stream_cases:
  obtains "cs = []" | c t cs' where "cs = Data c t # cs'" | cs' where "cs = Again # cs'" | cs' where "cs = Failed # cs'"
  by (metis chunk.exhaust list.exhaust)

lemma stream_rest [simp]: "stream (rest_of t @ cs) s \<longleftrightarrow> (\<exists>s'. s = t @ s' \<and> stream cs s')"
  by (cases t) (auto simp: rest_of_def)

lemma sys_read_stream:
  assumes "stream (incoming ch) s" and "s \<noteq> []" and "0 < n"
  obtains k cs where "sys_read n ch = (int k, take k s, ch\<lparr>incoming := cs\<rparr>)" and "stream cs (drop k s)" and "0 < k" and "k \<le> n" and "k \<le> length s"
proof (cases "incoming ch")
  case Nil
  then show thesis using assms by simp
next
  case (Cons c cs)
  then obtain x t s' where c: "c = Data x t" "s = x # t @ s'" "stream cs s'" using assms(1) by (cases c) auto
  let ?k = "min n (Suc (length t))"
  have "sys_read n ch = (int ?k, take ?k s, ch\<lparr>incoming := rest_of (drop n (x # t)) @ cs\<rparr>)"
  proof -
    have "take ?k s = take n (x # t)" using take_append [of ?k "x # t" s'] c(2) by (simp add: min_def)
    then show ?thesis using c Cons by (simp add: sys_read_def Let_def min_def)
  qed
  moreover have "stream (rest_of (drop n (x # t)) @ cs) (drop ?k s)"
    using c drop_append [of n "x # t" s'] by (auto simp: min_def)
  ultimately show thesis using that [of ?k] assms(3) c(2) by simp
qed

lemma pipe_read_stream:
  assumes "stream (incoming ch) (b @ rest)" and "length buf + length b = len"
  shows "\<exists>cs. pipe_read len buf retryCnt ch = (int len, buf @ b, ch\<lparr>incoming := cs\<rparr>) \<and> stream cs rest"
  using assms
proof (induction "length b" arbitrary: b buf ch rule: less_induct)
  case less
  show ?case
  proof (cases "b = []")
    case True
    moreover have "ch\<lparr>incoming := incoming ch\<rparr> = ch" by simp
    ultimately show ?thesis using less.prems by (intro exI [of _ "incoming ch"]) (simp add: pipe_read.simps)
  next
    case False
    have "b @ rest \<noteq> []" "0 < length b" using False by simp_all
    from sys_read_stream [OF less.prems(1) this]
    obtain k cs where k: "sys_read (length b) ch = (int k, take k (b @ rest), ch\<lparr>incoming := cs\<rparr>)" "stream cs (drop k (b @ rest))"
      "0 < k" "k \<le> length b"
      by metis
    have "length (drop k b) < length b" using k(3) False by simp
    moreover have "stream (incoming (ch\<lparr>incoming := cs\<rparr>)) (drop k b @ rest)" using k(2,4) by simp
    moreover have "length (buf @ take k b) + length (drop k b) = len" using less.prems(2) k(4) by simp
    ultimately have "\<exists>cs'. pipe_read len (buf @ take k b) retryCnt (ch\<lparr>incoming := cs\<rparr>) =
        (int len, (buf @ take k b) @ drop k b, ch\<lparr>incoming := cs\<rparr>\<lparr>incoming := cs'\<rparr>) \<and> stream cs' rest"
      by (rule less.hyps)
    moreover have "len - length buf = length b" "length buf < len" using less.prems(2) False by auto
    ultimately show ?thesis using k by (simp add: pipe_read.simps [of len buf])
  qed
qed

lemma read_line_stream:
  assumes "stream (incoming ch) (l @ NL # rest)" and "NL \<notin> set l" and "length buf + length l < 255"
  shows "\<exists>cs. read_line_loop buf ch = Inr (takeWhile (\<lambda>c. c \<noteq> NUL) (buf @ l @ [NL]), ch\<lparr>incoming := cs\<rparr>) \<and> stream cs rest"
  using assms
proof (induction l arbitrary: buf ch)
  case Nil
  obtain cs where "pipe_read 1 [] 0 ch = (1, [NL], ch\<lparr>incoming := cs\<rparr>)" "stream cs rest"
    using pipe_read_stream [of ch "[NL]" rest "[]" 1 0] Nil by auto
  then show ?case using Nil(3) by (auto simp: read_line_loop.simps [of buf])
next
  case (Cons c l)
  obtain cs where cs: "pipe_read 1 [] 0 ch = (1, [c], ch\<lparr>incoming := cs\<rparr>)" "stream cs (l @ NL # rest)"
    using pipe_read_stream [of ch "[c]" "l @ NL # rest" "[]" 1 0] Cons.prems by auto
  then have "\<exists>cs'. read_line_loop (buf @ [c]) (ch\<lparr>incoming := cs\<rparr>) =
      Inr (takeWhile (\<lambda>c. c \<noteq> NUL) ((buf @ [c]) @ l @ [NL]), ch\<lparr>incoming := cs\<rparr>\<lparr>incoming := cs'\<rparr>) \<and> stream cs' rest"
    using Cons.prems(2,3) by (intro Cons.IH) simp_all
  moreover have "c \<noteq> NL" using Cons.prems(2) by auto
  ultimately show ?case using cs(1) Cons.prems(3) by (simp add: read_line_loop.simps [of buf])
qed

lemma content_stream:
  assumes "stream (incoming ch) (body @ rest)"
  shows "\<exists>cs. content_loop (length body) [] 0 ch = (body, ch\<lparr>incoming := cs\<rparr>) \<and> stream cs rest"
proof (cases "body = []")
  case True
  moreover have "ch\<lparr>incoming := incoming ch\<rparr> = ch" by simp
  ultimately show ?thesis using assms by (intro exI [of _ "incoming ch"]) (simp add: content_loop.simps)
next
  case False
  obtain cs where "pipe_read (length body) [] 0 ch = (int (length body), body, ch\<lparr>incoming := cs\<rparr>)" "stream cs rest"
    using pipe_read_stream [OF assms, of "[]" "length body" 0] by auto
  then show ?thesis
    using False by (intro exI [of _ cs]) (simp add: content_loop.simps [of _ "[]"] content_loop.simps [of _ body])
qed


text \<open>The size in the header is read back.\<close>

lemma decimal_digit: "d < 10 \<Longrightarrow> isdigit (char_of (48 + d :: nat)) \<and> of_char (char_of (48 + d) :: char) = 48 + d"
  by (auto simp: isdigit_def)

lemma decimal_digits: "c \<in> set (decimal n) \<Longrightarrow> isdigit c"
  by (induction n rule: decimal.induct) (subst (asm) (2) decimal.simps, auto simp: decimal_digit split: if_splits)

lemma digits_value_append: "\<forall>c \<in> set s. isdigit c \<Longrightarrow> digits_value acc (s @ t) = digits_value (digits_value acc s) t"
  by (induction s arbitrary: acc) auto

lemma digits_value_decimal: "digits_value 0 (decimal n) = int n"
proof (induction n rule: decimal.induct)
  case (1 n)
  show ?case
  proof (cases "n < 10")
    case True
    then show ?thesis using decimal_digit [of n] by (simp add: decimal.simps)
  next
    case False
    have "digits_value 0 (decimal n) = 10 * digits_value 0 (decimal (n div 10)) + int (n mod 10)"
      using False decimal_digit [of "n mod 10"] decimal_digits by (subst decimal.simps) (simp add: digits_value_append)
    also have "\<dots> = int (10 * (n div 10) + n mod 10)" by (simp only: 1 [OF False] of_nat_add of_nat_mult of_nat_numeral)
    also have "10 * (n div 10) + n mod 10 = n" by simp
    finally show ?thesis .
  qed
qed

lemma decimal_not_empty: "decimal n \<noteq> []"
  by (subst decimal.simps) simp

lemma strtoll_decimal: "n < 2 ^ 63 \<Longrightarrow> strtoll (decimal n) = int n"
proof -
  assume n: "n < 2 ^ 63"
  obtain c t where ct: "decimal n = c # t" using decimal_not_empty by (cases "decimal n") auto
  then have c: "isdigit c" using decimal_digits by (metis list.set_intros(1))
  then have "\<not> isspace c" "c \<noteq> CHR ''-''" "c \<noteq> CHR ''+''" by (auto simp: isdigit_def isspace_def)
  then have "strtoll (decimal n) = max (- (2 ^ 63)) (min (2 ^ 63 - 1) (digits_value 0 (decimal n)))"
    by (simp add: strtoll_def ct)
  moreover have "int n \<le> 2 ^ 63 - 1" using n by simp
  ultimately show ?thesis by (simp add: digits_value_decimal)
qed

lemma length_decimal: "n < 10 ^ Suc k \<Longrightarrow> length (decimal n) \<le> Suc k"
proof (induction k arbitrary: n)
  case (Suc k)
  then have "n div 10 < 10 ^ Suc k" by (simp add: less_mult_imp_div_less)
  from Suc.IH [OF this] show ?case by (subst decimal.simps) simp
qed (simp add: decimal.simps)


lemma no_digit_special: "\<forall>c \<in> set (decimal n). c \<noteq> NL \<and> c \<noteq> NUL \<and> c \<noteq> CR"
  using decimal_digits by (fastforce simp: isdigit_def)

text \<open>Writing appends a prefix of the message, as long as the result says.\<close>

lemma take_in_two: "a + k \<le> n \<Longrightarrow> substr s a k @ drop (a + k) (take n s) = drop a (take n s)"
proof -
  assume "a + k \<le> n"
  then have "n - a = k + (n - (a + k))" by simp
  then show ?thesis
    using take_add [of k "n - (a + k)" "drop a s"] by (simp add: substr_def drop_take add.commute)
qed

lemma pipe_write_prefix:
  "pipe_write message written retries ch = (n, ch') \<Longrightarrow> written \<le> length message \<Longrightarrow>
   written \<le> n \<and> n \<le> length message \<and> outgoing ch' = outgoing ch @ drop written (take n message)"
proof (induction message written retries ch rule: pipe_write.induct)
  case (1 message written retries ch)
  have step: "written \<le> n \<and> n \<le> length message \<and> outgoing ch' = outgoing ch @ drop written (take n message)"
    if "written + k \<le> n \<and> n \<le> length message \<and>
        outgoing ch' = (outgoing ch @ substr message written k) @ drop (written + k) (take n message)" for k
    using that take_in_two [of written k n message] by auto
  show ?case
  proof (cases "written < length message")
    case False
    then show ?thesis using 1(4,5) by (simp add: pipe_write.simps)
  next
    case True
    let ?m = "min BufSize (length message - written)"
    note unfolded = 1(4) [unfolded pipe_write.simps [of message written retries ch] if_P [OF True] Let_def]
    have fits: "written + min k ?m \<le> length message" for k using True by simp
    show ?thesis
    proof (cases "writes ch")
      case Nil
      have "written + ?m \<le> length message" using True by simp
      then show ?thesis using 1(1) [OF True refl Nil] unfolded Nil by (intro step [of ?m]) simp
    next
      case (Cons w ws)
      then show ?thesis
      proof (cases w)
        case (Wrote k)
        show ?thesis using 1(2) [OF True refl Cons Wrote] unfolded Cons Wrote fits [of k] by (intro step [of "min k ?m"]) simp
      next
        case Write_again
        then show ?thesis using 1(3) [OF True refl Cons Write_again] unfolded Cons 1(5) by (auto split: if_splits)
      next
        case Write_failed
        then show ?thesis using unfolded Cons 1(5) by auto
      qed
    qed
  qed
qed


lemma pipe_read_one:
  assumes "incoming ch = cs @ tail" and "stream cs (c # l)"
  obtains cs' where "pipe_read 1 [] 0 ch = (1, [c], ch\<lparr>incoming := cs' @ tail\<rparr>)" and "stream cs' l"
proof -
  obtain t cs1 s where cs: "cs = Data c t # cs1" "l = t @ s" "stream cs1 s"
    using assms(2) by (cases cs rule: stream_cases) auto
  have "sys_read 1 ch = (1, [c], ch\<lparr>incoming := (rest_of t @ cs1) @ tail\<rparr>)"
    using assms(1) cs(1) by (simp add: sys_read_def)
  moreover have "stream (rest_of t @ cs1) l" using cs by auto
  ultimately show thesis using that [of "rest_of t @ cs1"] by (simp add: pipe_read.simps)
qed

lemma read_line_blocked:
  assumes "incoming ch = cs @ Again # cs'" and "stream cs l" and "NL \<notin> set l" and "length buf + length l < 255"
  shows "read_line_loop buf ch = Inr ([], ch\<lparr>incoming := cs', errno_again := True\<rparr>)"
  using assms
proof (induction l arbitrary: buf ch cs)
  case Nil
  then have "cs = []" by (cases cs rule: stream_cases) auto
  then have "pipe_read 1 [] 0 ch = (0, [], ch\<lparr>incoming := cs', errno_again := True\<rparr>)"
    using Nil(1) by (simp add: pipe_read.simps sys_read_def)
  then show ?case using Nil(4) by (simp add: read_line_loop.simps)
next
  case (Cons c l)
  obtain cs1 where r: "pipe_read 1 [] 0 ch = (1, [c], ch\<lparr>incoming := cs1 @ Again # cs'\<rparr>)" "stream cs1 l"
    using pipe_read_one [OF Cons.prems(1,2)] by blast
  have "read_line_loop (buf @ [c]) (ch\<lparr>incoming := cs1 @ Again # cs'\<rparr>) =
      Inr ([], ch\<lparr>incoming := cs1 @ Again # cs'\<rparr>\<lparr>incoming := cs', errno_again := True\<rparr>)"
    using Cons.prems(3,4) r(2) by (intro Cons.IH [of _ cs1]) auto
  moreover have "c \<noteq> NL" using Cons.prems(3) by auto
  ultimately show ?case using r(1) Cons.prems(4) by (simp add: read_line_loop.simps [of buf])
qed

text \<open>
  A header that arrives in two pieces is lost: when a read of the second piece would block, the part of the line that was already
  read is dropped, the caller gets an empty string as the message, and the next line starts in the middle of the header.
\<close>

theorem split_header_lost:
  assumes "incoming ch = cs @ Again # cs'" and "stream cs l" and "NL \<notin> set l" and "length l < 255"
  shows "RecvResponse parse empty_string ch = Inr (Some empty_string, ch\<lparr>incoming := cs', errno_again := True\<rparr>)"
  using read_line_blocked [OF assms(1-3), of "[]"] assms(4)
  by (simp add: RecvResponse_def recv_headers.simps readLine_def)


subsection \<open>An example\<close>

definition demo_out :: channel where
  "demo_out = \<lparr>incoming = [], errno_again = False, writes = [Wrote 3, Write_again, Wrote 5000], outgoing = []\<rparr>"

definition demo_in :: channel where
  "demo_in =
     \<lparr>incoming = [Data (CHR ''C'') ''ontent-'', Data (CHR ''L'') (''ength: 2'' @ [CR, NL, CR, NL] @ ''{}''), Data (CHR ''C'') ''on''],
      errno_again = False, writes = [], outgoing = []\<rparr>"

lemma demo_sent:
  "SendRequest (\<lambda>s. s) ''{}'' demo_out =
     (length (fillMessageHeader ''{}''), demo_out\<lparr>writes := [], outgoing := fillMessageHeader ''{}'', errno_again := True\<rparr>)"
  by code_simp


theorem split_header_lost_witness:
  "\<exists>ch :: channel. incoming ch = [Data (CHR ''C'') ''on'', Again, Data (CHR ''t'') ''ent''] \<and>
     RecvResponse Some [] ch = Inr (Some [], ch\<lparr>incoming := [Data (CHR ''t'') ''ent''], errno_again := True\<rparr>)"
proof -
  let ?ch = "demo_in\<lparr>incoming := [Data (CHR ''C'') ''on'', Again, Data (CHR ''t'') ''ent'']\<rparr>"
  have "RecvResponse Some [] ?ch = Inr (Some [], ?ch\<lparr>incoming := [Data (CHR ''t'') ''ent''], errno_again := True\<rparr>)"
    by (rule split_header_lost [where cs = "[Data (CHR ''C'') ''on'']" and l = "''Con''"]) simp_all
  then show ?thesis by (intro exI [of _ ?ch]) simp
qed

end
