(* ===== verification/Endpoint.thy ===== *)
theory Endpoint
  imports Transport
begin

section \<open>Calls to the language server\<close>

text \<open>
  Models the class \<open>LspEndpoint\<close> of \<open>src/lsp/client.cpp\<close>: threads call methods and wait for the response while one thread receives messages. A call holds
  the mutex from sending its request until it waits, and the receiving thread stores a response under the same mutex, so these
  are single steps. Waiting ends by a notification, by the timeout, or without a reason. The JSON library is a record of functions; the messages that are handed to
  the \<open>JSONRpcEndpoint\<close> and the calls of the registered functions are collected in lists. The code takes the next identifier
  before it locks the mutex; here that is one step with the rest, and identifiers do not exceed the range of \<open>int\<close>.
\<close>

record 'j json_lib =
  field :: "'j \<Rightarrow> string \<Rightarrow> 'j option"
  as_int :: "'j \<Rightarrow> int option"
  as_string :: "'j \<Rightarrow> string option"
  is_empty :: "'j \<Rightarrow> bool"
  of_string :: "string \<Rightarrow> 'j"
  of_int_json :: "int \<Rightarrow> 'j"
  of_object :: "(string \<times> 'j) list \<Rightarrow> 'j"
  null_json :: 'j

datatype json_error = Type_error

record 'j endpoint =
  next_id :: int
  eventDict :: "int set"
  responseDict :: "int \<Rightarrow> ('j \<times> 'j) option"
  shutdownFlag :: bool
  methodCallbacks :: "string set"
  notifyCallbacks :: "string set"
  called_back :: "(string \<times> 'j) list"
  sent :: "'j list"

definition new_endpoint :: "string set \<Rightarrow> string set \<Rightarrow> 'j endpoint" where
  "new_endpoint methods notifications =
     \<lparr>next_id = 0, eventDict = {}, responseDict = Map.empty, shutdownFlag = False, methodCallbacks = methods,
      notifyCallbacks = notifications, called_back = [], sent = []\<rparr>"

subsection \<open>Sending\<close>

definition sendMessage :: "'j json_lib \<Rightarrow> string \<Rightarrow> 'j \<Rightarrow> int \<Rightarrow> 'j endpoint \<Rightarrow> 'j endpoint" where
  "sendMessage J method params rpcId st =
     st\<lparr>sent := sent st @ [of_object J ([(''jsonrpc'', of_string J ''2.0''), (''method'', of_string J method), (''params'', params)] @
                                    (if rpcId \<noteq> - 1 then [(''id'', of_int_json J rpcId)] else []))]\<rparr>"

definition SendNotification :: "'j json_lib \<Rightarrow> string \<Rightarrow> 'j \<Rightarrow> 'j endpoint \<Rightarrow> 'j endpoint" where
  "SendNotification J method params st = sendMessage J method params (- 1) st"

definition SendResponse :: "'j json_lib \<Rightarrow> int \<Rightarrow> 'j \<Rightarrow> 'j \<Rightarrow> 'j endpoint \<Rightarrow> 'j endpoint" where
  "SendResponse J rpcId result err st =
     st\<lparr>sent := sent st @ [of_object J [(''jsonrpc'', of_string J ''2.0''), (''id'', of_int_json J rpcId), (''result'', result), (''error'', err)]]\<rparr>"

definition Stop :: "'j endpoint \<Rightarrow> 'j endpoint" where
  "Stop st = st\<lparr>shutdownFlag := True\<rparr>"

subsection \<open>Calling a method\<close>

text \<open>
  \<open>CallMethod\<close> up to the wait, and from its end. The first part says whether the call goes on to wait; after a timeout the entry in \<open>eventDict\<close> stays.
\<close>

definition call_begin :: "'j json_lib \<Rightarrow> string \<Rightarrow> 'j \<Rightarrow> 'j endpoint \<Rightarrow> int \<times> bool \<times> 'j endpoint" where
  "call_begin J method params st =
     (let currentId = next_id st;
          st = sendMessage J method params currentId (st\<lparr>next_id := currentId + 1, eventDict := insert currentId (eventDict st)\<rparr>)
      in (currentId, \<not> shutdownFlag st, st))"

definition is_error :: "'j json_lib \<Rightarrow> 'j \<Rightarrow> bool" where
  "is_error J e \<longleftrightarrow> field J e ''code'' \<noteq> None \<and> field J e ''message'' \<noteq> None"

definition call_end :: "'j json_lib \<Rightarrow> int \<Rightarrow> bool \<Rightarrow> 'j endpoint \<Rightarrow> json_error + 'j option \<times> 'j endpoint" where
  "call_end J currentId timed_out st =
     (if timed_out then Inr (None, st)
      else
        let st = st\<lparr>eventDict := eventDict st - {currentId}\<rparr>
        in case responseDict st currentId of
             None \<Rightarrow> Inr (None, st)
           | Some (result, err) \<Rightarrow>
               if is_error J err then
                 (if Option.bind (field J err ''message'') (as_string J) = None \<or> Option.bind (field J err ''code'') (as_int J) = None
                  then Inl Type_error else Inr (None, st))
               else Inr (Some result, st))"

subsection \<open>Receiving\<close>

text \<open>The identifier of the call that is notified, if there is one.\<close>

definition handleResult :: "int \<Rightarrow> 'j \<Rightarrow> 'j \<Rightarrow> 'j endpoint \<Rightarrow> 'j endpoint \<times> int option" where
  "handleResult rpcId result err st =
     (if rpcId = - 1 then (st, None)
      else (st\<lparr>responseDict := (responseDict st)(rpcId \<mapsto> (result, err))\<rparr>, if rpcId \<in> eventDict st then Some rpcId else None))"

definition get_or :: "'j json_lib \<Rightarrow> 'j \<Rightarrow> string \<Rightarrow> 'j" where
  "get_or J body key = (case field J body key of None \<Rightarrow> of_string J [] | Some j \<Rightarrow> j)"

text \<open>The body of the loop, for a message that was received; \<open>json_error\<close> is the exception of a field with the wrong type.\<close>

definition handle_message :: "'j json_lib \<Rightarrow> 'j \<Rightarrow> 'j endpoint \<Rightarrow> json_error + 'j endpoint \<times> int option" where
  "handle_message J body st =
     (if is_empty J body then Inr (st, None)
      else
        case (case field J body ''id'' of None \<Rightarrow> Some (- 1) | Some j \<Rightarrow> as_int J j) of
          None \<Rightarrow> Inl Type_error
        | Some rpcId \<Rightarrow>
            (case (case field J body ''method'' of None \<Rightarrow> Some [] | Some j \<Rightarrow> as_string J j) of
               None \<Rightarrow> Inl Type_error
             | Some method \<Rightarrow>
                 let result = get_or J body ''result''; params = get_or J body ''params''; err = get_or J body ''error''
                 in if method \<noteq> [] then
                      (if rpcId \<noteq> - 1 then
                         let st = (if method \<in> methodCallbacks st then st\<lparr>called_back := called_back st @ [(method, params)]\<rparr> else st)
                         in Inr (SendResponse J rpcId result (null_json J) st, None)
                       else
                         Inr (if method \<in> notifyCallbacks st then st\<lparr>called_back := called_back st @ [(method, params)]\<rparr> else st, None))
                    else Inr (handleResult rpcId result err st)))"

text \<open>The loop ends when the endpoint is stopped, when a message is not legal, or by an exception.\<close>

fun receive_loop :: "'j json_lib \<Rightarrow> (string \<Rightarrow> 'j option) \<Rightarrow> nat \<Rightarrow> channel \<Rightarrow> 'j endpoint \<Rightarrow> (rpc_error + json_error) + channel \<times> 'j endpoint" where
  "receive_loop J parse 0 ch st = Inr (ch, st)"
| "receive_loop J parse (Suc rounds) ch st =
     (if shutdownFlag st then Inr (ch, st)
      else
        case RecvResponse parse (of_string J []) ch of
          Inl e \<Rightarrow> Inl (Inl e)
        | Inr (None, ch') \<Rightarrow> Inr (ch', st)
        | Inr (Some body, ch') \<Rightarrow>
            (case handle_message J body st of
               Inl e \<Rightarrow> Inl (Inr e)
             | Inr (st', _) \<Rightarrow> receive_loop J parse rounds ch' st'))"

subsection \<open>The threads together\<close>

datatype 'j action = Begun int | Received int 'j 'j | Returned int "'j option" | Other

record 'j threads =
  endpoint :: "'j endpoint"
  waiting :: "int set"

inductive thread_step :: "'j json_lib \<Rightarrow> 'j threads \<Rightarrow> 'j action \<Rightarrow> 'j threads \<Rightarrow> bool" for J where
  call: "call_begin J method params (endpoint s) = (currentId, waits, st) \<Longrightarrow>
    thread_step J s (Begun currentId) \<lparr>endpoint = st, waiting = (if waits then insert currentId (waiting s) else waiting s)\<rparr>"
| return: "currentId \<in> waiting s \<Longrightarrow> call_end J currentId timed_out (endpoint s) = Inr (r, st) \<Longrightarrow>
    thread_step J s (Returned currentId r) \<lparr>endpoint = st, waiting = waiting s - {currentId}\<rparr>"
| notify: "thread_step J s Other (s\<lparr>endpoint := SendNotification J method params (endpoint s)\<rparr>)"
| stop: "thread_step J s Other (s\<lparr>endpoint := Stop (endpoint s)\<rparr>)"
| result: "handle_message J body (endpoint s) = Inr (handleResult rpcId res err (endpoint s)) \<Longrightarrow> rpcId \<noteq> - 1 \<Longrightarrow>
    thread_step J s (Received rpcId res err) (s\<lparr>endpoint := fst (handleResult rpcId res err (endpoint s))\<rparr>)"
| no_result: "handle_message J body (endpoint s) = Inr (st, woken) \<Longrightarrow> responseDict st = responseDict (endpoint s) \<Longrightarrow>
    thread_step J s Other (s\<lparr>endpoint := st\<rparr>)"


fun begun_id :: "'j action \<Rightarrow> int option" where
  "begun_id (Begun i) = Some i"
| "begun_id _ = None"

definition begun :: "'j action list \<Rightarrow> int list" where
  "begun es = List.map_filter begun_id es"

lemma begun_simps [simp]: "begun [] = []" "begun (es @ [e]) = begun es @ (case begun_id e of None \<Rightarrow> [] | Some i \<Rightarrow> [i])"
  by (auto simp: begun_def List.map_filter_def split: option.splits)

lemma begun_in: "Begun i \<in> set es \<longleftrightarrow> i \<in> set (begun es)"
  by (force simp: begun_def List.map_filter_def elim: begun_id.elims)

text \<open>What a history says of the threads, and that every returned result was received before.\<close>

definition history_ok :: "'j json_lib \<Rightarrow> 'j action list \<Rightarrow> 'j threads \<Rightarrow> bool" where
  "history_ok J es s \<longleftrightarrow>
     (\<forall>i r e. responseDict (endpoint s) i = Some (r, e) \<longrightarrow> Received i r e \<in> set es) \<and>
     distinct (begun es) \<and> (\<forall>i \<in> set (begun es). i < next_id (endpoint s)) \<and> waiting s \<subseteq> set (begun es) \<and>
     (\<forall>es1 es2 i r. es = es1 @ Returned i (Some r) # es2 \<longrightarrow>
        Begun i \<in> set es1 \<and> (\<exists>e. Received i r e \<in> set es1 \<and> \<not> is_error J e))"

lemma snoc_split:
  "es @ [x] = es1 @ y # es2 \<longleftrightarrow> (\<exists>es3. es2 = es3 @ [x] \<and> es = es1 @ y # es3) \<or> es2 = [] \<and> es1 = es \<and> y = x"
  by (cases es2 rule: rev_cases) auto

lemma call_end_some:
  assumes "call_end J i timed_out st = Inr (r, st')"
  shows "responseDict st' = responseDict st \<and> next_id st' = next_id st \<and>
    (\<forall>x. r = Some x \<longrightarrow> (\<exists>e. responseDict st i = Some (x, e) \<and> \<not> is_error J e))"
  using assms by (auto simp: call_end_def Let_def split: if_splits option.splits)

lemma history_step:
  assumes "thread_step J s e s'" and "history_ok J es s"
  shows "history_ok J (es @ [e]) s'"
  using assms(1)
proof (cases rule: thread_step.cases)
  case (call name params currentId waits st)
  then have "currentId = next_id (endpoint s)" "next_id st = next_id (endpoint s) + 1" "responseDict st = responseDict (endpoint s)"
    by (auto simp: call_begin_def sendMessage_def Let_def)
  then show ?thesis using assms(2) call(1,2) by (fastforce simp: history_ok_def snoc_split)
next
  case (return currentId timed_out r st)
  from call_end_some [OF return(4)]
  have st: "responseDict st = responseDict (endpoint s)" "next_id st = next_id (endpoint s)"
    "\<And>x. r = Some x \<Longrightarrow> \<exists>e. responseDict (endpoint s) currentId = Some (x, e) \<and> \<not> is_error J e" by auto
  have "Begun currentId \<in> set es" using return(3) assms(2) by (auto simp: history_ok_def begun_in)
  then show ?thesis using assms(2) st return(1,2) unfolding history_ok_def snoc_split by fastforce
next
  case (result body rpcId res err)
  then have "responseDict (endpoint s') = (responseDict (endpoint s))(rpcId \<mapsto> (res, err))" "next_id (endpoint s') = next_id (endpoint s)"
    "waiting s' = waiting s"
    by (simp_all add: handleResult_def)
  then show ?thesis using assms(2) result(1) by (auto simp: history_ok_def snoc_split)
next
  case (no_result body st woken)
  then have "next_id st = next_id (endpoint s)"
    by (auto simp: handle_message_def handleResult_def SendResponse_def Let_def split: if_splits option.splits)
  then show ?thesis using assms(2) no_result(1,2,4) by (auto simp: history_ok_def snoc_split)
next
  case notify
  then show ?thesis using assms(2) by (auto simp: history_ok_def snoc_split SendNotification_def sendMessage_def)
next
  case stop
  then show ?thesis using assms(2) by (auto simp: history_ok_def snoc_split Stop_def)
qed

lemma history_run:
  assumes "run (thread_step J) s es s'"
  shows "s = \<lparr>endpoint = new_endpoint methods notifications, waiting = {}\<rparr> \<Longrightarrow> history_ok J es s'"
  using assms
proof (induction rule: run.induct)
  case (run_nil s)
  then show ?case by (simp add: history_ok_def new_endpoint_def)
next
  case (run_snoc s es s' e s'')
  then show ?case by (blast intro: history_step)
qed



subsection \<open>An example\<close>

datatype demo_json = JString string | JInt int | JObject "(string \<times> demo_json) list" | JNull

definition demo_lib :: "demo_json json_lib" where
  "demo_lib =
     \<lparr>field = (\<lambda>j k. case j of JObject fs \<Rightarrow> map_of fs k | _ \<Rightarrow> None), as_int = (\<lambda>j. case j of JInt i \<Rightarrow> Some i | _ \<Rightarrow> None),
      as_string = (\<lambda>j. case j of JString s \<Rightarrow> Some s | _ \<Rightarrow> None), is_empty = (\<lambda>j. j = JNull \<or> j = JObject []),
      of_string = JString, of_int_json = JInt, of_object = JObject, null_json = JNull\<rparr>"

definition demo_start :: "demo_json threads" where
  "demo_start = \<lparr>endpoint = new_endpoint {} {}, waiting = {}\<rparr>"

lemma demo_history:
  "\<exists>s. run (thread_step demo_lib) demo_start ([Begun 0, Received 0 (JInt 5) (JString [])] @ Returned 0 (Some (JInt 5)) # []) s"
proof -
  let ?st1 = "snd (snd (call_begin demo_lib ''sync'' JNull (endpoint demo_start)))"
  let ?s1 = "\<lparr>endpoint = ?st1, waiting = {0}\<rparr>"
  let ?st2 = "fst (handleResult 0 (JInt 5) (JString []) ?st1)"
  let ?s2 = "\<lparr>endpoint = ?st2, waiting = {0}\<rparr>"
  let ?s3 = "\<lparr>endpoint = ?st2\<lparr>eventDict := {}\<rparr>, waiting = {}\<rparr>"
  have 1: "thread_step demo_lib demo_start (Begun 0) ?s1"
    using call [of demo_lib "''sync''" JNull demo_start 0 True ?st1]
    by (simp add: call_begin_def demo_start_def new_endpoint_def sendMessage_def Let_def)
  have 2: "thread_step demo_lib ?s1 (Received 0 (JInt 5) (JString [])) ?s2"
    using result [of demo_lib "JObject [(''id'', JInt 0), (''result'', JInt 5)]" ?s1 0 "JInt 5" "JString []"]
    by (simp add: handle_message_def demo_lib_def get_or_def Let_def)
  have 3: "thread_step demo_lib ?s2 (Returned 0 (Some (JInt 5))) ?s3"
    using return [of 0 ?s2 demo_lib False "Some (JInt 5)" "?st2\<lparr>eventDict := {}\<rparr>"]
    by (simp add: call_end_def handleResult_def demo_lib_def is_error_def call_begin_def demo_start_def new_endpoint_def
        sendMessage_def Let_def)
  have "run (thread_step demo_lib) demo_start [Begun 0, Received 0 (JInt 5) (JString []), Returned 0 (Some (JInt 5))] ?s3"
    by (rule run_cons [where step = "thread_step demo_lib", OF run_cons [where step = "thread_step demo_lib",
          OF run_cons [where step = "thread_step demo_lib", OF run_nil 3] 2] 1])
  then show ?thesis by auto
qed


end
