(* ===== verification/SyntaxTree.thy ===== *)
theory SyntaxTree
  imports SemanticNode
begin

section \<open>Syntax trees\<close>

text \<open>
  Models \<open>src/parser/node.cpp\<close> and the first half of \<open>src/parser/utils.cpp\<close>. The tree the parser returns is data: a \<open>syntax\<close> is
  what tree-sitter's C interface tells of a node. A \<open>ts_node\<close> is the node with its place among its siblings, as a zipper: the siblings to
  its left (nearest first) and to its right. Rows and columns are 32-bit words, and their differences are read as \<open>int\<close>.
  Failed assertions and accesses to a child that does not exist are errors.
\<close>

subsection \<open>Nodes\<close>

record point =
  row :: u32
  column :: u32

datatype cst =
  CST (ty: string) (named: bool) (start_byte: nat) (end_byte: nat) (start_pt: point) (end_pt: point)
    (kids: "(string option \<times> cst) list")

record ts_node =
  source :: string
  lefts :: "cst list"
  here :: cst
  rights :: "cst list"

datatype parse_error = AssertionFailed | NullNode

definition root_node :: "string \<Rightarrow> cst \<Rightarrow> ts_node" where
  "root_node src t = \<lparr>source = src, lefts = [], here = t, rights = []\<rparr>"

abbreviation node_type :: "ts_node \<Rightarrow> string" where
  "node_type n \<equiv> ty (here n)"

definition source_text :: "ts_node \<Rightarrow> string" where
  "source_text n = substr (source n) (start_byte (here n)) (end_byte (here n) - start_byte (here n))"

abbreviation isNamed :: "ts_node \<Rightarrow> bool" where
  "isNamed n \<equiv> named (here n)"

abbreviation startPoint :: "ts_node \<Rightarrow> point" where
  "startPoint n \<equiv> start_pt (here n)"

abbreviation endPoint :: "ts_node \<Rightarrow> point" where
  "endPoint n \<equiv> end_pt (here n)"

definition childrenCount :: "ts_node \<Rightarrow> nat" where
  "childrenCount n = length (kids (here n))"

text \<open>The child with an index, the null node when there is none.\<close>

definition child_at :: "ts_node \<Rightarrow> nat \<Rightarrow> ts_node option" where
  "child_at n i =
     (let ks = map snd (kids (here n))
      in if i < length ks
         then Some \<lparr>source = source n, lefts = rev (take i ks), here = ks ! i, rights = drop (Suc i) ks\<rparr>
         else None)"

definition children_of :: "ts_node \<Rightarrow> ts_node list" where
  "children_of n = map (\<lambda>i. the (child_at n i)) [0..<childrenCount n]"

definition namedChildren :: "ts_node \<Rightarrow> ts_node list" where
  "namedChildren n = filter isNamed (children_of n)"

definition namedChildrenCount :: "ts_node \<Rightarrow> nat" where
  "namedChildrenCount n = length (namedChildren n)"

definition getChildByFieldName :: "ts_node \<Rightarrow> string \<Rightarrow> ts_node option" where
  "getChildByFieldName n name =
     Option.bind (find_idx (\<lambda>k. fst k = Some name) (kids (here n))) (child_at n)"

definition nextSibling :: "ts_node \<Rightarrow> ts_node option" where
  "nextSibling n =
     (case rights n of [] \<Rightarrow> None
      | s # ss \<Rightarrow> Some \<lparr>source = source n, lefts = here n # lefts n, here = s, rights = ss\<rparr>)"

definition prevSibling :: "ts_node \<Rightarrow> ts_node option" where
  "prevSibling n =
     (case lefts n of [] \<Rightarrow> None
      | s # ss \<Rightarrow> Some \<lparr>source = source n, lefts = ss, here = s, rights = here n # rights n\<rparr>)"

lemma nextSibling_right: "nextSibling n = Some m \<Longrightarrow> length (rights m) < length (rights n)"
  by (auto simp: nextSibling_def split: list.splits)

lemma prevSibling_left: "prevSibling n = Some m \<Longrightarrow> length (lefts m) < length (lefts n)"
  by (auto simp: prevSibling_def split: list.splits)

function nextNamedSibling :: "ts_node \<Rightarrow> ts_node option" where
  "nextNamedSibling n =
     (case nextSibling n of None \<Rightarrow> None
      | Some m \<Rightarrow> if isNamed m then Some m else nextNamedSibling m)"
  by pat_completeness auto
termination
  by (relation "measure (\<lambda>n. length (rights n))") (auto dest: nextSibling_right)

declare nextNamedSibling.simps [simp del]

text \<open>The difference of two rows as an \<open>int\<close>.\<close>

definition row_diff :: "u32 \<Rightarrow> u32 \<Rightarrow> int" where
  "row_diff a b = sint (a - b)"

subsection \<open>Comments\<close>

abbreviation is_comment :: "ts_node \<Rightarrow> bool" where
  "is_comment n \<equiv> node_type n = ''comment''"

definition comment_lines :: "ts_node list \<Rightarrow> string" where
  "comment_lines ns = concat (map (\<lambda>n. source_text n @ [NL]) ns)"

fun tu_comment_loop :: "ts_node list \<Rightarrow> nat \<Rightarrow> string \<Rightarrow> nat \<times> string" where
  "tu_comment_loop [] cnt acc = (cnt, acc)"
| "tu_comment_loop (c # cs) cnt acc =
     (if isNamed c \<and> is_comment c then tu_comment_loop cs (Suc cnt) (acc @ source_text c @ [NL]) else (cnt, acc))"

definition getTranslationUnitComment :: "ts_node \<Rightarrow> nat \<times> string" where
  "getTranslationUnitComment n = tu_comment_loop (children_of n) 0 []"

text \<open>
  The loop of \<open>getNodeComment\<close>: the texts so far, the comment farthest back, and its previous sibling.
\<close>

function previous_comments :: "ts_node \<Rightarrow> string list \<Rightarrow> string list \<times> ts_node \<times> ts_node option" where
  "previous_comments most acc =
     (case prevSibling most of
        None \<Rightarrow> (acc, most, None)
      | Some p \<Rightarrow> if is_comment p then previous_comments p (acc @ [source_text p]) else (acc, most, Some p))"
  by pat_completeness auto
termination
  by (relation "measure (\<lambda>(most, acc). length (lefts most))") (auto dest: prevSibling_left)

declare previous_comments.simps [simp del]

definition getNodeComment :: "ts_node \<Rightarrow> string" where
  "getNodeComment n =
     (case prevSibling n of
        None \<Rightarrow> []
      | Some p \<Rightarrow>
          if \<not> is_comment p then []
          else case previous_comments n [] of
                 (texts, most, previous) \<Rightarrow>
                   if (case previous of Some q \<Rightarrow> row (startPoint most) = row (endPoint q) | None \<Rightarrow> False) then []
                   else concat (map (\<lambda>t. t @ [NL]) (rev texts)))"

text \<open>
  The loop of \<open>getComment\<close>: the text, the number of comments, and the last comment with the node after it when there is one.
\<close>

function comment_run :: "ts_node \<Rightarrow> ts_node \<Rightarrow> string \<Rightarrow> nat \<Rightarrow> string \<times> nat \<times> (ts_node \<times> ts_node) option" where
  "comment_run prev cur acc cnt =
     (if is_comment cur
      then case nextSibling cur of
             None \<Rightarrow> (acc @ source_text cur @ [NL], Suc cnt, None)
           | Some s \<Rightarrow> comment_run cur s (acc @ source_text cur @ [NL]) (Suc cnt)
      else (acc, cnt, Some (prev, cur)))"
  by pat_completeness auto
termination
  by (relation "measure (\<lambda>(prev, cur, acc, cnt). length (rights cur))") (auto dest: nextSibling_right)

declare comment_run.simps [simp del]

record comment_info =
  orphan :: bool
  comment_text :: string
  commentCnt :: nat
  realOrphan :: bool

definition getComment :: "ts_node \<Rightarrow> nat \<Rightarrow> bool \<Rightarrow> parse_error + comment_info" where
  "getComment n cnt orph =
     (if \<not> is_comment n then Inl AssertionFailed
      else
        let inline = (case prevSibling n of Some p \<Rightarrow> row (endPoint p) = row (startPoint n) | None \<Rightarrow> False);
            real' = (if inline then False else orph)
        in case comment_run n n [] cnt of
             (txt, cnt', None) \<Rightarrow> Inr \<lparr>orphan = True, comment_text = txt, commentCnt = cnt', realOrphan = real'\<rparr>
           | (txt, cnt', Some (prev, cur)) \<Rightarrow>
               Inr \<lparr>orphan = (if row (startPoint cur) - row (endPoint prev) > 1 then True else inline),
                    comment_text = txt, commentCnt = cnt', realOrphan = real'\<rparr>)"

subsection \<open>Line ends\<close>

definition nextSiblingDistance :: "ts_node \<Rightarrow> bool \<Rightarrow> int" where
  "nextSiblingDistance n only_named =
     (case (if only_named then nextNamedSibling n else nextSibling n) of
        None \<Rightarrow> - 1
      | Some m \<Rightarrow> row_diff (row (startPoint m)) (row (endPoint n)))"

definition beforeFirstChildEOLs :: "ts_node \<Rightarrow> parse_error + int" where
  "beforeFirstChildEOLs n =
     (case getChildByFieldName n ''body'' of
        None \<Rightarrow> Inl AssertionFailed
      | Some b \<Rightarrow>
          let offset = (case namedChildren b of
                          [] \<Rightarrow> row_diff (row (startPoint b)) (row (endPoint n))
                        | c # _ \<Rightarrow> row_diff (row (startPoint c)) (row (startPoint n)))
          in Inr (if offset < 0 then 0 else offset))"

function skip_punctuation :: "ts_node \<Rightarrow> ts_node option" where
  "skip_punctuation n =
     (case nextSibling n of
        None \<Rightarrow> None
      | Some m \<Rightarrow> if node_type m = '';'' \<or> node_type m = ''{'' then skip_punctuation m else Some m)"
  by pat_completeness auto
termination
  by (relation "measure (\<lambda>n. length (rights n))") (auto dest: nextSibling_right)

declare skip_punctuation.simps [simp del]

definition getFollowingEOLs :: "ts_node \<Rightarrow> int" where
  "getFollowingEOLs n =
     (case skip_punctuation n of
        None \<Rightarrow> 0
      | Some m \<Rightarrow> let offset = row_diff (row (startPoint m)) (row (endPoint n)) in if offset < 0 then 0 else offset)"

subsection \<open>Front declarations and the header guard\<close>

definition isTypeDecl :: "ts_node \<Rightarrow> bool" where
  "isTypeDecl n \<longleftrightarrow>
     node_type n \<in> {''class_specifier'', ''struct_specifier'', ''union_specifier'', ''enum_specifier''} \<and>
     getChildByFieldName n ''body'' = None"

definition is_front_decl :: "ts_node \<Rightarrow> bool" where
  "is_front_decl n \<longleftrightarrow>
     starts_with (node_type n) ''preproc'' \<or>
     node_type n \<in> {''using_declaration'', ''alias_declaration'', ''type_definition'', ''linkage_specification''} \<or>
     isTypeDecl n"

text \<open>The white space \<open>string_trim\<close> strips when it is given none.\<close>

abbreviation trim_default :: string where
  "trim_default \<equiv> [CHR '' '', CHR 0x09, NL, CHR 0x0D]"

definition front_text :: "ts_node \<Rightarrow> string" where
  "front_text n =
     (if row (endPoint n) - row (startPoint n) \<noteq> 0 then string_trim (source_text n) trim_default else source_text n)"

lemma comment_run_le: "comment_run prev cur acc cnt = (t, cnt', rest) \<Longrightarrow> cnt \<le> cnt'"
  by (induction prev cur acc cnt arbitrary: t cnt' rest rule: comment_run.induct)
    (subst (asm) (2) comment_run.simps, force split: if_splits option.splits)

lemma comment_run_progress:
  assumes "is_comment cur" and "comment_run prev cur acc cnt = (t, cnt', rest)"
  shows "cnt < cnt'"
  using assms comment_run_le
  by (subst (asm) comment_run.simps) (fastforce split: option.splits dest!: comment_run_le)

lemma getComment_progress: "getComment n cnt orph = Inr c \<Longrightarrow> cnt < commentCnt c"
  by (auto simp: getComment_def Let_def split: if_splits prod.splits option.splits dest!: comment_run_progress [rotated])

function front_loop :: "ts_node \<Rightarrow> nat \<Rightarrow> string list \<Rightarrow> u32 \<Rightarrow> parse_error + (string list \<times> u32 \<times> nat)" where
  "front_loop n cnt decls lastRow =
     (case child_at n cnt of
        None \<Rightarrow> Inr (decls, lastRow, cnt)
      | Some c \<Rightarrow>
          if is_front_decl c then front_loop n (Suc cnt) (decls @ [front_text c]) (row (endPoint c))
          else if is_comment c
          then case getComment c 0 True of
                 Inl e \<Rightarrow> Inl e
               | Inr k \<Rightarrow> front_loop n (cnt + commentCnt k) (decls @ [comment_text k]) (row (endPoint c))
          else Inr (decls, lastRow, cnt))"
  by pat_completeness auto
termination
  by (relation "measure (\<lambda>(n, cnt, decls, lastRow). childrenCount n - cnt)")
    (auto simp: child_at_def childrenCount_def Let_def split: if_splits dest!: getComment_progress)

declare front_loop.simps [simp del]

text \<open>The declarations, the last row, and the number of children in front of the rest.\<close>

definition getFrontDecls :: "ts_node \<Rightarrow> nat \<Rightarrow> parse_error + (string list \<times> u32 \<times> nat)" where
  "getFrontDecls n cnt = (if childrenCount n \<le> cnt then Inr ([], 0, cnt) else front_loop n cnt [] 0)"

text \<open>
  Whether the guard is a traditional one, its lines, the number of children to skip and the node whose children are the
  declarations. \<open>pragma_once\<close> is the search for the pattern of the pragma.
\<close>

record guard_info =
  tradition :: bool
  guard_lines :: "string list"
  guard_cnt :: nat
  guard_root :: ts_node

definition traditional_guard :: "ts_node \<Rightarrow> ts_node \<Rightarrow> guard_info" where
  "traditional_guard g defineNode =
     (let txt = source_text g;
          ifndefText = (case find_idx (\<lambda>c. c = NL) txt of None \<Rightarrow> txt | Some i \<Rightarrow> take i txt);
          endifText = (case find_last_idx (\<lambda>c. c = NL) txt of None \<Rightarrow> txt | Some i \<Rightarrow> drop (i + 1) txt);
          endifText' = (case nextSibling g of
                          None \<Rightarrow> endifText
                        | Some s \<Rightarrow> if is_comment s then endifText @ source_text s else endifText)
      in \<lparr>tradition = True, guard_lines = [ifndefText, source_text defineNode, endifText'], guard_cnt = 2 + 1, guard_root = g\<rparr>)"

definition getHeaderGuard :: "(string \<Rightarrow> bool) \<Rightarrow> ts_node \<Rightarrow> nat \<Rightarrow> ts_node \<Rightarrow> parse_error + guard_info" where
  "getHeaderGuard pragma_once TUNode cnt TURoot =
     (if node_type TUNode \<noteq> ''translation_unit'' then Inl AssertionFailed
      else case child_at TUNode cnt of
        None \<Rightarrow> Inl NullNode
      | Some g \<Rightarrow>
          let nothing = \<lparr>tradition = False, guard_lines = [], guard_cnt = cnt, guard_root = TURoot\<rparr>
          in if node_type g = ''preproc_call'' \<and> pragma_once (source_text g)
             then Inr (nothing\<lparr>guard_lines := [source_text g], guard_cnt := cnt + 1\<rparr>)
             else if node_type g = ''preproc_ifdef'' \<and> 2 \<le> namedChildrenCount g \<and>
                     node_type (namedChildren g ! 1) = ''preproc_def''
             then Inr (traditional_guard g (namedChildren g ! 1))
             else Inr nothing)"

subsection \<open>Siblings are neighbours in the list of children\<close>

lemma length_children_of [simp]: "length (children_of n) = childrenCount n"
  by (simp add: children_of_def)

lemma child_at_children: "child_at n i = (if i < childrenCount n then Some (children_of n ! i) else None)"
  by (simp add: children_of_def child_at_def childrenCount_def Let_def)

lemma nextSibling_child: "i < childrenCount n \<Longrightarrow> nextSibling (children_of n ! i) = child_at n (Suc i)"
  by (simp add: children_of_def child_at_def childrenCount_def nextSibling_def Let_def Cons_nth_drop_Suc [symmetric]
      take_Suc_conv_app_nth split: list.split)

lemma prevSibling_child:
  "i < childrenCount n \<Longrightarrow> prevSibling (children_of n ! i) = (case i of 0 \<Rightarrow> None | Suc j \<Rightarrow> child_at n j)"
  by (auto simp: children_of_def child_at_def childrenCount_def prevSibling_def Let_def Cons_nth_drop_Suc [symmetric]
      take_Suc_conv_app_nth split: list.split nat.split)

lemma drop_children: "i < childrenCount n \<Longrightarrow> drop i (children_of n) = children_of n ! i # drop (Suc i) (children_of n)"
  by (simp add: Cons_nth_drop_Suc)

lemma take_children: "i < childrenCount n \<Longrightarrow> take (Suc i) (children_of n) = take i (children_of n) @ [children_of n ! i]"
  by (simp add: take_Suc_conv_app_nth)

subsection \<open>Comments against the list of children\<close>

lemma comment_lines_simps [simp]:
  "comment_lines [] = []" "comment_lines (n # ns) = source_text n @ NL # comment_lines ns"
  "comment_lines (ms @ ns) = comment_lines ms @ comment_lines ns"
  by (simp_all add: comment_lines_def)

lemma comment_lines_Nil_iff [simp]: "comment_lines ns = [] \<longleftrightarrow> ns = []"
  by (cases ns) simp_all

lemma tu_comment_loop_run:
  "tu_comment_loop cs cnt acc =
     (let run = takeWhile (\<lambda>c. isNamed c \<and> is_comment c) cs in (cnt + length run, acc @ comment_lines run))"
  by (induction cs arbitrary: cnt acc) (simp_all add: Let_def)

text \<open>The comments from child \<open>i\<close> on, and those in front of it (nearest first).\<close>

definition comments_from :: "ts_node \<Rightarrow> nat \<Rightarrow> ts_node list" where
  "comments_from n i = takeWhile is_comment (drop i (children_of n))"

definition comments_before :: "ts_node \<Rightarrow> nat \<Rightarrow> ts_node list" where
  "comments_before n i = takeWhile is_comment (rev (take i (children_of n)))"

lemma comments_from_step:
  assumes "i < childrenCount n"
  shows "comments_from n i =
    (if is_comment (children_of n ! i) then children_of n ! i # comments_from n (Suc i) else [])"
  using assms by (simp add: comments_from_def drop_children)

lemma comments_from_end: "childrenCount n \<le> i \<Longrightarrow> comments_from n i = []"
  by (simp add: comments_from_def)

lemma comments_before_step:
  assumes "i < childrenCount n"
  shows "comments_before n (Suc i) =
    (if is_comment (children_of n ! i) then children_of n ! i # comments_before n i else [])"
  using assms by (simp add: comments_before_def take_children)

lemma comments_before_0 [simp]: "comments_before n 0 = []"
  by (simp add: comments_before_def)

lemma comment_run_child:
  assumes "i < childrenCount n"
  shows "comment_run prev (children_of n ! i) acc cnt =
    (let run = comments_from n i; j = i + length run
     in (acc @ comment_lines run, cnt + length run,
         if j < childrenCount n then Some (last (prev # run), children_of n ! j) else None))"
  using assms
proof (induction "childrenCount n - i" arbitrary: i prev acc cnt)
  case (Suc d)
  show ?case
  proof (cases "is_comment (children_of n ! i) \<and> Suc i < childrenCount n")
    case True
    then have "comment_run prev (children_of n ! i) acc cnt =
      comment_run (children_of n ! i) (children_of n ! Suc i) (acc @ source_text (children_of n ! i) @ [NL]) (Suc cnt)"
      using Suc.prems by (subst comment_run.simps) (simp add: nextSibling_child child_at_children)
    also have "\<dots> = (let run = comments_from n (Suc i); j = Suc i + length run
       in ((acc @ source_text (children_of n ! i) @ [NL]) @ comment_lines run, Suc cnt + length run,
         if j < childrenCount n then Some (last (children_of n ! i # run), children_of n ! j) else None))"
      using Suc.hyps True by (intro Suc.hyps(1)) auto
    finally show ?thesis using True Suc.prems by (simp add: Let_def comments_from_step [of i])
  next
    case False
    with Suc.prems show ?thesis
      by (subst comment_run.simps)
        (auto simp: nextSibling_child child_at_children comments_from_step comments_from_end)
  qed
qed simp

lemma previous_comments_child:
  assumes "i < childrenCount n"
  shows "previous_comments (children_of n ! i) acc =
    (let run = comments_before n i; j = i - length run
     in (acc @ map source_text run, last (children_of n ! i # run),
         if j = 0 then None else Some (children_of n ! (j - 1))))"
  using assms
proof (induction i arbitrary: acc)
  case 0
  then show ?case by (subst previous_comments.simps) (simp add: prevSibling_child)
next
  case (Suc i)
  then have i: "i < childrenCount n" by simp
  with Suc.prems Suc.IH [OF i] show ?case
    by (subst previous_comments.simps)
      (auto simp: prevSibling_child child_at_children comments_before_step Let_def)
qed

text \<open>
  A comment counts for the child behind it unless the first comment of its run starts on the row where the sibling in front of the run ends.
\<close>

lemma getNodeComment_child:
  assumes "i < childrenCount n"
  defines "cms \<equiv> comments_before n i"
  shows "getNodeComment (children_of n ! i) =
    (if cms \<noteq> [] \<and> length cms < i \<and>
        row (startPoint (last cms)) = row (endPoint (children_of n ! (i - length cms - 1))) then []
     else comment_lines (rev cms))"
proof (cases i)
  case 0
  then show ?thesis using assms by (simp add: getNodeComment_def prevSibling_child)
next
  case (Suc j)
  then have j: "j < childrenCount n" using assms by simp
  have texts: "concat (map (\<lambda>t. t @ [NL]) (rev (map source_text cms))) = comment_lines (rev cms)"
    by (simp add: comment_lines_def rev_map o_def)
  have "cms = (if is_comment (children_of n ! j) then children_of n ! j # comments_before n j else [])"
    unfolding cms_def Suc by (rule comments_before_step [OF j])
  then show ?thesis
    using assms Suc j texts
    by (auto simp: getNodeComment_def prevSibling_child child_at_children previous_comments_child Let_def
        simp del: comment_lines_simps)
qed

text \<open>What the loop over the front declarations collects, on the list of children.\<close>

function front_texts :: "ts_node list \<Rightarrow> string list" where
  "front_texts [] = []"
| "front_texts (c # cs) =
     (if is_front_decl c then front_text c # front_texts cs
      else if is_comment c
      then comment_lines (takeWhile is_comment (c # cs)) # front_texts (dropWhile is_comment cs)
      else [])"
  by pat_completeness auto
termination
  by (relation "measure length") (auto simp: length_dropWhile_le le_imp_less_Suc)

definition in_front :: "ts_node \<Rightarrow> bool" where
  "in_front c \<longleftrightarrow> is_front_decl c \<or> is_comment c"

lemma comment_no_decl: "is_comment c \<Longrightarrow> \<not> is_front_decl c"
  by (simp add: is_front_decl_def isTypeDecl_def starts_with_def)

lemma takeWhile_in_front_comments:
  "takeWhile in_front cs = takeWhile is_comment cs @ takeWhile in_front (dropWhile is_comment cs)"
  by (induction cs) (auto simp: in_front_def)

lemma front_loop_child:
  "\<exists>r. front_loop n cnt decls lastRow =
     Inr (decls @ front_texts (drop cnt (children_of n)), r, cnt + length (takeWhile in_front (drop cnt (children_of n))))"
proof (induction "childrenCount n - cnt" arbitrary: cnt decls lastRow rule: less_induct)
  case less
  show ?case
  proof (cases "cnt < childrenCount n")
    case False
    then show ?thesis by (simp add: front_loop.simps child_at_children)
  next
    case True
    define c where "c = children_of n ! cnt"
    have dr: "drop cnt (children_of n) = c # drop (Suc cnt) (children_of n)"
      unfolding c_def using True by (rule drop_children)
    consider (decl) "is_front_decl c" | (comment) "is_comment c" | (other) "\<not> in_front c"
      by (auto simp: in_front_def)
    then show ?thesis
    proof cases
      case decl
      with less [of "Suc cnt" "decls @ [front_text c]" "row (endPoint c)"] True show ?thesis
        by (simp add: front_loop.simps [of n cnt] child_at_children c_def [symmetric] dr in_front_def)
    next
      case comment
      define cms where "cms = comments_from n cnt"
      have cms: "cms = takeWhile is_comment (c # drop (Suc cnt) (children_of n))"
        by (simp add: cms_def comments_from_def dr)
      obtain k where k: "getComment c 0 True = Inr k" "comment_text k = comment_lines cms" "commentCnt k = length cms"
        using comment comment_run_child [OF True, of c "[]" 0, folded c_def cms_def]
        by (auto simp: getComment_def Let_def split: if_splits)
      have dd: "drop (cnt + length cms) (children_of n) = dropWhile is_comment (drop cnt (children_of n))"
        by (simp add: cms_def comments_from_def dropWhile_eq_drop add.commute)
      have pos: "0 < length cms" using comment by (simp add: cms)
      have smaller: "childrenCount n - (cnt + length cms) < childrenCount n - cnt" using True pos by linarith
      have all: "front_texts (drop cnt (children_of n)) = comment_lines cms # front_texts (drop (cnt + length cms) (children_of n))"
        unfolding dd using comment by (simp add: dr cms comment_no_decl)
      have len: "length (takeWhile in_front (drop cnt (children_of n))) =
          length cms + length (takeWhile in_front (drop (cnt + length cms) (children_of n)))"
        unfolding dd using takeWhile_in_front_comments [of "drop cnt (children_of n)"] by (simp add: dr cms)
      have "front_loop n cnt decls lastRow = front_loop n (cnt + length cms) (decls @ [comment_lines cms]) (row (endPoint c))"
        using True comment by (simp add: front_loop.simps [of n cnt] child_at_children c_def [symmetric] k comment_no_decl)
      moreover obtain r where "front_loop n (cnt + length cms) (decls @ [comment_lines cms]) (row (endPoint c)) =
          Inr ((decls @ [comment_lines cms]) @ front_texts (drop (cnt + length cms) (children_of n)), r,
               (cnt + length cms) + length (takeWhile in_front (drop (cnt + length cms) (children_of n))))"
        using less [OF smaller, of "decls @ [comment_lines cms]" "row (endPoint c)"] by blast
      ultimately show ?thesis unfolding all len by (simp add: add.assoc)
    next
      case other
      with True show ?thesis
        by (simp add: front_loop.simps [of n cnt] child_at_children c_def [symmetric] dr in_front_def)
    qed
  qed
qed

lemma getFrontDecls_children:
  "\<exists>r. getFrontDecls n cnt =
     Inr (front_texts (drop cnt (children_of n)), r, cnt + length (takeWhile in_front (drop cnt (children_of n))))"
  using front_loop_child [of n cnt "[]" 0] by (auto simp: getFrontDecls_def)


lemma takeWhile_all_rev: "\<forall>x \<in> set xs. P x \<Longrightarrow> takeWhile P (rev xs) = rev xs"
  by (simp add: takeWhile_eq_all_conv)

text \<open>The last front declaration, when the front ends with comments.\<close>

lemma last_front_texts:
  assumes "takeWhile in_front cs \<noteq> []" and "is_comment (last (takeWhile in_front cs))"
  shows "front_texts cs \<noteq> [] \<and>
    last (front_texts cs) = comment_lines (rev (takeWhile is_comment (rev (takeWhile in_front cs))))"
  using assms
proof (induction cs rule: front_texts.induct)
  case (2 c cs)
  consider (decl) "is_front_decl c" | (comment) "is_comment c" "\<not> is_front_decl c" | (other) "\<not> in_front c"
    by (auto simp: in_front_def)
  then show ?case
  proof cases
    case decl
    then have c: "\<not> is_comment c" "in_front c" by (auto simp: comment_no_decl in_front_def)
    with 2(3,4) have "takeWhile in_front cs \<noteq> []" "is_comment (last (takeWhile in_front cs))"
      by (auto split: if_splits)
    with 2(1) [OF decl] c decl show ?thesis
      by (auto simp: takeWhile_append takeWhile_all_rev)
  next
    case comment
    define run1 where "run1 = takeWhile is_comment (c # cs)"
    define more where "more = takeWhile in_front (dropWhile is_comment cs)"
    have split: "takeWhile in_front (c # cs) = run1 @ more"
      using takeWhile_in_front_comments [of "c # cs"] comment by (simp add: run1_def more_def)
    have run1: "\<forall>x \<in> set run1. is_comment x" "run1 \<noteq> []"
      using comment by (auto simp: run1_def dest: set_takeWhileD)
    show ?thesis
    proof (cases "more = []")
      case True
      have front: "front_texts (c # cs) = comment_lines run1 # front_texts (dropWhile is_comment cs)"
        using comment by (simp add: run1_def)
      have "front_texts (dropWhile is_comment cs) = []"
      proof (cases "dropWhile is_comment cs")
        case Nil
        show ?thesis unfolding Nil by simp
      next
        case (Cons d ds)
        show ?thesis using True unfolding more_def Cons by (simp add: in_front_def split: if_splits)
      qed
      with front split True show ?thesis by (simp add: takeWhile_all_rev [OF run1(1)])
    next
      case False
      have front: "front_texts (c # cs) = comment_lines run1 # front_texts (dropWhile is_comment cs)"
        using comment by (simp add: run1_def)
      have IH: "front_texts (dropWhile is_comment cs) \<noteq> [] \<and>
          last (front_texts (dropWhile is_comment cs)) = comment_lines (rev (takeWhile is_comment (rev more)))"
        using 2(2) [OF comment(2,1)] 2(4) False split unfolding more_def by simp
      have "hd more = hd (dropWhile is_comment cs)" "dropWhile is_comment cs \<noteq> []"
        using False by (cases "dropWhile is_comment cs"; auto simp: more_def split: if_splits)+
      then have "\<not> is_comment (hd more)" using hd_dropWhile [of is_comment cs] by simp
      then have "\<exists>x \<in> set (rev more). \<not> is_comment x" using False by (intro bexI [of _ "hd more"]) auto
      then have "takeWhile is_comment (rev more @ rev run1) = takeWhile is_comment (rev more)"
        by (auto simp: takeWhile_append1)
      with IH front split show ?thesis by simp
    qed
  next
    case other
    with 2(3) show ?thesis by simp
  qed
qed simp

text \<open>
  The comments in front of the first declaration behind the front declarations are collected twice: \<open>getFrontDecls\<close> takes every
  comment, whether it is an orphan or not, and \<open>getNodeComment\<close> takes the same comments for the declaration. The last front declaration
  then equals the comment of the node.
\<close>

theorem front_comment_twice:
  assumes "getFrontDecls n cnt = Inr (decls, r, idx)" and "cnt < idx" and "idx < childrenCount n"
    and "is_comment (children_of n ! (idx - 1))"
    and "cnt = 0 \<or> \<not> is_comment (children_of n ! (cnt - 1))"
    and "getNodeComment (children_of n ! idx) \<noteq> []"
  shows "decls \<noteq> [] \<and> last decls = getNodeComment (children_of n ! idx)"
proof -
  let ?cs = "children_of n"
  define front where "front = takeWhile in_front (drop cnt ?cs)"
  have d: "decls = front_texts (drop cnt ?cs)" "idx = cnt + length front"
    using getFrontDecls_children [of n cnt] assms(1) by (auto simp: front_def)
  have front: "take idx ?cs = take cnt ?cs @ front"
    unfolding d(2) take_add front_def by (simp add: takeWhile_eq_take [symmetric])
  have ne: "front \<noteq> []" using assms(2) d(2) by auto
  have "last front = ?cs ! (idx - 1)"
  proof -
    have "length (take idx ?cs) = idx" using assms(3) by simp
    then have "take idx ?cs \<noteq> []" using assms(2) by (metis list.size(3) not_less_zero)
    then have "last (take idx ?cs) = ?cs ! (idx - 1)" using assms(2,3) last_conv_nth [of "take idx ?cs"] by (simp add: min_def)
    then show ?thesis using front ne by simp
  qed
  with ne assms(4) have last: "decls \<noteq> []" "last decls = comment_lines (rev (takeWhile is_comment (rev front)))"
    using last_front_texts [of "drop cnt ?cs"] by (simp_all add: d(1) front_def)
  have "comments_before n idx = takeWhile is_comment (rev front)"
  proof (cases "\<forall>x \<in> set front. is_comment x")
    case True
    have "takeWhile is_comment (rev (take cnt ?cs)) = []"
    proof (cases cnt)
      case (Suc k)
      then show ?thesis using assms(2,3,5) by (simp add: take_children)
    qed simp
    with True show ?thesis by (simp add: comments_before_def front takeWhile_append takeWhile_all_rev)
  next
    case False
    then show ?thesis by (auto simp: comments_before_def front takeWhile_append1)
  qed
  with last getNodeComment_child [OF assms(3)] assms(6) show ?thesis by (simp split: if_splits)
qed

text \<open>A file of an inclusion, a comment and a class.\<close>

definition at_row :: "nat \<Rightarrow> nat \<Rightarrow> point" where
  "at_row r c = \<lparr>row = of_nat r, column = of_nat c\<rparr>"

definition demo_source :: string where
  "demo_source = ''#include <a>'' @ [NL] @ ''// c'' @ [NL] @ ''class A {};''"

definition demo_tree :: cst where
  "demo_tree = CST ''translation_unit'' True 0 29 (at_row 0 0) (at_row 2 11)
     [(None, CST ''preproc_include'' True 0 12 (at_row 0 0) (at_row 0 12) []),
      (None, CST ''comment'' True 13 17 (at_row 1 0) (at_row 1 4) []),
      (None, CST ''class_specifier'' True 18 28 (at_row 2 0) (at_row 2 10)
         [(Some ''body'', CST ''field_declaration_list'' True 26 28 (at_row 2 8) (at_row 2 10) [])]),
      (None, CST '';'' False 28 29 (at_row 2 10) (at_row 2 11) [])]"

abbreviation demo_root :: ts_node where
  "demo_root \<equiv> root_node demo_source demo_tree"

lemma demo_children:
  "childrenCount demo_root = 4"
  "map node_type (children_of demo_root) = [''preproc_include'', ''comment'', ''class_specifier'', '';'']"
  by (simp_all add: childrenCount_def root_node_def demo_tree_def children_of_def child_at_def)

theorem front_comment_twice_witness:
  "\<exists>decls r. getFrontDecls demo_root 0 = Inr (decls, r, 2) \<and> last decls = getNodeComment (children_of demo_root ! 2)"
proof -
  have kids: "is_front_decl (children_of demo_root ! 0)" "is_comment (children_of demo_root ! 1)"
    "\<not> in_front (children_of demo_root ! 2)"
    by (simp_all add: childrenCount_def root_node_def demo_tree_def children_of_def child_at_def in_front_def is_front_decl_def
        isTypeDecl_def starts_with_def getChildByFieldName_def)
  define f where "f = (!) (children_of demo_root)"
  have "children_of demo_root = map f [0..<4]"
    unfolding f_def by (metis demo_children(1) length_children_of map_nth)
  then have "takeWhile in_front (drop 0 (children_of demo_root)) = [f 0, f 1]"
    using kids [folded f_def] by (simp add: upt_rec in_front_def numeral_2_eq_2)
  then obtain decls r where *: "getFrontDecls demo_root 0 = Inr (decls, r, 2)"
    using getFrontDecls_children [of demo_root 0] by (auto simp: demo_children(1))
  have "comments_before demo_root 2 = [children_of demo_root ! 1]"
    using comments_before_step [of 1 demo_root] comments_before_step [of 0 demo_root] kids comment_no_decl
    by (auto simp: demo_children(1) numeral_2_eq_2)
  then have "getNodeComment (children_of demo_root ! 2) \<noteq> []"
    by (simp add: getNodeComment_child demo_children(1))
      (simp add: root_node_def demo_tree_def children_of_def child_at_def childrenCount_def at_row_def)
  with front_comment_twice [OF *] kids show ?thesis using * by (simp add: demo_children)
qed

end
