(* ===== verification/Signature.thy ===== *)
theory Signature
  imports SyntaxTree
begin

section \<open>Signatures of declarations\<close>

text \<open>
  Models the second half of \<open>src/parser/utils.cpp\<close>, which takes the text of a class, a special member function, a conversion function or a
  function definition apart with a regular expression. The patterns themselves are a parameter, one function for each, which gives the captured groups; a group that is
  captured as a \<open>StringPiece\<close> has its place in the text. The short patterns that split a list at commas are written out.
\<close>

subsection \<open>What the patterns capture\<close>

record piece =
  offset :: nat
  piece_text :: string

record class_match =
  cm_signature :: string
  cm_template :: string
  cm_key :: string
  cm_attrs :: string
  cm_name :: piece
  cm_final :: string
  cm_bases :: string

record special_match =
  sp_template :: string
  sp_attrs :: string
  sp_before :: string
  sp_name :: piece
  sp_params :: string
  sp_inits :: string
  sp_body :: string

record def_match =
  dm_signature :: string
  dm_template :: string
  dm_attrs :: string
  dm_before :: string
  dm_name :: piece
  dm_params :: string
  dm_after :: string

record enum_match =
  em_signature :: string
  em_key :: string
  em_attrs :: string
  em_name :: piece
  em_base :: string

record namespace_match =
  nm_signature :: string
  nm_inline :: string
  nm_name :: string

record regexes =
  pragma_once :: "string \<Rightarrow> bool"
  namespace_pattern :: "string \<Rightarrow> namespace_match option"
  class_pattern :: "string \<Rightarrow> class_match option"
  enum_pattern :: "string \<Rightarrow> enum_match option"
  special_pattern :: "string \<Rightarrow> special_match option"
  cast_pattern :: "string \<Rightarrow> def_match option"
  def_pattern :: "string \<Rightarrow> string \<Rightarrow> def_match option"

subsection \<open>Places in a text\<close>

text \<open>The line breaks in front of a place, and the place after the last of them.\<close>

definition line_offset :: "string \<Rightarrow> nat \<Rightarrow> nat" where
  "line_offset txt off = length (filter (\<lambda>c. c = NL) (take off txt))"

definition line_start :: "string \<Rightarrow> nat \<Rightarrow> nat" where
  "line_start txt off = (case find_last_idx (\<lambda>c. c = NL) (take (Suc off) txt) of None \<Rightarrow> 0 | Some i \<Rightarrow> i + 1)"

definition qualified_offset :: "string \<Rightarrow> nat" where
  "qualified_offset name = (case rfind_str ''::'' name of None \<Rightarrow> 0 | Some p \<Rightarrow> p + 2)"

definition col_offset :: "string \<Rightarrow> nat \<Rightarrow> nat \<Rightarrow> int" where
  "col_offset txt off qualified = int off - int (line_start txt off) + int qualified"

definition drop_last_space :: "string \<Rightarrow> string" where
  "drop_last_space s = (if s \<noteq> [] \<and> last s = CHR '' '' then butlast s else s)"

definition drop_first_space :: "string \<Rightarrow> string" where
  "drop_first_space s = (if s \<noteq> [] \<and> hd s = CHR '' '' then tl s else s)"

subsection \<open>Classes\<close>

record ClassInfo =
  ci_OriginalSignature :: string
  ci_TemplateParameterList :: string
  ci_ClassKey :: string
  ci_Attrs :: string
  ci_ClassName :: string
  ci_IsFinal :: bool
  ci_BaseClause :: string
  ci_LineOffset :: int
  ci_ColOffset :: int

definition before_angle :: "string \<Rightarrow> string" where
  "before_angle name = (case find_idx (\<lambda>c. c = CHR ''<'') name of None \<Rightarrow> name | Some i \<Rightarrow> take i name)"

definition extractClassInfo :: "regexes \<Rightarrow> string \<Rightarrow> parse_error + ClassInfo" where
  "extractClassInfo R txt =
     (case class_pattern R txt of
        None \<Rightarrow> Inl AssertionFailed
      | Some m \<Rightarrow>
          let off = offset (cm_name m); name = piece_text (cm_name m)
          in Inr \<lparr>ci_OriginalSignature = cm_signature m, ci_TemplateParameterList = cm_template m, ci_ClassKey = cm_key m,
                  ci_Attrs = drop_first_space (cm_attrs m), ci_ClassName = drop_last_space name,
                  ci_IsFinal = (cm_final m \<noteq> []), ci_BaseClause = cm_bases m,
                  ci_LineOffset = (if name = [] then 0 else int (line_offset txt off)),
                  ci_ColOffset = (if before_angle name = [] then 0 else col_offset txt off (qualified_offset (before_angle name)))\<rparr>)"

subsection \<open>Special member functions\<close>

record FuncSpecialMemberInfo =
  si_DefType :: DefinitionType
  si_OriginalSignature :: string
  si_TemplateParameterList :: string
  si_Attrs :: string
  si_BeforeFuncName :: string
  si_FuncName :: string
  si_ParameterList :: "string list"
  si_InitList :: "string list"
  si_LineOffset :: int
  si_ColOffset :: int

text \<open>
  \<open>RE2::Consume\<close> with \<^verbatim>\<open>\s*([^,]+)\s*,?\<close> until it fails: white space gives back one character when there is nothing else in front of the comma,
  and nothing is consumed in front of a comma or at the end.
\<close>

definition re_space :: "char \<Rightarrow> bool" where
  "re_space c \<longleftrightarrow> isspace c \<and> c \<noteq> CHR 0x0B"

definition item_capture :: "string \<Rightarrow> string" where
  "item_capture h = (if dropWhile re_space h = [] then [last h] else dropWhile re_space h)"

function consume_items :: "string \<Rightarrow> string list" where
  "consume_items s =
     (let h = takeWhile (\<lambda>c. c \<noteq> CHR '','') s; t = dropWhile (\<lambda>c. c \<noteq> CHR '','') s
      in if h = [] then [] else string_trim (item_capture h) trim_default # consume_items (drop 1 t))"
  by pat_completeness auto
termination
proof (relation "measure length", goal_cases)
  case (2 s h t)
  then have "length s = length h + length t" by (metis length_append takeWhile_dropWhile_id)
  with 2(3) show ?case by (cases h) auto
qed simp

declare consume_items.simps [simp del]

definition up_to :: "char \<Rightarrow> string \<Rightarrow> string" where
  "up_to c s = (case find_idx (\<lambda>x. x = c) s of None \<Rightarrow> s | Some i \<Rightarrow> take i s)"

definition def_type :: "string \<Rightarrow> DefinitionType" where
  "def_type body =
     (if contains_str body ''default'' then Defaulted else if contains_str body ''delete'' then Deleted else Plain)"

definition extractFuncSpecialMemberInfo :: "regexes \<Rightarrow> string \<Rightarrow> parse_error + FuncSpecialMemberInfo" where
  "extractFuncSpecialMemberInfo R txt =
     (case special_pattern R txt of
        None \<Rightarrow> Inl AssertionFailed
      | Some m \<Rightarrow>
          let off = offset (sp_name m); name = piece_text (sp_name m); t = def_type (sp_body m);
              signature = up_to (if t = Plain then CHR ''{'' else CHR ''='') txt
          in if name = [] \<or> signature = [] then Inl AssertionFailed
             else Inr \<lparr>si_DefType = t, si_OriginalSignature = signature, si_TemplateParameterList = sp_template m,
                       si_Attrs = drop_first_space (sp_attrs m), si_BeforeFuncName = drop_last_space (sp_before m), si_FuncName = name,
                       si_ParameterList = consume_items (sp_params m),
                       si_InitList = (if sp_inits m = [] then [] else consume_items (tl (sp_inits m))),
                       si_LineOffset = int (line_offset txt off),
                       si_ColOffset = col_offset txt off (qualified_offset name)\<rparr>)"

subsection \<open>Conversion functions and function definitions\<close>

record FuncInfo =
  fi_OriginalSignature :: string
  fi_TemplateParameterList :: string
  fi_Attrs :: string
  fi_BeforeFuncName :: string
  fi_FuncName :: string
  fi_ParameterList :: "string list"
  fi_AfterParameterList :: string
  fi_LineOffset :: int
  fi_ColOffset :: int

definition func_info :: "string \<Rightarrow> def_match \<Rightarrow> string \<Rightarrow> string list \<Rightarrow> nat \<Rightarrow> FuncInfo" where
  "func_info txt m name params qualified =
     \<lparr>fi_OriginalSignature = dm_signature m, fi_TemplateParameterList = dm_template m, fi_Attrs = dm_attrs m,
      fi_BeforeFuncName = dm_before m, fi_FuncName = name, fi_ParameterList = params, fi_AfterParameterList = dm_after m,
      fi_LineOffset = int (line_offset txt (offset (dm_name m))),
      fi_ColOffset = col_offset txt (offset (dm_name m)) qualified\<rparr>"

definition extractFuncOperatorCastInfo :: "regexes \<Rightarrow> string \<Rightarrow> parse_error + FuncInfo" where
  "extractFuncOperatorCastInfo R txt =
     (case cast_pattern R txt of
        None \<Rightarrow> Inl AssertionFailed
      | Some m \<Rightarrow>
          Inr (func_info txt m (piece_text (dm_name m)) (map without_spaces (getlines (CHR '','') [] (dm_params m))) 0))"

definition extractFuncDefInfo :: "regexes \<Rightarrow> string \<Rightarrow> string \<Rightarrow> parse_error + FuncInfo" where
  "extractFuncDefInfo R txt FuncName =
     (case def_pattern R FuncName txt of
        None \<Rightarrow> Inl AssertionFailed
      | Some m \<Rightarrow>
          Inr (func_info txt m FuncName
                 (map (\<lambda>s. string_trim s trim_default) (string_split (dm_params m) '','' False))
                 (qualified_offset (piece_text (dm_name m)))))"

subsection \<open>The place of a name in a file\<close>

text \<open>The row and the column of a byte of a text, as tree-sitter and the language server count them.\<close>

definition last_line :: "string \<Rightarrow> string" where
  "last_line s = rev (takeWhile (\<lambda>c. c \<noteq> NL) (rev s))"

definition position_of :: "string \<Rightarrow> nat \<Rightarrow> int \<times> int" where
  "position_of s b = (int (line_offset s b), int (length (last_line (take b s))))"

lemma line_offset_append:
  "line_offset (a @ b) (length a + n) = line_offset a (length a) + line_offset b n"
  by (simp add: line_offset_def)

lemma last_line_append: "last_line (a @ b) = (if NL \<in> set b then last_line b else last_line a @ b)"
  by (auto simp: last_line_def takeWhile_append)

lemma last_line_length: "length (last_line s) + (case find_last_idx (\<lambda>c. c = NL) s of None \<Rightarrow> 0 | Some i \<Rightarrow> i + 1) = length s"
proof (induction s)
  case (Cons c s)
  have "find_last_idx (\<lambda>c. c = NL) s = None \<longleftrightarrow> NL \<notin> set s"
    by (induction s) (auto split: option.splits)
  with Cons last_line_append [of "[c]" s] show ?case
    by (auto simp: last_line_def [of "[c]"] split: option.splits if_splits)
qed (simp add: last_line_def)

lemma line_offset_0_iff: "line_offset s n = 0 \<longleftrightarrow> NL \<notin> set (take n s)"
  by (auto simp: line_offset_def filter_empty_conv)

text \<open>A captured piece lies in the text.\<close>

definition captured :: "string \<Rightarrow> piece \<Rightarrow> bool" where
  "captured txt p \<longleftrightarrow> take (length (piece_text p)) (drop (offset p) txt) = piece_text p"

lemma col_offset_last_line:
  assumes "captured txt p" and "piece_text p \<noteq> []" and "NL \<notin> set (piece_text p)" and "q \<le> length (piece_text p)"
  shows "col_offset txt (offset p) q = int (length (last_line (take (offset p + q) txt)) - q) + int q \<and>
    q \<le> length (last_line (take (offset p + q) txt)) \<and>
    line_offset txt (offset p + q) = line_offset txt (offset p) \<and>
    take (offset p + q) txt = take (offset p) txt @ take q (piece_text p)"
proof -
  let ?o = "offset p" and ?n = "piece_text p"
  have d: "drop ?o txt = ?n @ drop (length ?n) (drop ?o txt)"
    using assms(1) by (metis append_take_drop_id captured_def)
  have len: "?o < length txt" using d assms(2) by (cases "?o < length txt") auto
  have t: "take (?o + q) txt = take ?o txt @ take q ?n"
    using d assms(4) by (metis append_Nil2 diff_is_0_eq' take0 take_add take_append)
  have no: "NL \<notin> set (take q ?n)" using assms(3) by (meson in_set_takeD)
  have hd: "txt ! ?o \<noteq> NL"
    using d assms(2,3) len by (metis append_is_Nil_conv hd_append2 hd_drop_conv_nth hd_in_set)
  have suc: "last_line (take (Suc ?o) txt) = last_line (take ?o txt) @ [txt ! ?o]"
    using len hd by (simp add: take_Suc_conv_app_nth last_line_append)
  have ll: "last_line (take (?o + q) txt) = last_line (take ?o txt) @ take q ?n"
    unfolding t using no by (simp add: last_line_append)
  have "line_start txt ?o + length (last_line (take ?o txt)) = ?o"
  proof -
    have "length (take (Suc ?o) txt) = Suc ?o" using len by simp
    with last_line_length [of "take (Suc ?o) txt"] suc show ?thesis
      by (simp add: line_start_def split: option.splits)
  qed
  moreover have "line_offset txt (?o + q) = line_offset txt ?o"
    using no by (simp add: line_offset_def t filter_empty_conv) (auto simp: filter_empty_conv)
  ultimately show ?thesis using ll t assms(4) by (simp add: col_offset_def)
qed

text \<open>
  Where a name stands in a file of which \<open>txt\<close> is the part behind \<open>pre\<close>: the column counts from the start of the part only when there is no line
  break between.
\<close>

lemma position_of_name:
  assumes "captured txt p" and "piece_text p \<noteq> []" and "NL \<notin> set (piece_text p)" and "q \<le> length (piece_text p)"
  shows "position_of (pre @ txt @ post) (length pre + (offset p + q)) =
    (int (line_offset pre (length pre)) + int (line_offset txt (offset p)),
     col_offset txt (offset p) q + (if line_offset txt (offset p) = 0 then int (length (last_line pre)) else 0))"
proof -
  let ?o = "offset p" and ?n = "piece_text p"
  have d: "drop ?o txt = ?n @ drop (length ?n) (drop ?o txt)"
    using assms(1) by (metis append_take_drop_id captured_def)
  then have "length (drop ?o txt) = length ?n + length (drop (length ?n) (drop ?o txt))" by (metis length_append)
  with assms(2,4) have len: "?o + q \<le> length txt" by (cases "?o < length txt") auto
  note c = col_offset_last_line [OF assms]
  have t: "take (length pre + (?o + q)) (pre @ txt @ post) = pre @ take (?o + q) txt" using len by simp
  have lo: "line_offset (pre @ txt @ post) (length pre + (?o + q)) = line_offset pre (length pre) + line_offset txt ?o"
  proof -
    have "line_offset (txt @ post) (?o + q) = line_offset txt (?o + q)" using len by (simp add: line_offset_def)
    with c show ?thesis by (simp only: line_offset_append)
  qed
  have nl: "NL \<in> set (take (?o + q) txt) \<longleftrightarrow> line_offset txt ?o \<noteq> 0"
    using line_offset_0_iff c by metis
  have col: "col_offset txt ?o q = int (length (last_line (take (?o + q) txt)))"
    using c by (metis le_add_diff_inverse2 of_nat_add)
  have id: "last_line (take (?o + q) txt) = take (?o + q) txt" if "line_offset txt ?o = 0"
    using that nl last_line_append [of "[]" "take (?o + q) txt"] by (auto simp: last_line_def)
  show ?thesis
    unfolding position_of_def t last_line_append lo nl col by (simp add: id)
qed

text \<open>
  The language server is asked for the class at the row and column of the node plus the offsets of the class name in its text. That is the place of
  the name exactly when the name stands on the first line of the node or the node starts in column 0: for an indented class template
  whose name is on a later line the column of the node is added although the offset counts from the start of the line.
\<close>

theorem class_name_position:
  assumes "class_pattern R txt = Some m" and "captured txt (cm_name m)" and "piece_text (cm_name m) \<noteq> []"
    and "NL \<notin> set (piece_text (cm_name m))" and "hd (piece_text (cm_name m)) \<noteq> CHR ''<''"
  shows "\<exists>info. extractClassInfo R txt = Inr info \<and>
    ((int (line_offset pre (length pre)) + ci_LineOffset info, int (length (last_line pre)) + ci_ColOffset info) =
       position_of (pre @ txt @ post)
         (length pre + (offset (cm_name m) + qualified_offset (before_angle (piece_text (cm_name m))))) \<longleftrightarrow>
     ci_LineOffset info = 0 \<or> last_line pre = [])"
proof -
  have "length (before_angle x) \<le> length x" for x by (simp add: before_angle_def split: option.splits)
  moreover have "qualified_offset x \<le> length x" for x
  proof -
    have "i + 2 \<le> length x" if "rfind_str ''::'' x = Some i" for i
      using that by (induction x arbitrary: i) (auto split: option.splits if_splits dest!: prefix_length_le)
    then show ?thesis by (simp add: qualified_offset_def split: option.splits)
  qed
  ultimately have "qualified_offset (before_angle (piece_text (cm_name m))) \<le> length (piece_text (cm_name m))"
    using order_trans by blast
  moreover have "before_angle (piece_text (cm_name m)) \<noteq> []"
    using assms(3,5) by (cases "piece_text (cm_name m)") (auto simp: before_angle_def split: option.splits)
  ultimately show ?thesis
    using position_of_name [OF assms(2-4), of "qualified_offset (before_angle (piece_text (cm_name m)))"] assms(1,3)
    by (auto simp: extractClassInfo_def Let_def)
qed

definition demo_class_text :: string where
  "demo_class_text = ''template <class T>'' @ [NL] @ ''  class N::A {''"

definition demo_class_match :: class_match where
  "demo_class_match =
     \<lparr>cm_signature = ''template <class T>'' @ [NL] @ ''  class N::A '', cm_template = ''template <class T>'', cm_key = ''class'', cm_attrs = [],
      cm_name = \<lparr>offset = 27, piece_text = ''N::A''\<rparr>, cm_final = [], cm_bases = []\<rparr>"

definition demo_regexes :: regexes where
  "demo_regexes =
     \<lparr>pragma_once = (\<lambda>s. s = ''#pragma once''), namespace_pattern = (\<lambda>_. None),
      class_pattern = (\<lambda>s. if s = demo_class_text then Some demo_class_match else None), enum_pattern = (\<lambda>_. None),
      special_pattern = (\<lambda>s. if s = ''~A() { delete p; }'' then
         Some \<lparr>sp_template = [], sp_attrs = [], sp_before = [], sp_name = \<lparr>offset = 0, piece_text = ''~A''\<rparr>, sp_params = [], sp_inits = [],
               sp_body = ''{ delete p; }''\<rparr> else None),
      cast_pattern = (\<lambda>_. None), def_pattern = (\<lambda>_ _. None)\<rparr>"

theorem class_name_position_witness:
  "\<exists>info. extractClassInfo demo_regexes demo_class_text = Inr info \<and>
     (int (line_offset ''  '' 2) + ci_LineOffset info, int (length (last_line ''  '')) + ci_ColOffset info) \<noteq>
        position_of (''  '' @ demo_class_text @ []) 32"
proof -
  have "class_pattern demo_regexes demo_class_text = Some demo_class_match" by (simp add: demo_regexes_def)
  moreover have "captured demo_class_text (cm_name demo_class_match)"
    "piece_text (cm_name demo_class_match) = ''N::A''"
    by (simp_all add: captured_def demo_class_match_def demo_class_text_def)
  ultimately obtain info where info: "extractClassInfo demo_regexes demo_class_text = Inr info"
    "((int (line_offset ''  '' (length ''  '')) + ci_LineOffset info, int (length (last_line ''  '')) + ci_ColOffset info) =
       position_of (''  '' @ demo_class_text @ [])
         (length ''  '' + (offset (cm_name demo_class_match) + qualified_offset (before_angle ''N::A'')))) \<longleftrightarrow>
     ci_LineOffset info = 0 \<or> last_line ''  '' = []"
    using class_name_position [of demo_regexes demo_class_text demo_class_match "''  ''" "[]"] by auto
  have "ci_LineOffset info = 1"
    using info(1) by (auto simp: extractClassInfo_def demo_regexes_def demo_class_match_def demo_class_text_def Let_def line_offset_def)
  moreover have "last_line ''  '' \<noteq> []" by (simp add: last_line_def)
  moreover have "length ''  '' + (offset (cm_name demo_class_match) + qualified_offset (before_angle ''N::A'')) = 32"
    by (simp add: demo_class_match_def before_angle_def qualified_offset_def)
  ultimately show ?thesis using info by (intro exI [of _ info]) (simp add: numeral_2_eq_2)
qed

text \<open>
  The kind of a special member function is read off its whole body: a function whose body mentions \<open>delete\<close> and not \<open>default\<close> (a
  destructor that deletes a pointer) is taken for a deleted one, and its signature is the whole text up to the first equals sign, the body
  included when there is none.
\<close>

theorem deleting_body_taken_for_deleted:
  assumes "special_pattern R txt = Some m" and "piece_text (sp_name m) \<noteq> []"
    and "contains_str (sp_body m) ''delete''" and "\<not> contains_str (sp_body m) ''default''"
    and "txt \<noteq> []" and "CHR ''='' \<notin> set txt"
  shows "\<exists>info. extractFuncSpecialMemberInfo R txt = Inr info \<and> si_DefType info = Deleted \<and> si_OriginalSignature info = txt"
proof -
  have "up_to (CHR ''='') txt = txt" using assms(6) by (simp add: up_to_def find_idx_char_None)
  with assms show ?thesis by (simp add: extractFuncSpecialMemberInfo_def def_type_def Let_def)
qed

theorem deleting_body_taken_for_deleted_witness:
  "\<exists>info. extractFuncSpecialMemberInfo demo_regexes ''~A() { delete p; }'' = Inr info \<and> si_DefType info = Deleted \<and>
          si_OriginalSignature info = ''~A() { delete p; }''"
  by (rule deleting_body_taken_for_deleted
        [of demo_regexes _ "the (special_pattern demo_regexes ''~A() { delete p; }'')"])
    (simp_all add: demo_regexes_def contains_str_def)

end
