(* ===== verification/Uri.thy ===== *)
theory Uri
  imports StringOp
begin

section \<open>Uniform resource identifiers\<close>

text \<open>
  Models \<open>src/lsp/uri.cpp\<close> and \<open>include/mergebot/lsp/uri.h\<close>: the path helpers, percent encoding, printing and
  parsing of a URI and the file URIs that the language server client exchanges.
  The build is not a Windows one, so the native style is POSIX.
\<close>

datatype Style = native | posix | windows_slash | windows_backslash

text \<open>What stops an operation: a failed \<open>assert\<close> or \<open>std::out_of_range\<close>, raised by \<open>substr\<close>.\<close>

datatype uri_error = Assertion_failed | Out_of_range

subsection \<open>Paths\<close>

definition is_style_posix :: "Style \<Rightarrow> bool" where
  "is_style_posix s = (if s = posix then True else if s \<noteq> native then False else True)"

definition is_style_windows :: "Style \<Rightarrow> bool" where
  "is_style_windows s \<longleftrightarrow> \<not> is_style_posix s"

definition is_separator :: "char \<Rightarrow> Style \<Rightarrow> bool" where
  "is_separator value style =
     (if value = CHR ''/'' then True
      else if is_style_windows style then value = BSLASH else False)"

definition separators :: "Style \<Rightarrow> string" where
  "separators style = (if is_style_windows style then [BSLASH, CHR ''/''] else ''/'')"

text \<open>\<open>substr(0, find_first_of(set, from))\<close>, where \<open>npos\<close> takes everything.\<close>

definition upto_first_of :: "string \<Rightarrow> string \<Rightarrow> nat \<Rightarrow> string" where
  "upto_first_of path seps from =
     (case find_idx (\<lambda>c. c \<in> set seps) (drop from path) of
        None \<Rightarrow> path
      | Some k \<Rightarrow> take (from + k) path)"

definition find_first_component :: "string \<Rightarrow> Style \<Rightarrow> string" where
  "find_first_component path style =
     (if path = [] then path
      else if is_style_windows style \<and> 2 \<le> length path \<and> isalpha (path ! 0) \<and> path ! 1 = CHR '':''
      then take 2 path
      else if 2 < length path \<and> is_separator (path ! 0) style \<and> path ! 0 = path ! 1 \<and>
              \<not> is_separator (path ! 2) style
      then upto_first_of path (separators style) 2
      else if is_separator (path ! 0) style then take 1 path
      else upto_first_of path (separators style) 0)"

definition root_name :: "string \<Rightarrow> Style \<Rightarrow> string" where
  "root_name path style =
     (let first_component = find_first_component path style in
      if path \<noteq> [] then
        let has_net = (2 < length first_component \<and> is_separator (path ! 0) style \<and> path ! 1 = path ! 0);
            has_drive = (is_style_windows style \<and> ends_with first_component '':'')
        in if has_net \<or> has_drive then first_component else []
      else [])"

definition isNetworkPath :: "string \<Rightarrow> bool" where
  "isNetworkPath path \<longleftrightarrow> 2 < length path \<and> path ! 0 = path ! 1 \<and> is_separator (path ! 0) native"

definition isWindowsPath :: "string \<Rightarrow> bool" where
  "isWindowsPath path \<longleftrightarrow> 1 < length path \<and> isalpha (path ! 0) \<and> path ! 1 = CHR '':''"

definition convert_to_slash :: "string \<Rightarrow> Style \<Rightarrow> string" where
  "convert_to_slash path style =
     (if is_style_posix style then path else replace_char BSLASH (CHR ''/'') path)"

definition isValidScheme :: "string \<Rightarrow> bool" where
  "isValidScheme scheme =
     (case scheme of
        [] \<Rightarrow> False
      | c # cs \<Rightarrow> if \<not> isalpha c then False
                 else list_all (\<lambda>d. isalnum d \<or> d = CHR ''+'' \<or> d = CHR ''.'' \<or> d = CHR ''-'') cs)"

subsection \<open>Percent encoding\<close>

definition shouldEscape :: "char \<Rightarrow> bool" where
  "shouldEscape ch =
     (if islower ch \<or> isupper ch \<or> isdigit ch then False
      else ch \<notin> set ''-_.~/:'')"

text \<open>Both quotients are below 16, so neither \<open>hexdigit\<close> fails its assertion (\<open>percentEncode_total\<close>).\<close>

fun percentEncode :: "string \<Rightarrow> string option" where
  "percentEncode [] = Some []"
| "percentEncode (c # content) =
     (if shouldEscape c then
        (case (hexdigit (code_of c div 16) False, hexdigit (code_of c mod 16) False, percentEncode content) of
           (Some h, Some l, Some out) \<Rightarrow> Some (CHR ''%'' # h # l # out)
         | _ \<Rightarrow> None)
      else map_option (Cons c) (percentEncode content))"

text \<open>Behind the test of both digits the assertion of \<open>hexFromNibbles\<close> holds (\<open>hexFromNibbles_total\<close>).\<close>

fun percentDecode :: "string \<Rightarrow> string" where
  "percentDecode (c # a # b # rest) =
     (if c \<noteq> CHR ''%'' then c # percentDecode (a # b # rest)
      else if isHexDigit a \<and> isHexDigit b
      then byte_char (the (hexFromNibbles a b)) # percentDecode rest
      else c # percentDecode (a # b # rest))"
| "percentDecode s = s"

subsection \<open>The URI\<close>

record URI =
  scheme :: string
  authority :: string
  body :: string

definition mkURI :: "string \<Rightarrow> string \<Rightarrow> string \<Rightarrow> uri_error + URI" where
  "mkURI sch auth bdy =
     (if sch = [] then Inl Assertion_failed
      else if auth \<noteq> [] \<and> \<not> starts_with bdy ''/'' then Inl Assertion_failed
      else Inr \<lparr>scheme = sch, authority = auth, body = bdy\<rparr>)"

definition toString :: "URI \<Rightarrow> string option" where
  "toString u =
     (case (percentEncode (scheme u), percentEncode (authority u), percentEncode (body u)) of
        (Some s, Some a, Some b) \<Rightarrow>
          Some (s @ '':'' @
            (if authority u = [] \<and> body u = [] then []
             else (if authority u \<noteq> [] \<or> starts_with (body u) ''/'' then ''//'' @ a else []) @ b))
      | _ \<Rightarrow> None)"

text \<open>
  \<open>Inr None\<close> is \<open>std::nullopt\<close>. With an authority and no \<open>/\<close> behind it the second \<open>substr\<close> is
  called with \<open>npos\<close> and throws.
\<close>

definition parse :: "string \<Rightarrow> uri_error + URI option" where
  "parse origUri =
     (case find_idx (\<lambda>c. c = CHR '':'') origUri of
        None \<Rightarrow> Inr None
      | Some pos \<Rightarrow>
          let sch = percentDecode (take pos origUri); uri = drop (pos + 1) origUri in
          if \<not> isValidScheme sch then Inr None
          else if starts_with uri ''//'' then
            (let uri' = drop 2 uri in
             case find_idx (\<lambda>c. c = CHR ''/'') uri' of
               None \<Rightarrow> Inl Out_of_range
             | Some k \<Rightarrow> Inr (Some \<lparr>scheme = sch, authority = percentDecode (take k uri'),
                                   body = percentDecode (drop k uri')\<rparr>))
          else Inr (Some \<lparr>scheme = sch, authority = [], body = percentDecode uri\<rparr>))"

definition createFile :: "string \<Rightarrow> uri_error + URI" where
  "createFile absolutePath =
     (let root = root_name absolutePath native;
          (bdy, auth, path) =
            (if isNetworkPath root then ([], drop 2 root, drop (length root) absolutePath)
             else if isWindowsPath root then (''/'', [], absolutePath)
             else ([], [], absolutePath));
          bdy1 = bdy @ convert_to_slash path native;
          bdy2 = (if starts_with bdy1 ''file://'' then drop 7 bdy1 else bdy1)
      in mkURI ''file'' auth bdy2)"

subsection \<open>File URIs\<close>

record URIForFile =
  file_path :: string

definition fromURI :: "string \<Rightarrow> uri_error + URIForFile" where
  "fromURI uri =
     (case parse uri of
        Inl e \<Rightarrow> Inl e
      | Inr None \<Rightarrow> Inl Assertion_failed
      | Inr (Some u) \<Rightarrow> Inr \<lparr>file_path = body u\<rparr>)"

definition uri_of :: "URIForFile \<Rightarrow> uri_error + string" where
  "uri_of f =
     (case createFile (file_path f) of
        Inl e \<Rightarrow> Inl e
      | Inr u \<Rightarrow> (case toString u of None \<Rightarrow> Inl Assertion_failed | Some s \<Rightarrow> Inr s))"

definition path_of :: "URIForFile \<Rightarrow> uri_error + string" where
  "path_of f = (case createFile (file_path f) of Inl e \<Rightarrow> Inl e | Inr u \<Rightarrow> Inr (body u))"

subsection \<open>Percent encoding: total and inverted by decoding\<close>

lemma code_of_less [simp]: "code_of c < 256"
  by (cases c) (simp add: of_char_def horner_sum_simps)

lemma hexFromNibbles_total: "hexFromNibbles a b \<noteq> None \<longleftrightarrow> isHexDigit a \<and> isHexDigit b"
  by (simp add: hexFromNibbles_def tryGetHexFromNibbles_def isHexDigit_def Let_def)

text \<open>What an escaped byte looks like.\<close>

lemma escape_digits:
  obtains h l where "hexdigit (code_of c div 16) False = Some h" "hexdigit (code_of c mod 16) False = Some l"
    "tryGetHexFromNibbles h l = Some (of_nat (code_of c))"
proof -
  have lt: "code_of c div 16 < 16" "code_of c mod 16 < 16"
    using code_of_less [of c] by (auto simp: less_mult_imp_div_less)
  obtain h l where hl: "hexdigit (code_of c div 16) False = Some h" "hexdigit (code_of c mod 16) False = Some l"
    using hexdigit_Some [OF lt(1), of False] hexdigit_Some [OF lt(2), of False] by auto
  have "tryGetHexFromNibbles h l = Some (of_nat (16 * (code_of c div 16) + code_of c mod 16))"
    by (rule tryGetHex_hexdigit [OF lt hl])
  then have "tryGetHexFromNibbles h l = Some (of_nat (code_of c))" by simp
  with hl show ?thesis by (rule that)
qed

lemma byte_char_of_nat: "byte_char (of_nat (code_of c)) = c"
  using code_of_less [of c] by (simp add: byte_char_def unat_of_nat take_bit_nat_eq_self)

lemma percentEncode_total: "\<exists>out. percentEncode s = Some out"
proof (induction s)
  case (Cons c s)
  then obtain out where "percentEncode s = Some out" by blast
  moreover obtain h l where "hexdigit (code_of c div 16) False = Some h" "hexdigit (code_of c mod 16) False = Some l"
    by (rule escape_digits)
  ultimately show ?case by simp
qed simp

lemma percentDecode_plain: "c \<noteq> CHR ''%'' \<Longrightarrow> percentDecode (c # s) = c # percentDecode s"
  by (cases s rule: percentDecode.cases) auto

lemma decode_plain: "CHR ''%'' \<notin> set s \<Longrightarrow> percentDecode s = s"
  by (induction s rule: percentDecode.induct) auto

lemma percent_escaped: "shouldEscape (CHR ''%'')"
  by (simp add: shouldEscape_def islower_def isupper_def isdigit_def)

lemma decode_encode: "percentEncode s = Some out \<Longrightarrow> percentDecode out = s"
proof (induction s arbitrary: out)
  case (Cons c s)
  obtain t where t: "percentEncode s = Some t" using percentEncode_total by blast
  with Cons.IH have dec: "percentDecode t = s" by blast
  show ?case
  proof (cases "shouldEscape c")
    case True
    obtain h l where "hexdigit (code_of c div 16) False = Some h" "hexdigit (code_of c mod 16) False = Some l"
      and "tryGetHexFromNibbles h l = Some (of_nat (code_of c))"
      by (rule escape_digits)
    moreover from this have "isHexDigit h \<and> isHexDigit l"
      using hexFromNibbles_total [of h l] by (simp add: hexFromNibbles_def)
    ultimately show ?thesis using Cons.prems t True dec
      by (auto simp: byte_char_of_nat hexFromNibbles_def)
  next
    case False
    then have "c \<noteq> CHR ''%''" using percent_escaped by auto
    with Cons.prems t False dec show ?thesis by (auto simp: percentDecode_plain)
  qed
qed simp

lemma hexdigit_alnum_upto:
  "list_all (\<lambda>x. case hexdigit x False of Some c \<Rightarrow> isalnum c | None \<Rightarrow> True)
     [0, 1, 2, 3, 4, 5, 6, 7, 8, 9, 10, 11, 12, 13, 14, 15]"
  by (simp add: hexdigit_def cxx_defs)

lemma hexdigit_alnum: "hexdigit x False = Some c \<Longrightarrow> isalnum c"
proof -
  assume x: "hexdigit x False = Some c"
  then have "x < 16" by (simp add: hexdigit_def split: if_splits)
  then have "x \<in> set [0..<16]" by simp
  also have "[0..<16] = [0, 1, 2, 3, 4, 5, 6, 7, 8, 9, 10, 11, 12, 13, 14, 15]" by (simp add: upt_rec)
  finally show ?thesis using hexdigit_alnum_upto x unfolding list_all_iff by fastforce
qed

text \<open>Encoding neither adds nor removes a colon or a slash.\<close>

lemma encode_set:
  assumes "d \<in> {CHR ''/'', CHR '':''}"
  shows "percentEncode s = Some out \<Longrightarrow> d \<in> set out \<longleftrightarrow> d \<in> set s"
proof (induction s arbitrary: out)
  case (Cons c s)
  obtain t where t: "percentEncode s = Some t" using percentEncode_total by blast
  have d: "\<not> isalnum d" "d \<noteq> CHR ''%''" "\<not> shouldEscape d"
    using assms by (auto simp: cxx_defs shouldEscape_def)
  with Cons t show ?case
    by (auto split: if_splits option.splits dest: hexdigit_alnum)
qed simp

lemma encode_hd:
  assumes "percentEncode s = Some out" "s \<noteq> []"
  shows "out \<noteq> [] \<and> (hd out = CHR ''/'' \<longleftrightarrow> hd s = CHR ''/'')"
proof (cases s)
  case (Cons c s')
  obtain t where t: "percentEncode s' = Some t" using percentEncode_total by blast
  have "\<not> shouldEscape (CHR ''/'')" by (simp add: shouldEscape_def)
  with assms Cons t show ?thesis by (auto split: if_splits option.splits)
qed (use assms in simp)

interpretation percent: codec "\<lambda>_. True" percentEncode "\<lambda>s. Some (percentDecode s)"
  by unfold_locales (auto simp: percentEncode_total decode_encode)

subsection \<open>Printing is inverted by parsing\<close>

text \<open>The URIs that the constructor and the grammar allow.\<close>

definition wf_uri :: "URI \<Rightarrow> bool" where
  "wf_uri u \<longleftrightarrow> isValidScheme (scheme u) \<and> CHR ''/'' \<notin> set (authority u) \<and>
     (authority u = [] \<or> starts_with (body u) ''/'')"

lemma valid_scheme_no_colon: "isValidScheme s \<Longrightarrow> CHR '':'' \<notin> set s"
  by (auto simp: isValidScheme_def list_all_iff cxx_defs split: list.splits if_splits)

lemma starts_with_slash: "starts_with s ''/'' \<longleftrightarrow> s \<noteq> [] \<and> hd s = CHR ''/''"
  by (cases s) (auto simp: starts_with_prefix)

lemma starts_with_slashes: "starts_with s ''//'' \<longleftrightarrow> (\<exists>t. s = ''//'' @ t)"
  by (auto simp: starts_with_prefix prefix_def)

text \<open>Parsing the two shapes that printing produces.\<close>

lemma parse_with_authority:
  assumes "CHR '':'' \<notin> set s" "isValidScheme (percentDecode s)" "CHR ''/'' \<notin> set a" "starts_with b ''/''"
  shows "parse (s @ '':'' @ ''//'' @ a @ b) =
    Inr (Some \<lparr>scheme = percentDecode s, authority = percentDecode a, body = percentDecode b\<rparr>)"
proof -
  obtain b' where b: "b = CHR ''/'' # b'" using assms(4) by (cases b) (auto simp: starts_with_slash)
  have "find_idx (\<lambda>c. c = CHR '':'') (s @ '':'' @ ''//'' @ a @ b) = Some (length s)"
    using find_idx_append_left [of s "\<lambda>c. c = CHR '':''" "CHR '':''" "''//'' @ a @ b"] assms(1) by auto
  moreover have "find_idx (\<lambda>c. c = CHR ''/'') (a @ b) = Some (length a)"
    using find_idx_append_left [of a "\<lambda>c. c = CHR ''/''" "CHR ''/''" b'] assms(3) b by auto
  ultimately show ?thesis using assms(2) by (simp add: parse_def starts_with_slashes)
qed

lemma parse_without_authority:
  assumes "CHR '':'' \<notin> set s" "isValidScheme (percentDecode s)" "\<not> starts_with b ''/''"
  shows "parse (s @ '':'' @ b) =
    Inr (Some \<lparr>scheme = percentDecode s, authority = [], body = percentDecode b\<rparr>)"
proof -
  have "find_idx (\<lambda>c. c = CHR '':'') (s @ '':'' @ b) = Some (length s)"
    using find_idx_append_left [of s "\<lambda>c. c = CHR '':''" "CHR '':''" b] assms(1) by auto
  moreover have "\<not> starts_with b ''//''" using assms(3) by (auto simp: starts_with_prefix prefix_def)
  ultimately show ?thesis using assms(2) by (simp add: parse_def)
qed

lemma toString_total: "\<exists>s. toString u = Some s"
  using percentEncode_total [of "scheme u"] percentEncode_total [of "authority u"]
    percentEncode_total [of "body u"] by (auto simp: toString_def)

lemma parse_toString:
  assumes "wf_uri u" and "toString u = Some s"
  shows "parse s = Inr (Some u)"
proof -
  obtain es ea eb where e: "percentEncode (scheme u) = Some es" "percentEncode (authority u) = Some ea"
    "percentEncode (body u) = Some eb" using percentEncode_total by metis
  have dec: "percentDecode es = scheme u" "percentDecode ea = authority u" "percentDecode eb = body u"
    using e by (auto dest: decode_encode)
  have colon: "CHR '':'' \<notin> set es"
    using encode_set [OF _ e(1), of "CHR '':''"] assms(1) by (simp add: wf_uri_def valid_scheme_no_colon)
  have slash: "CHR ''/'' \<notin> set ea"
    using encode_set [OF _ e(2), of "CHR ''/''"] assms(1) by (simp add: wf_uri_def)
  have valid: "isValidScheme (percentDecode es)" using assms(1) dec by (simp add: wf_uri_def)
  have body: "starts_with eb ''/'' \<longleftrightarrow> starts_with (body u) ''/''"
    using encode_hd [OF e(3)] e(3) by (cases "body u = []") (auto simp: starts_with_slash)
  show ?thesis
  proof (cases "starts_with (body u) ''/''")
    case True
    then have "s = es @ '':'' @ ''//'' @ ea @ eb"
      using assms(2) e by (auto simp: toString_def starts_with_slash)
    then show ?thesis
      using parse_with_authority [OF colon valid slash, of eb] True body dec by simp
  next
    case False
    then have a: "authority u = []" using assms(1) by (simp add: wf_uri_def)
    then have "s = es @ '':'' @ eb" using assms(2) e False by (auto simp: toString_def)
    then show ?thesis
      using parse_without_authority [OF colon valid, of eb] False body dec a by simp
  qed
qed

interpretation uri: codec wf_uri toString "\<lambda>s. case parse s of Inl _ \<Rightarrow> None | Inr r \<Rightarrow> r"
  by unfold_locales (auto simp: toString_total parse_toString)

subsection \<open>File paths\<close>

definition network_root :: "string \<Rightarrow> bool" where
  "network_root p \<longleftrightarrow> 2 < length p \<and> p ! 0 = CHR ''/'' \<and> p ! 1 = CHR ''/'' \<and> p ! 2 \<noteq> CHR ''/''"

lemma native_simps [simp]:
  "is_style_posix native" "\<not> is_style_windows native" "is_separator c native \<longleftrightarrow> c = CHR ''/''"
  "separators native = ''/''"
  by (simp_all add: is_style_posix_def is_style_windows_def is_separator_def separators_def)

lemma root_name_local:
  assumes "starts_with p ''/''" "\<not> network_root p"
  shows "root_name p native = []"
proof -
  have p: "p \<noteq> []" "p ! 0 = CHR ''/''" using assms(1) by (auto simp: starts_with_slash hd_conv_nth)
  have "find_first_component p native = take 1 p"
    using p assms(2) by (auto simp: find_first_component_def network_root_def)
  with p show ?thesis by (simp add: root_name_def)
qed

lemma createFile_local:
  assumes "starts_with p ''/''" "\<not> network_root p"
  shows "createFile p = Inr \<lparr>scheme = ''file'', authority = [], body = p\<rparr>"
proof -
  have "\<not> starts_with p ''file://''" using assms(1) by (auto simp: starts_with_prefix prefix_def)
  then show ?thesis using root_name_local [OF assms]
    by (simp add: createFile_def isNetworkPath_def isWindowsPath_def convert_to_slash_def mkURI_def)
qed

lemma fromURI_uri_of:
  assumes "starts_with p ''/''" "\<not> network_root p"
  shows "\<exists>s. uri_of \<lparr>file_path = p\<rparr> = Inr s \<and> fromURI s = Inr \<lparr>file_path = p\<rparr>"
proof -
  let ?u = "\<lparr>scheme = ''file'', authority = [], body = p\<rparr>"
  obtain s where s: "toString ?u = Some s" using toString_total by blast
  have "wf_uri ?u" by (simp add: wf_uri_def isValidScheme_def isalpha_def isalnum_def isupper_def islower_def)
  with s have "parse s = Inr (Some ?u)" by (simp add: parse_toString)
  then show ?thesis using s createFile_local [OF assms] by (simp add: uri_of_def fromURI_def)
qed

text \<open>Parsing never fails otherwise than on an authority without a path.\<close>

lemma parse_out_of_range:
  assumes "isValidScheme (percentDecode s)" "CHR '':'' \<notin> set s" "CHR ''/'' \<notin> set host"
  shows "parse (s @ ''://'' @ host) = Inl Out_of_range"
proof -
  have "find_idx (\<lambda>c. c = CHR '':'') (s @ ''://'' @ host) = Some (length s)"
    using find_idx_append_left [of s "\<lambda>c. c = CHR '':''" "CHR '':''" "''//'' @ host"] assms(2) by auto
  moreover have "find_idx (\<lambda>c. c = CHR ''/'') host = None" using assms(3) by (auto simp: find_idx_None_iff)
  ultimately show ?thesis using assms(1) by (simp add: parse_def starts_with_slashes)
qed

subsection \<open>Properties\<close>

text \<open>
  Percent encoding always succeeds (the digit assertions hold), and decoding its result
  gives the original bytes back, for every byte string.
\<close>

theorem percent_roundtrip: "map_option percentDecode (percentEncode s) = Some s"
  using percent.roundtrip [of s] percentEncode_total [of s] by auto



text \<open>
  An absolute POSIX path that is not a network path is turned into a \<open>file:\<close> URI text, and
  reading that text gives the same path.
\<close>

theorem file_uri_roundtrip:
  "starts_with p ''/'' \<Longrightarrow> \<not> network_root p \<Longrightarrow>
   \<exists>s. uri_of \<lparr>file_path = p\<rparr> = Inr s \<and> fromURI s = Inr \<lparr>file_path = p\<rparr>"
  by (rule fromURI_uri_of)

theorem file_uri_roundtrip_witness:
  "\<exists>s. uri_of \<lparr>file_path = ''/a b.cpp''\<rparr> = Inr s \<and> fromURI s = Inr \<lparr>file_path = ''/a b.cpp''\<rparr>"
  by (rule file_uri_roundtrip) (simp_all add: starts_with_def network_root_def)

text \<open>
  Parsing a URI that has an authority and no path behind it, such as \<open>http://host\<close>, throws
  \<open>std::out_of_range\<close> instead of returning a result or \<open>std::nullopt\<close>.
\<close>

theorem parse_authority_without_path_throws:
  "isValidScheme s \<Longrightarrow> CHR ''%'' \<notin> set s \<Longrightarrow> CHR ''/'' \<notin> set host \<Longrightarrow>
   parse (s @ ''://'' @ host) = Inl Out_of_range"
  by (rule parse_out_of_range) (simp_all add: decode_plain valid_scheme_no_colon)

theorem parse_authority_without_path_throws_witness:
  "parse (''http'' @ ''://'' @ ''example.org'') = Inl Out_of_range"
  by (rule parse_authority_without_path_throws)
     (simp_all add: isValidScheme_def isalpha_def isalnum_def isupper_def islower_def)

end
