(* ===== verification/GraphBuilder.thy ===== *)
theory GraphBuilder
  imports Signature Uri
begin

section \<open>Building the semantic graph\<close>

text \<open>
  Models \<open>src/core/semantic/GraphBuilder.cpp\<close>. The environment holds what the builder asks for: the syntax tree of a file, the answers of the
  language server (which may depend on all notifications sent before), the contents of files. A function that makes a node takes the number of the node and gives the
  object; the state of the builder is the store of nodes, the vertices and edges of the graph, the two counters and the documents opened and closed. A
  vertex descriptor is an index into the list of vertices.
\<close>

subsection \<open>Kinds of children\<close>

definition getAccessSpecifierKind :: "string \<Rightarrow> AccessSpecifierKind" where
  "getAccessSpecifierKind s =
     (if contains_str s ''public'' then AS_Public
      else if contains_str s ''protected'' then AS_Protected
      else if contains_str s ''private'' then AS_Private
      else AS_None)"

definition IsClassSpecifier :: "string \<Rightarrow> bool" where
  "IsClassSpecifier t \<longleftrightarrow> t \<in> {''class_specifier'', ''struct_specifier'', ''union_specifier''}"

definition IsTextualNode :: "string \<Rightarrow> bool" where
  "IsTextualNode t \<longleftrightarrow> t \<in> {''preproc_ifdef'', ''preproc_def'', ''using_declaration'', ''type_definition'', ''alias_declaration'',
     ''enumerator'', ''static_assert_declaration'', ''friend_declaration''}"

definition has_extension :: "string set \<Rightarrow> string \<Rightarrow> bool" where
  "has_extension exts path =
     (case find_last_idx (\<lambda>c. c = CHR ''.'') path of None \<Rightarrow> False | Some pos \<Rightarrow> drop pos path \<in> exts)"

definition IsCppSource :: "string \<Rightarrow> bool" where
  "IsCppSource = has_extension {''.h'', ''.hpp'', ''.cc'', ''.cp'', ''.C'', ''.cxx'', ''.cpp'', ''.c++''}"

definition IsCppHeader :: "string \<Rightarrow> bool" where
  "IsCppHeader = has_extension {''.h'', ''.hpp''}"

definition IsCSource :: "string \<Rightarrow> bool" where
  "IsCSource = has_extension {''.h'', ''.c''}"

definition CompositeTypes :: "string set" where
  "CompositeTypes = {''namespace_definition''}"

definition TerminalTypes :: "string set" where
  "TerminalTypes = {''access_specifier'', ''preproc_ifdef'', ''preproc_def'', ''preproc_if'', ''preproc_function_def'', ''preproc_call'',
     ''preproc_include'', ''using_declaration'', ''comment'', ''type_definition'', ''alias_declaration'', ''enumerator'',
     ''declaration'', ''static_assert_declaration'', ''field_declaration'', ''template_declaration'', ''friend_declaration'',
     ''function_definition''}"

definition ComplexTypes :: "string set" where
  "ComplexTypes = {''class_specifier'', ''struct_specifier'', ''union_specifier'', ''enum_specifier'', ''linkage_specification''}"

subsection \<open>The environment\<close>

datatype client_event = Opened string | Closed string

record symbol_details =
  sd_name :: string
  sd_container :: "string option"
  sd_usr :: string

record build_env =
  be_hash :: hashers
  be_regexes :: regexes
  parse_source :: "string \<Rightarrow> cst option"
  file_content :: "string \<Rightarrow> string"
  file_exists :: "string \<Rightarrow> bool"
  relative_path :: "string \<Rightarrow> string"
  SymbolInfo :: "client_event list \<Rightarrow> string \<Rightarrow> int \<times> int \<Rightarrow> symbol_details list option"
  References :: "client_event list \<Rightarrow> string \<Rightarrow> int \<times> int \<Rightarrow> string option list option"
  SwitchSourceHeader :: "client_event list \<Rightarrow> string \<Rightarrow> string option"
  initLanguageServer :: bool
  ProjectPath :: string
  SourceDir :: string
  ConflictPaths :: "string set"
  SourceList :: "string list"

definition isConflicting :: "build_env \<Rightarrow> string \<Rightarrow> bool" where
  "isConflicting E path \<longleftrightarrow> path \<in> ConflictPaths E"

definition getSymbolDetails :: "build_env \<Rightarrow> client_event list \<Rightarrow> string \<Rightarrow> int \<times> int \<Rightarrow> symbol_details option" where
  "getSymbolDetails E ev path pos =
     (case SymbolInfo E ev path pos of
        Some (d # _) \<Rightarrow> Some d
      | _ \<Rightarrow> None)"

definition getReferences :: "build_env \<Rightarrow> client_event list \<Rightarrow> string \<Rightarrow> int \<times> int \<Rightarrow> string list" where
  "getReferences E ev path pos =
     (case References E ev path pos of
        None \<Rightarrow> []
      | Some locations \<Rightarrow> List.map_filter id locations)"

text \<open>The USR and the qualified name of the container, as every parse function takes them from the details.\<close>

definition usr_of :: "symbol_details option \<Rightarrow> string" where
  "usr_of d = (case d of None \<Rightarrow> [] | Some d \<Rightarrow> sd_usr d)"

definition container_of :: "symbol_details option \<Rightarrow> string" where
  "container_of d = (case d of None \<Rightarrow> [] | Some d \<Rightarrow> (case sd_container d of None \<Rightarrow> [] | Some c \<Rightarrow> c))"

text \<open>A point as the constructors of the nodes take it, and with the offsets of a name as \<open>int\<close>s.\<close>

definition node_point :: "ts_node \<Rightarrow> (nat \<times> nat) option" where
  "node_point n = Some (unat (row (startPoint n)), unat (column (startPoint n)))"

definition shifted :: "ts_node \<Rightarrow> int \<Rightarrow> int \<Rightarrow> int \<times> int" where
  "shifted n rows cols = (sint (row (startPoint n) + of_int rows), sint (column (startPoint n) + of_int cols))"

subsection \<open>Composite nodes\<close>

definition parseTranslationUnit ::
    "build_env \<Rightarrow> int \<Rightarrow> ts_node \<Rightarrow> bool \<Rightarrow> string \<Rightarrow> string \<Rightarrow> parse_error + (SemanticNode \<times> nat \<times> ts_node)" where
  "parseTranslationUnit E NodeId n conflicting Path FilePath =
     (case getTranslationUnitComment n of (cnt, comment) \<Rightarrow>
      let no_guard = \<lparr>tradition = False, guard_lines = [], guard_cnt = cnt, guard_root = n\<rparr>;
          isHeader = IsCppHeader FilePath
      in case (if isHeader then getHeaderGuard (pragma_once (be_regexes E)) n cnt n else Inr no_guard) of
           Inl e \<Rightarrow> Inl e
         | Inr g \<Rightarrow>
             (case getFrontDecls (guard_root g) (guard_cnt g) of
                Inl e \<Rightarrow> Inl e
              | Inr (decls, lastRow, cnt') \<Rightarrow>
                  Inr (SemanticNode_ctor NodeId conflicting TRANSLATION_UNIT Path (ProjectPath E) FilePath comment None Path False
                        (TranslationUnitNode
                          \<lparr>BeforeFirstChildEOL = 1, IsHeader = isHeader,
                           TraditionGuard = (guard_lines g \<noteq> [] \<and> tradition g),
                           HeaderGuard = (if guard_lines g = [] then [[], [], []] else guard_lines g),
                           FrontDecls = decls\<rparr>),
                       cnt', guard_root g)))"

definition parseNamespaceNode ::
    "build_env \<Rightarrow> client_event list \<Rightarrow> int \<Rightarrow> ts_node \<Rightarrow> bool \<Rightarrow> string \<Rightarrow> parse_error + SemanticNode" where
  "parseNamespaceNode E ev NodeId n conflicting Path =
     (case namespace_pattern (be_regexes E) (source_text n) of
        None \<Rightarrow> Inl AssertionFailed
      | Some m \<Rightarrow>
          let name = nm_name m;
              NOffset = (if name = [] then 0
                         else int (case search name (source_text n) of Some i \<Rightarrow> i | None \<Rightarrow> 0) + int (qualified_offset name));
              details = getSymbolDetails E ev Path (sint (row (startPoint n)), sint (column (startPoint n)) + NOffset)
          in case beforeFirstChildEOLs n of
               Inl e \<Rightarrow> Inl e
             | Inr eol \<Rightarrow>
                 Inr (SemanticNode_ctor NodeId conflicting NAMESPACE name (container_of details) (nm_signature m) (getNodeComment n)
                       (node_point n) (usr_of details) False
                       (NamespaceNode
                         \<lparr>BeforeFirstChildEOL = eol, IsInline = (nm_inline m \<noteq> []),
                          NSComment = (case nextSibling n of
                                         Some s \<Rightarrow> if is_comment s \<and> row (startPoint s) = row (endPoint n) then source_text s else []
                                       | None \<Rightarrow> []),
                          Anonymous = (name = [] \<or> list_all isspace name), ns_TUPath = relative_path E Path\<rparr>)))"

definition parseLinkageSpecNode :: "int \<Rightarrow> ts_node \<Rightarrow> bool \<Rightarrow> u64 \<Rightarrow> parse_error + SemanticNode" where
  "parseLinkageSpecNode NodeId n conflicting parentHash =
     (case beforeFirstChildEOLs n of
        Inl e \<Rightarrow> Inl e
      | Inr eol \<Rightarrow>
          Inr (SemanticNode_ctor NodeId conflicting LINKAGE_SPEC_LIST (''extern '' @ [DQUOTE] @ ''C'' @ [DQUOTE] @ '' {}'') []
                (''extern '' @ [DQUOTE] @ ''C'' @ [DQUOTE] @ '' '') (getNodeComment n) (node_point n) [] False
                (LinkageSpecNode \<lparr>BeforeFirstChildEOL = eol, ls_ParentSignatureHash = parentHash\<rparr>)))"

definition parseEnumNode ::
    "build_env \<Rightarrow> client_event list \<Rightarrow> int \<Rightarrow> ts_node \<Rightarrow> bool \<Rightarrow> string \<Rightarrow> parse_error + SemanticNode" where
  "parseEnumNode E ev NodeId n conflicting FilePath =
     (case enum_pattern (be_regexes E) (source_text n) of
        None \<Rightarrow> Inl AssertionFailed
      | Some m \<Rightarrow>
          let name = piece_text (em_name m);
              off = (if name = [] then 0 else offset (em_name m) + qualified_offset name);
              details = getSymbolDetails E ev FilePath (shifted n 0 (int off))
          in case beforeFirstChildEOLs n of
               Inl e \<Rightarrow> Inl e
             | Inr eol \<Rightarrow>
                 Inr (SemanticNode_ctor NodeId conflicting ENUM (drop_last_space name) (container_of details) (em_signature m)
                       (getNodeComment n) (node_point n) (usr_of details) False
                       (EnumNode \<lparr>BeforeFirstChildEOL = eol, EnumKey = em_key m, en_Attrs = em_attrs m, EnumBase = em_base m,
                                  en_Body = source_text n\<rparr>)))"

definition parseTypeDeclNode ::
    "build_env \<Rightarrow> client_event list \<Rightarrow> int \<Rightarrow> ts_node \<Rightarrow> ts_node \<Rightarrow> bool \<Rightarrow> string \<Rightarrow> parse_error + SemanticNode" where
  "parseTypeDeclNode E ev NodeId n real_node conflicting FilePath =
     (case extractClassInfo (be_regexes E) (source_text n) of
        Inl e \<Rightarrow> Inl e
      | Inr info \<Rightarrow>
          let kind = (if ci_ClassKey info = ''class'' then TD_Class else if ci_ClassKey info = ''struct'' then TD_Struct else TD_Union);
              pos = shifted n (ci_LineOffset info) (ci_ColOffset info);
              details = getSymbolDetails E ev FilePath pos
          in case beforeFirstChildEOLs real_node of
               Inl e \<Rightarrow> Inl e
             | Inr eol \<Rightarrow>
                 Inr (SemanticNode_ctor NodeId conflicting TYPE_NODE (ci_ClassName info) (container_of details) (ci_OriginalSignature info)
                       (getNodeComment n) (node_point n) (usr_of details) False
                       (TypeDeclNode \<lparr>BeforeFirstChildEOL = eol, TypeKind = kind, td_Attrs = ci_Attrs info, IsFinal = ci_IsFinal info,
                          BaseClause = ci_BaseClause info, td_TemplateParameterList = ci_TemplateParameterList info,
                          td_References = (if conflicting then getReferences E ev FilePath pos else [])\<rparr>)))"

subsection \<open>Terminal nodes\<close>

definition parseTextualNode :: "build_env \<Rightarrow> int \<Rightarrow> ts_node \<Rightarrow> bool \<Rightarrow> u64 \<Rightarrow> string \<Rightarrow> SemanticNode" where
  "parseTextualNode E NodeId n conflicting parentHash Path =
     (let comma = (node_type n = ''enumerator'' \<and>
                   (case nextSibling n of Some s \<Rightarrow> CHR '','' \<in> set (source_text s) | None \<Rightarrow> False));
          semicolon = (IsClassSpecifier (node_type n) \<or> node_type n = ''enum_specifier'');
          txt = source_text n @ (if comma then '','' else []) @ (if semicolon then '';'' else [])
      in TerminalNode_ctor NodeId conflicting TEXTUAL txt txt txt (getNodeComment n) (node_point n) [] txt parentHash
           (getFollowingEOLs n) False (\<lambda>t. TextualNode (Terminal.extend t \<lparr>tx_TUPath = relative_path E Path\<rparr>)))"

text \<open>
  The loop that skips pointers, references, brackets and the words \<open>const\<close>, \<open>volatile\<close> and \<open>operator\<close> in front of a name, as the rest of the text.
\<close>

function skip_declarator :: "string \<Rightarrow> string" where
  "skip_declarator s =
     (case s of
        [] \<Rightarrow> []
      | c # cs \<Rightarrow>
          if c = CHR ''*'' \<or> c = CHR ''&'' \<or> c = CHR ''('' \<or> isspace c then skip_declarator (dropWhile isspace cs)
          else if take 5 s = ''const'' then skip_declarator (dropWhile isspace (drop 5 s))
          else if take 8 s = ''volatile'' then skip_declarator (dropWhile isspace (drop 8 s))
          else if take 8 s = ''operator'' then skip_declarator (dropWhile isspace (drop 8 s))
          else s)"
  by pat_completeness auto
termination
proof (relation "measure length", goal_cases)
  case (2 s c cs)
  then show ?case using length_dropWhile_le [of isspace cs] by simp
next
  case (3 s c cs)
  then show ?case using length_dropWhile_le [of isspace "drop 5 s"] by simp
next
  case (4 s c cs)
  then show ?case using length_dropWhile_le [of isspace "drop 8 s"] by simp
next
  case (5 s c cs)
  then show ?case using length_dropWhile_le [of isspace "drop 8 s"] by simp
qed simp

declare skip_declarator.simps [simp del]

definition parseFieldDeclarationNode ::
    "build_env \<Rightarrow> client_event list \<Rightarrow> int \<Rightarrow> ts_node \<Rightarrow> bool \<Rightarrow> u64 \<Rightarrow> string \<Rightarrow> bool \<Rightarrow> SemanticNode" where
  "parseFieldDeclarationNode E ev NodeId n conflicting parentHash FilePath isFieldDecl =
     (let declaratorOpt = getChildByFieldName n ''declarator'';
          declarator = (case declaratorOpt of None \<Rightarrow> [] | Some d \<Rightarrow> skip_declarator (source_text d));
          pos = (case declaratorOpt of
                   None \<Rightarrow> shifted n 0 0
                 | Some d \<Rightarrow> shifted d 0 (int (length (source_text d) - length declarator)));
          references = (if declaratorOpt \<noteq> None \<and> conflicting then getReferences E ev FilePath pos else []);
          details = getSymbolDetails E ev FilePath pos;
          name = (case details of None \<Rightarrow> [] | Some d \<Rightarrow> sd_name d)
      in TerminalNode_ctor NodeId conflicting FIELD_DECLARATION name (container_of details) (source_text n) (getNodeComment n)
           (node_point n) (usr_of details) (source_text n) parentHash (getFollowingEOLs n) False
           (\<lambda>t. FieldDeclarationNode
              (Terminal.extend t \<lparr>Declarator = declarator, IsFieldDecl = True, fld_References = references\<rparr>)))"

text \<open>
  The types of the parameters in a USR: the pieces between dollar signs, their leading letters and \<open>@\<close> signs, without a
  marker in front and with double colons for those inside.
\<close>

definition scope_marks :: "string list" where
  "scope_marks = [''@N@'', ''@S@'', ''@E@'']"

fun replace_marks :: "string \<Rightarrow> string" where
  "replace_marks (a # b # c # s) =
     (if [a, b, c] \<in> set scope_marks then ''::'' @ replace_marks s else a # replace_marks (b # c # s))"
| "replace_marks s = s"

definition param_type :: "string \<Rightarrow> string option" where
  "param_type info =
     (let t = takeWhile (\<lambda>c. c = CHR ''@'' \<or> isalpha c) info
      in if t = [] then None
         else Some (replace_marks (if take 3 t \<in> {''@N@'', ''@S@'', ''@U@''} then drop 3 t else t)))"

definition ParameterTypes_of :: "string \<Rightarrow> string list" where
  "ParameterTypes_of usr =
     (case find_idx (\<lambda>c. c = CHR ''$'') usr of
        None \<Rightarrow> []
      | Some pos \<Rightarrow>
          if contains_str usr ''@S'' \<or> contains_str usr ''@U'' \<or> contains_str usr ''@E''
          then List.map_filter param_type (string_split (drop pos usr) ''$'' False)
          else [])"

definition body_text :: "ts_node \<Rightarrow> string" where
  "body_text n = (case getChildByFieldName n ''body'' of Some b \<Rightarrow> source_text b | None \<Rightarrow> [])"

definition QualifiedFuncName :: "string \<Rightarrow> string" where
  "QualifiedFuncName declarator = dropWhile (\<lambda>c. c = CHR ''&'' \<or> c = CHR ''*'' \<or> isspace c) (up_to (CHR ''('') declarator)"

definition parseFuncDefNode ::
    "build_env \<Rightarrow> client_event list \<Rightarrow> int \<Rightarrow> ts_node \<Rightarrow> ts_node \<Rightarrow> bool \<Rightarrow> u64 \<Rightarrow> string \<Rightarrow> parse_error + SemanticNode" where
  "parseFuncDefNode E ev NodeId n real_node conflicting parentHash FilePath =
     (case getChildByFieldName real_node ''declarator'' of
        None \<Rightarrow> Inl AssertionFailed
      | Some d \<Rightarrow>
          (case extractFuncDefInfo (be_regexes E) (source_text n) (QualifiedFuncName (source_text d)) of
             Inl e \<Rightarrow> Inl e
           | Inr info \<Rightarrow>
               let pos = shifted n (fi_LineOffset info) (fi_ColOffset info);
                   details = getSymbolDetails E ev FilePath pos
               in Inr (TerminalNode_ctor NodeId conflicting FUNC_DEF (fi_FuncName info) (container_of details) (fi_OriginalSignature info)
                    (getNodeComment n) (node_point n) (usr_of details) (body_text real_node) parentHash (getFollowingEOLs n) False
                    (\<lambda>t. FuncDefNode (Terminal.extend t
                       \<lparr>fd_TemplateParameterList = fi_TemplateParameterList info, fd_Attrs = fi_Attrs info,
                        fd_BeforeFuncName = fi_BeforeFuncName info, fd_ParameterList = fi_ParameterList info,
                        fd_AfterParameterList = fi_AfterParameterList info,
                        fd_References = (if conflicting then getReferences E ev FilePath pos else []),
                        fd_ParameterTypes = ParameterTypes_of (usr_of details)\<rparr>)))))"

definition parseFuncOperatorCastNode ::
    "build_env \<Rightarrow> client_event list \<Rightarrow> int \<Rightarrow> ts_node \<Rightarrow> bool \<Rightarrow> u64 \<Rightarrow> string \<Rightarrow> parse_error + SemanticNode" where
  "parseFuncOperatorCastNode E ev NodeId n conflicting parentHash FilePath =
     (case extractFuncOperatorCastInfo (be_regexes E) (source_text n) of
        Inl e \<Rightarrow> Inl e
      | Inr info \<Rightarrow>
          let pos = shifted n (fi_LineOffset info) (fi_ColOffset info);
              details = getSymbolDetails E ev FilePath pos
          in Inr (TerminalNode_ctor NodeId conflicting FUNC_OPERATOR_CAST (fi_FuncName info) (container_of details)
               (fi_OriginalSignature info) (getNodeComment n) (node_point n) (usr_of details) (body_text n) parentHash
               (getFollowingEOLs n) False
               (\<lambda>t. FuncOperatorCastNode (Terminal.extend t
                  \<lparr>oc_TemplateParameterList = fi_TemplateParameterList info, oc_Attrs = fi_Attrs info, oc_BeforeFuncName = [],
                   oc_ParameterList = fi_ParameterList info, oc_AfterParameterList = fi_AfterParameterList info,
                   oc_References = (if conflicting then getReferences E ev FilePath pos else [])\<rparr>))))"

definition parseFuncSpecialMemberNode ::
    "build_env \<Rightarrow> client_event list \<Rightarrow> int \<Rightarrow> ts_node \<Rightarrow> bool \<Rightarrow> u64 \<Rightarrow> string \<Rightarrow> parse_error + SemanticNode" where
  "parseFuncSpecialMemberNode E ev NodeId n conflicting parentHash FilePath =
     (case extractFuncSpecialMemberInfo (be_regexes E) (source_text n) of
        Inl e \<Rightarrow> Inl e
      | Inr info \<Rightarrow>
          let pos = shifted n (si_LineOffset info) (si_ColOffset info);
              details = getSymbolDetails E ev FilePath pos
          in Inr (TerminalNode_ctor NodeId conflicting FUNC_SPECIAL_MEMBER (si_FuncName info) (container_of details)
               (si_OriginalSignature info) (getNodeComment n) (node_point n) (usr_of details) (body_text n) parentHash
               (getFollowingEOLs n) False
               (\<lambda>t. FuncSpecialMemberNode (Terminal.extend t
                  \<lparr>DefType = si_DefType info, sm_TemplateParameterList = si_TemplateParameterList info, sm_Attrs = si_Attrs info,
                   sm_BeforeFuncName = si_BeforeFuncName info, sm_ParameterList = si_ParameterList info, InitList = si_InitList info,
                   sm_ParameterTypes = ParameterTypes_of (usr_of details),
                   sm_References = (if conflicting then getReferences E ev FilePath pos else [])\<rparr>))))"

text \<open>An orphan comment; the loop over the children makes it itself.\<close>

definition OrphanComment_node :: "int \<Rightarrow> ts_node \<Rightarrow> bool \<Rightarrow> u64 \<Rightarrow> comment_info \<Rightarrow> SemanticNode" where
  "OrphanComment_node NodeId n conflicting parentHash k =
     TerminalNode_ctor NodeId conflicting ORPHAN_COMMENT (comment_text k) (comment_text k) (comment_text k) [] (node_point n) []
       (comment_text k) parentHash (if realOrphan k then 1 else 0) False OrphanCommentNode"

subsection \<open>The graph\<close>

record semantic_edge =
  se_source :: nat
  se_target :: nat
  se_id :: int
  se_kind :: EdgeKind
  se_weight :: int
  se_synthetic :: bool

record builder =
  heap :: store
  next_ptr :: ptr
  vertices :: "ptr list"
  graph_edges :: "semantic_edge list"
  NodeCount :: int
  EdgeCount :: int
  events :: "client_event list"

definition alloc :: "SemanticNode \<Rightarrow> builder \<Rightarrow> ptr \<times> builder" where
  "alloc n st = (next_ptr st, st\<lparr>heap := (heap st)(next_ptr st := n), next_ptr := next_ptr st + 1\<rparr>)"

definition addVertex :: "ptr \<Rightarrow> builder \<Rightarrow> nat \<times> builder" where
  "addVertex p st = (length (vertices st), st\<lparr>vertices := vertices st @ [p]\<rparr>)"

definition addEdge :: "nat \<Rightarrow> nat \<Rightarrow> EdgeKind \<Rightarrow> bool \<Rightarrow> builder \<Rightarrow> builder" where
  "addEdge s t k synthetic st =
     st\<lparr>graph_edges := graph_edges st @
          [\<lparr>se_source = s, se_target = t, se_id = EdgeCount st, se_kind = k, se_weight = 1, se_synthetic = synthetic\<rparr>],
        EdgeCount := EdgeCount st + 1\<rparr>"

definition insertToGraphAndParent :: "ptr \<Rightarrow> nat \<Rightarrow> ptr \<Rightarrow> builder \<Rightarrow> nat \<times> builder" where
  "insertToGraphAndParent parent parentDesc cur st =
     (let (curDesc, st1) = addVertex cur st;
          st2 = addEdge parentDesc curDesc CONTAIN False st1;
          h1 = (heap st2)(cur := (heap st2 cur)\<lparr>Parent := Some parent\<rparr>);
          h2 = h1(parent := (h1 parent)\<lparr>Children := Children (h1 parent) @ [cur]\<rparr>)
      in (curDesc, st2\<lparr>heap := h2\<rparr>))"

text \<open>A node that was made with the next number goes into the graph and below its parent.\<close>

definition insert_node :: "ptr \<Rightarrow> nat \<Rightarrow> SemanticNode \<Rightarrow> builder \<Rightarrow> ptr \<times> nat \<times> builder" where
  "insert_node parent parentDesc n st =
     (let (p, st1) = alloc n (st\<lparr>NodeCount := NodeCount st + 1\<rparr>);
          (d, st2) = insertToGraphAndParent parent parentDesc p st1
      in (p, d, st2))"

subsection \<open>The loop over the children\<close>

text \<open>
  A step for one child inserts at most one node. It ends with the number of further children to skip, and with a body to descend into, below
  the node that was inserted; for a class the access specifiers of the members are set after that.
\<close>

datatype child_step =
    Next (to_skip: nat)
  | Descend (node_ptr: ptr) (node_desc: nat) (node_body: ts_node) (is_class: bool) (to_skip: nat)

definition leaf :: "ptr \<Rightarrow> nat \<Rightarrow> nat \<Rightarrow> parse_error + SemanticNode \<Rightarrow> builder \<Rightarrow> parse_error + (builder \<times> child_step)" where
  "leaf parent parentDesc skip made st =
     (case made of
        Inl e \<Rightarrow> Inl e
      | Inr n \<Rightarrow> (case insert_node parent parentDesc n st of (p, d, st') \<Rightarrow> Inr (st', Next skip)))"

definition inner ::
    "ptr \<Rightarrow> nat \<Rightarrow> ts_node \<Rightarrow> bool \<Rightarrow> (SemanticNode \<Rightarrow> nat) \<Rightarrow> parse_error + SemanticNode \<Rightarrow> builder \<Rightarrow>
     parse_error + (builder \<times> child_step)" where
  "inner parent parentDesc c isClass skip made st =
     (case made of
        Inl e \<Rightarrow> Inl e
      | Inr n \<Rightarrow>
          (case insert_node parent parentDesc n st of (p, d, st') \<Rightarrow>
             (case getChildByFieldName c ''body'' of
                None \<Rightarrow> Inl AssertionFailed
              | Some b \<Rightarrow> Inr (st', Descend p d b isClass (skip n)))))"

text \<open>A namespace skips the comment behind its closing bracket.\<close>

definition skip_ns_comment :: "SemanticNode \<Rightarrow> nat" where
  "skip_ns_comment n = (case as_Namespace n of Some x \<Rightarrow> if NSComment x \<noteq> [] then 1 else 0 | None \<Rightarrow> 0)"

definition parse_comment ::
    "ptr \<Rightarrow> nat \<Rightarrow> bool \<Rightarrow> u64 \<Rightarrow> ts_node \<Rightarrow> builder \<Rightarrow> parse_error + (builder \<times> child_step)" where
  "parse_comment SRoot V conflicting parentHash c st =
     (case getComment c 0 True of
        Inl e \<Rightarrow> Inl e
      | Inr k \<Rightarrow>
          if orphan k
          then leaf SRoot V (commentCnt k - 1) (Inr (OrphanComment_node (NodeCount st) c conflicting parentHash k)) st
          else Inr (st, Next 0))"

definition parse_function ::
    "build_env \<Rightarrow> ptr \<Rightarrow> nat \<Rightarrow> bool \<Rightarrow> u64 \<Rightarrow> string \<Rightarrow> ts_node \<Rightarrow> builder \<Rightarrow> parse_error + (builder \<times> child_step)" where
  "parse_function E SRoot V conflicting parentHash FilePath c st =
     (case getChildByFieldName c ''type'' of
        Some t \<Rightarrow>
          if source_text t = ''namespace''
          then inner SRoot V c False skip_ns_comment (parseNamespaceNode E (events st) (NodeCount st) c conflicting FilePath) st
          else leaf SRoot V 0 (parseFuncDefNode E (events st) (NodeCount st) c c conflicting parentHash FilePath) st
      | None \<Rightarrow>
          if (case getChildByFieldName c ''declarator'' of Some d \<Rightarrow> node_type d = ''operator_cast'' | None \<Rightarrow> False)
          then leaf SRoot V 0 (parseFuncOperatorCastNode E (events st) (NodeCount st) c conflicting parentHash FilePath) st
          else leaf SRoot V 0 (parseFuncSpecialMemberNode E (events st) (NodeCount st) c conflicting parentHash FilePath) st)"

definition parse_template ::
    "build_env \<Rightarrow> ptr \<Rightarrow> nat \<Rightarrow> bool \<Rightarrow> u64 \<Rightarrow> string \<Rightarrow> ts_node \<Rightarrow> builder \<Rightarrow> parse_error + (builder \<times> child_step)" where
  "parse_template E SRoot V conflicting parentHash FilePath c st =
     (case List.find (\<lambda>k. IsClassSpecifier (node_type k) \<or> node_type k = ''function_definition'') (children_of c) of
        None \<Rightarrow> Inl AssertionFailed
      | Some k \<Rightarrow>
          if getChildByFieldName k ''body'' = None
          then leaf SRoot V 0 (Inr (parseTextualNode E (NodeCount st) c conflicting parentHash FilePath)) st
          else if IsClassSpecifier (node_type k)
          then inner SRoot V k True (\<lambda>_. 0) (parseTypeDeclNode E (events st) (NodeCount st) c k conflicting FilePath) st
          else leaf SRoot V 0 (parseFuncDefNode E (events st) (NodeCount st) c k conflicting parentHash FilePath) st)"

definition parse_access :: "ptr \<Rightarrow> ts_node \<Rightarrow> builder \<Rightarrow> parse_error + (builder \<times> child_step)" where
  "parse_access SRoot c st =
     (if isa_TypeDecl (heap st SRoot)
      then case alloc (AccessSpecifierNode_ctor (getAccessSpecifierKind (source_text c)) ACCESS_SPECIFIER True) st of
             (p, st') \<Rightarrow>
               let r = heap st' SRoot
               in Inr (st'\<lparr>heap := (heap st')(SRoot := r\<lparr>Children := Children r @ [p]\<rparr>)\<rparr>, Next 0)
      else Inl AssertionFailed)"

definition parse_complex ::
    "build_env \<Rightarrow> ptr \<Rightarrow> nat \<Rightarrow> bool \<Rightarrow> u64 \<Rightarrow> string \<Rightarrow> ts_node \<Rightarrow> builder \<Rightarrow> parse_error + (builder \<times> child_step)" where
  "parse_complex E SRoot V conflicting parentHash FilePath c st =
     (let textual = leaf SRoot V 0 (Inr (parseTextualNode E (NodeCount st) c conflicting parentHash FilePath)) st
      in case getChildByFieldName c ''body'' of
           None \<Rightarrow> if node_type c = ''linkage_specification'' then Inl AssertionFailed else textual
         | Some b \<Rightarrow>
             if IsClassSpecifier (node_type c)
             then inner SRoot V c True (\<lambda>_. 0) (parseTypeDeclNode E (events st) (NodeCount st) c c conflicting FilePath) st
             else if node_type c = ''linkage_specification''
             then (if node_type b = ''declaration'' \<or> node_type b = ''function_definition'' then textual
                   else inner SRoot V c False (\<lambda>_. 0) (parseLinkageSpecNode (NodeCount st) c conflicting parentHash) st)
             else inner SRoot V c False (\<lambda>_. 0) (parseEnumNode E (events st) (NodeCount st) c conflicting FilePath) st)"

definition parse_child ::
    "build_env \<Rightarrow> ptr \<Rightarrow> nat \<Rightarrow> bool \<Rightarrow> string \<Rightarrow> ts_node \<Rightarrow> builder \<Rightarrow> parse_error + (builder \<times> child_step)" where
  "parse_child E SRoot V conflicting FilePath c st =
     (let t = node_type c; h = hashSignature (be_hash E) (heap st SRoot)
      in if t \<in> CompositeTypes
         then inner SRoot V c False skip_ns_comment (parseNamespaceNode E (events st) (NodeCount st) c conflicting FilePath) st
         else if t \<in> TerminalTypes
         then (if IsTextualNode t
               then leaf SRoot V 0 (Inr (parseTextualNode E (NodeCount st) c conflicting h FilePath)) st
               else if t = ''comment'' then parse_comment SRoot V conflicting h c st
               else if t = ''field_declaration'' \<or> t = ''declaration''
               then leaf SRoot V 0 (Inr (parseFieldDeclarationNode E (events st) (NodeCount st) c conflicting h FilePath
                                     (t = ''field_declaration''))) st
               else if t = ''function_definition'' then parse_function E SRoot V conflicting h FilePath c st
               else if t = ''template_declaration'' then parse_template E SRoot V conflicting h FilePath c st
               else if t = ''access_specifier'' then parse_access SRoot c st
               else Inr (st, Next 0))
         else if t \<in> ComplexTypes then parse_complex E SRoot V conflicting h FilePath c st
         else Inr (st, Next 0))"

subsection \<open>The recursion\<close>

text \<open>A body is a smaller tree than the child it belongs to.\<close>

lemma child_at_size: "child_at n i = Some c \<Longrightarrow> size (here c) < size (here n)"
proof -
  assume a: "child_at n i = Some c"
  obtain t nm b e s p ks where n: "here n = CST t nm b e s p ks" by (cases "here n") auto
  from a n have "here c \<in> snd ` set ks"
    by (auto simp: child_at_def Let_def split: if_splits)
  then obtain f where "(f, here c) \<in> set ks" by auto
  then have "size (here c) < size_list (size_prod (\<lambda>_. 0) size) ks"
    by (induction ks) auto
  then show ?thesis
    using n by (auto intro: le_less_trans size_list_pointwise)
qed

lemma getChildByFieldName_size: "getChildByFieldName n name = Some c \<Longrightarrow> size (here c) < size (here n)"
  by (auto simp: getChildByFieldName_def bind_eq_Some_conv dest: child_at_size)

lemma children_of_size: "c \<in> set (children_of n) \<Longrightarrow> size (here c) < size (here n)"
  by (metis in_set_conv_nth child_at_children child_at_size length_children_of)

lemma inner_cases:
  assumes "inner parent parentDesc c isClass skip made st = Inr (st', r)"
  obtains n p d b where "made = Inr n" "insert_node parent parentDesc n st = (p, d, st')"
    "getChildByFieldName c ''body'' = Some b" "r = Descend p d b isClass (skip n)"
  using assms by (auto simp: inner_def split: sum.splits prod.splits option.splits)

lemma leaf_cases:
  assumes "leaf parent parentDesc k made st = Inr (st', r)"
  obtains n p d where "made = Inr n" "insert_node parent parentDesc n st = (p, d, st')" "r = Next k"
  using assms by (auto simp: leaf_def split: sum.splits prod.splits)

text \<open>
  The ways a step can end: a node is inserted, with or without a body to descend into; an access specifier is added to the children of a class; or
  nothing happens.
\<close>

lemmas step_defs =
  parse_child_def parse_complex_def parse_template_def parse_function_def parse_comment_def

definition step_inserts :: "ptr \<Rightarrow> nat \<Rightarrow> ts_node \<Rightarrow> builder \<Rightarrow> builder \<Rightarrow> child_step \<Rightarrow> SemanticNode \<Rightarrow> bool" where
  "step_inserts SRoot V c st st' r n \<longleftrightarrow>
     (\<exists>p d. insert_node SRoot V n st = (p, d, st') \<and>
        (\<forall>p' d' b i k. r = Descend p' d' b i k \<longrightarrow> p' = p \<and> d' = d \<and> size (here b) < size (here c)))"

lemma step_leaf: "leaf SRoot V k made st = Inr (st', r) \<Longrightarrow> \<exists>n. made = Inr n \<and> step_inserts SRoot V c st st' r n"
  by (auto simp: step_inserts_def elim!: leaf_cases)

lemma step_inner:
  "inner SRoot V m i skip made st = Inr (st', r) \<Longrightarrow> m = c \<or> m \<in> set (children_of c) \<Longrightarrow>
   \<exists>n. made = Inr n \<and> step_inserts SRoot V c st st' r n"
  by (auto simp: step_inserts_def elim!: inner_cases dest!: getChildByFieldName_size children_of_size)

text \<open>A node as the parse functions make it: of the kind of its class, with the number it was given, not yet linked.\<close>

definition made_node :: "int \<Rightarrow> bool \<Rightarrow> SemanticNode \<Rightarrow> bool" where
  "made_node i conflicting n \<longleftrightarrow>
     wf_node n \<and> Kind n \<noteq> ACCESS_SPECIFIER \<and> ID n = i \<and> NeedToMerge n = conflicting \<and> \<not> IsSynthetic n \<and>
     Parent n = None \<and> Children n = []"

lemma made_SemanticNode [simp]:
  "made_node i c (SemanticNode_ctor i' c' k a b e f g h s d) \<longleftrightarrow> i' = i \<and> c' = c \<and> \<not> s \<and> k = class_kind d \<and> k \<noteq> ACCESS_SPECIFIER"
  by (auto simp: made_node_def SemanticNode_ctor_def wf_node_def)

lemma made_TerminalNode [simp]:
  "made_node i c (TerminalNode_ctor i' c' k a b e f g h bd ph eol s mk) \<longleftrightarrow>
     i' = i \<and> c' = c \<and> \<not> s \<and> k = class_kind (mk \<lparr>Body = bd, ParentSignatureHash = ph, SigUnchanged = False\<rparr>) \<and>
     k \<noteq> ACCESS_SPECIFIER"
  by (auto simp: made_node_def TerminalNode_ctor_def SemanticNode_ctor_def wf_node_def)

lemma parse_nodes_made:
  "parseNamespaceNode E ev i n c path = Inr x \<Longrightarrow> made_node i c x"
  "parseLinkageSpecNode i n c h = Inr x \<Longrightarrow> made_node i c x"
  "parseEnumNode E ev i n c path = Inr x \<Longrightarrow> made_node i c x"
  "parseTypeDeclNode E ev i n m c path = Inr x \<Longrightarrow> made_node i c x"
  "parseFuncDefNode E ev i n m c h path = Inr x \<Longrightarrow> made_node i c x"
  "parseFuncOperatorCastNode E ev i n c h path = Inr x \<Longrightarrow> made_node i c x"
  "parseFuncSpecialMemberNode E ev i n c h path = Inr x \<Longrightarrow> made_node i c x"
  by (auto simp: parseNamespaceNode_def parseLinkageSpecNode_def parseEnumNode_def parseTypeDeclNode_def parseFuncDefNode_def
      parseFuncOperatorCastNode_def parseFuncSpecialMemberNode_def Let_def split: option.splits sum.splits)

lemma plain_nodes_made:
  "made_node i c (parseTextualNode E i n c h path)"
  "made_node i c (parseFieldDeclarationNode E ev i n c h path f)"
  "made_node i c (OrphanComment_node i n c h k)"
  by (simp_all add: parseTextualNode_def parseFieldDeclarationNode_def OrphanComment_node_def Let_def)

lemma parse_child_cases:
  assumes "parse_child E SRoot V C path c st = Inr (st', r)"
  shows "(\<exists>n. made_node (NodeCount st) C n \<and> step_inserts SRoot V c st st' r n) \<or>
    r = Next 0 \<and> (parse_access SRoot c st = Inr (st', r) \<or> st' = st)"
proof -
  let ?goal = "\<exists>n. made_node (NodeCount st) C n \<and> step_inserts SRoot V c st st' r n"
  have leafI: ?goal if "leaf SRoot V k made st = Inr (st', r)" "\<And>n. made = Inr n \<Longrightarrow> made_node (NodeCount st) C n" for k made
    using step_leaf [OF that(1), of c] that(2) by blast
  have innerI: ?goal if "inner SRoot V m i skip made st = Inr (st', r)" "\<And>n. made = Inr n \<Longrightarrow> made_node (NodeCount st) C n"
    "m = c \<or> m \<in> set (children_of c)" for m i skip made
    using step_inner [OF that(1,3)] that(2) by blast
  have comment: "?goal \<or> r = Next 0 \<and> st' = st" if "parse_comment SRoot V C h c st = Inr (st', r)" for h
    using that by (auto simp: parse_comment_def plain_nodes_made intro: leafI split: sum.splits if_splits)
  have func: ?goal if "parse_function E SRoot V C h path c st = Inr (st', r)" for h
    using that unfolding parse_function_def
    by (auto intro: leafI innerI dest: parse_nodes_made split: option.splits if_splits)
  have template: ?goal if "parse_template E SRoot V C h path c st = Inr (st', r)" for h
    using that unfolding parse_template_def
    by (auto intro: leafI innerI dest: parse_nodes_made simp: plain_nodes_made find_Some_iff split: option.splits if_splits)
  have complex: ?goal if "parse_complex E SRoot V C h path c st = Inr (st', r)" for h
    using that unfolding parse_complex_def Let_def
    by (auto intro: leafI innerI dest: parse_nodes_made simp: plain_nodes_made split: option.splits if_splits)
  have access: "r = Next 0" if "parse_access SRoot c st = Inr (st', r)"
    using that by (auto simp: parse_access_def Let_def split: if_splits prod.splits)
  show ?thesis
    using assms access comment func template complex unfolding parse_child_def Let_def
    by (auto intro: leafI innerI dest: parse_nodes_made simp: plain_nodes_made split: if_splits)
qed

lemma parse_child_smaller:
  assumes "parse_child E SRoot V C path c st = Inr (st', Descend p d b i k)"
  shows "size (here b) < size (here c)"
  using parse_child_cases [OF assms] by (auto simp: step_inserts_def)

function parseCompositeNode ::
    "build_env \<Rightarrow> ptr \<Rightarrow> nat \<Rightarrow> bool \<Rightarrow> ts_node \<Rightarrow> string \<Rightarrow> nat \<Rightarrow> builder \<Rightarrow> parse_error + builder" where
  "parseCompositeNode E SRoot V conflicting Root FilePath idx st =
     (case child_at Root idx of
        None \<Rightarrow> Inr st
      | Some c \<Rightarrow>
          (case parse_child E SRoot V conflicting FilePath c st of
             Inl e \<Rightarrow> Inl e
           | Inr (st1, Next k) \<Rightarrow> parseCompositeNode E SRoot V conflicting Root FilePath (Suc (idx + k)) st1
           | Inr (st1, Descend p d b isClass k) \<Rightarrow>
               (case parseCompositeNode E p d conflicting b FilePath 0 st1 of
                  Inl e \<Rightarrow> Inl e
                | Inr st2 \<Rightarrow>
                    parseCompositeNode E SRoot V conflicting Root FilePath (Suc (idx + k))
                      (if isClass then st2\<lparr>heap := setMemberAccessSpecifier (heap st2) p\<rparr> else st2))))"
  by pat_completeness auto

termination
proof (relation "measures [\<lambda>(E, SRoot, V, C, Root, path, idx, st). size (here Root),
                           \<lambda>(E, SRoot, V, C, Root, path, idx, st). childrenCount Root - idx]", goal_cases)
  case 1
  show ?case by simp
next
  case 2
  then show ?case by (auto simp: child_at_children split: if_splits)
next
  case 3
  then show ?case by (auto dest!: parse_child_smaller child_at_size)
next
  case 4
  then show ?case by (auto simp: child_at_children split: if_splits)
qed

declare parseCompositeNode.simps [simp del]

subsection \<open>Files\<close>

datatype build_error = Parse parse_error | Uri uri_error

definition opened :: "string \<Rightarrow> builder \<Rightarrow> builder" where
  "opened f st = st\<lparr>events := events st @ [Opened f]\<rparr>"

definition closed :: "string \<Rightarrow> builder \<Rightarrow> builder" where
  "closed f st = st\<lparr>events := events st @ [Closed f]\<rparr>"

text \<open>The part of a file that is about its tree.\<close>

definition processTree :: "build_env \<Rightarrow> string \<Rightarrow> string \<Rightarrow> bool \<Rightarrow> ts_node \<Rightarrow> builder \<Rightarrow> parse_error + builder" where
  "processTree E Path FilePath conflicting n st =
     (if node_type n \<noteq> ''translation_unit'' then Inl AssertionFailed
      else case parseTranslationUnit E (NodeCount st) n conflicting Path FilePath of
             Inl e \<Rightarrow> Inl e
           | Inr (tu, frontCnt, TURoot) \<Rightarrow>
               (let (p, st1) = alloc tu (st\<lparr>NodeCount := NodeCount st + 1\<rparr>); (d, st2) = addVertex p st1
                in parseCompositeNode E p d conflicting TURoot FilePath frontCnt st2))"

definition processCppTranslationUnit :: "build_env \<Rightarrow> string \<Rightarrow> string \<Rightarrow> bool \<Rightarrow> builder \<Rightarrow> build_error + builder" where
  "processCppTranslationUnit E Path FilePath conflicting st =
     (let src = file_content E FilePath;
          st1 = opened FilePath st;
          alt = SwitchSourceHeader E (events st1) FilePath
      in case (case alt of None \<Rightarrow> Inr st1
               | Some s \<Rightarrow> map_sum Uri (\<lambda>altPath. opened s st1) (path_of \<lparr>file_path = s\<rparr>)) of
           Inl e \<Rightarrow> Inl e
         | Inr st2 \<Rightarrow>
             (case parse_source E src of
                None \<Rightarrow> Inr st2
              | Some t \<Rightarrow>
                  (case processTree E Path FilePath conflicting (root_node src t) st2 of
                     Inl e \<Rightarrow> Inl (Parse e)
                   | Inr st3 \<Rightarrow>
                       (let st4 = closed FilePath st3 in Inr (case alt of None \<Rightarrow> st4 | Some s \<Rightarrow> closed s st4)))))"

definition processTranslationUnit :: "build_env \<Rightarrow> string \<Rightarrow> builder \<Rightarrow> build_error + builder" where
  "processTranslationUnit E Path st =
     (let FilePath = path_join (SourceDir E) Path
      in if \<not> file_exists E FilePath then Inr st
         else if IsCppSource Path \<or> IsCSource Path
         then processCppTranslationUnit E Path FilePath (isConflicting E Path) st
         else Inr st)"

fun process_all :: "build_env \<Rightarrow> string list \<Rightarrow> builder \<Rightarrow> build_error + builder" where
  "process_all E [] st = Inr st"
| "process_all E (p # ps) st =
     (case processTranslationUnit E p st of Inl e \<Rightarrow> Inl e | Inr st' \<Rightarrow> process_all E ps st')"

text \<open>\<open>None\<close> when the language server does not start (the code returns \<open>false\<close>).\<close>

definition build :: "build_env \<Rightarrow> builder \<Rightarrow> build_error + builder option" where
  "build E st =
     (if \<not> initLanguageServer E then Inr None
      else map_sum id Some (process_all E (SourceList E) st))"

subsection \<open>Edges between the files, and between definitions and their uses\<close>

text \<open>
  Three functions of the class that no code calls. Each looks up names among the vertices there were at its start, and makes a synthetic node for every name it
  does not find, anew each time the name occurs.
\<close>

fun link_names ::
    "(string \<Rightarrow> nat option) \<Rightarrow> (int \<Rightarrow> string \<Rightarrow> SemanticNode) \<Rightarrow> EdgeKind \<Rightarrow> nat \<Rightarrow> string list \<Rightarrow> builder \<Rightarrow> builder" where
  "link_names look mk k s [] st = st"
| "link_names look mk k s (x # xs) st =
     link_names look mk k s xs
       (case look x of
          Some t \<Rightarrow> addEdge s t k False st
        | None \<Rightarrow>
            (let (p, st1) = alloc (mk (NodeCount st) x) (st\<lparr>NodeCount := NodeCount st + 1\<rparr>); (d, st2) = addVertex p st1
             in addEdge s d k True st2))"

fun link_vertices ::
    "(string \<Rightarrow> nat option) \<Rightarrow> (int \<Rightarrow> string \<Rightarrow> SemanticNode) \<Rightarrow> EdgeKind \<Rightarrow> (nat \<times> string list) list \<Rightarrow> builder \<Rightarrow> builder" where
  "link_vertices look mk k [] st = st"
| "link_vertices look mk k ((s, names) # rest) st = link_vertices look mk k rest (link_names look mk k s names st)"

definition vertex_node :: "builder \<Rightarrow> nat \<Rightarrow> SemanticNode" where
  "vertex_node st v = heap st (vertices st ! v)"

definition select :: "(SemanticNode \<Rightarrow> bool) \<Rightarrow> builder \<Rightarrow> nat list" where
  "select P st = filter (\<lambda>v. P (vertex_node st v)) [0..<length (vertices st)]"

definition synthetic_TU :: "int \<Rightarrow> string \<Rightarrow> SemanticNode" where
  "synthetic_TU i name =
     SemanticNode_ctor i False TRANSLATION_UNIT name [] [] [] None name True
       (TranslationUnitNode \<lparr>BeforeFirstChildEOL = 0, IsHeader = False, TraditionGuard = False, HeaderGuard = [], FrontDecls = []\<rparr>)"

definition addIncludeEdges :: "(string \<Rightarrow> string list) \<Rightarrow> builder \<Rightarrow> builder" where
  "addIncludeEdges DirectIncluded st =
     (let tus = select isa_TranslationUnit st
      in link_vertices (\<lambda>f. List.find (\<lambda>v. USR (vertex_node st v) = f) tus) synthetic_TU INCLUDE
           (map (\<lambda>v. (v, DirectIncluded (USR (vertex_node st v)))) tus) st)"

definition synthetic_FuncDef :: "int \<Rightarrow> string \<Rightarrow> SemanticNode" where
  "synthetic_FuncDef i name =
     TerminalNode_ctor i False FUNC_DEF name [] [] [] None [] [] (- 1) 0 True
       (\<lambda>t. FuncDefNode (Terminal.extend t
          \<lparr>fd_TemplateParameterList = [], fd_Attrs = [], fd_BeforeFuncName = [], fd_ParameterList = [], fd_AfterParameterList = [],
           fd_References = [], fd_ParameterTypes = []\<rparr>))"

definition addReferenceEdges :: "builder \<Rightarrow> builder" where
  "addReferenceEdges st =
     (let fields = select isa_FieldDeclaration st
      in link_vertices (\<lambda>r. List.find (\<lambda>v. QualifiedName (vertex_node st v) = r) [0..<length (vertices st)]) synthetic_FuncDef REFERENCE
           (map (\<lambda>v. (v, case as_FieldDeclaration (vertex_node st v) of Some x \<Rightarrow> fld_References x | None \<Rightarrow> [])) fields) st)"

definition synthetic_TypeDecl :: "int \<Rightarrow> string \<Rightarrow> SemanticNode" where
  "synthetic_TypeDecl i name =
     SemanticNode_ctor i False TYPE_NODE name [] [] [] None [] True
       (TypeDeclNode \<lparr>BeforeFirstChildEOL = 0, TypeKind = TD_Class, td_Attrs = [], IsFinal = False, BaseClause = [],
          td_TemplateParameterList = [], td_References = []\<rparr>)"

definition function_uses :: "SemanticNode \<Rightarrow> string list" where
  "function_uses n =
     (case as_FuncSpecialMember n of
        Some x \<Rightarrow> sm_ParameterTypes x
      | None \<Rightarrow> (case as_FuncDef n of Some x \<Rightarrow> fd_ParameterTypes x | None \<Rightarrow> []))"

definition addUseEdges :: "builder \<Rightarrow> builder" where
  "addUseEdges st =
     (let types = select isa_TypeDecl st
      in link_vertices (\<lambda>t. List.find (\<lambda>v. QualifiedName (vertex_node st v) = t) types) synthetic_TypeDecl USE
           (map (\<lambda>v. (v, function_uses (vertex_node st v))) (select (\<lambda>n. isa_FuncDef n \<or> isa_FuncSpecialMember n) st)) st)"

end
