(* ===== verification/GraphBuilderFacts.thy ===== *)
theory GraphBuilderFacts
  imports GraphBuilder MatchingFacts Printer
begin

section \<open>The built graph\<close>

text \<open>
  What holds of the graph the builder makes, whatever the syntax trees, the patterns and the language server give: objects of the class their kind says, numbers
  that are indices, a forest of containment edges that agrees with the links of the nodes. With that the graph meets what
  matching and printing ask for.
\<close>

subsection \<open>The invariant\<close>

definition counted :: "builder \<Rightarrow> bool" where
  "counted st \<longleftrightarrow>
     NodeCount st = int (length (vertices st)) \<and> EdgeCount st = int (length (graph_edges st)) \<and>
     (\<forall>i < length (vertices st). ID (heap st (vertices st ! i)) = int i)"

definition allocated :: "ptr \<Rightarrow> builder \<Rightarrow> bool" where
  "allocated lo st \<longleftrightarrow>
     lo \<le> next_ptr st \<and> distinct (vertices st) \<and> set (vertices st) \<subseteq> {lo..<next_ptr st} \<and>
     (\<forall>p \<in> {lo..<next_ptr st}. wf_node (heap st p) \<and> set (Children (heap st p)) \<subseteq> {p<..<next_ptr st})"

definition edge_ok :: "builder \<Rightarrow> nat \<Rightarrow> semantic_edge \<Rightarrow> bool" where
  "edge_ok st j e \<longleftrightarrow>
     se_id e = int j \<and> se_kind e = CONTAIN \<and> se_source e < se_target e \<and> se_target e < length (vertices st) \<and>
     Parent (heap st (vertices st ! se_target e)) = Some (vertices st ! se_source e)"

definition forest :: "builder \<Rightarrow> bool" where
  "forest st \<longleftrightarrow>
     (\<forall>j < length (graph_edges st). edge_ok st j (graph_edges st ! j)) \<and>
     map se_target (graph_edges st) = filter (\<lambda>i. Parent (heap st (vertices st ! i)) \<noteq> None) [0..<length (vertices st)]"

text \<open>The children of a vertex are the targets of its edges, in order, and access specifiers.\<close>

definition members :: "builder \<Rightarrow> ptr \<Rightarrow> ptr list" where
  "members st p = filter (\<lambda>c. access_kind_of (heap st c) = None) (Children (heap st p))"

definition children_ok :: "builder \<Rightarrow> bool" where
  "children_ok st \<longleftrightarrow>
     (\<forall>i < length (vertices st).
        members st (vertices st ! i) = map (\<lambda>e. vertices st ! se_target e) (filter (\<lambda>e. se_source e = i) (graph_edges st)))"

definition graph_inv :: "ptr \<Rightarrow> builder \<Rightarrow> bool" where
  "graph_inv lo st \<longleftrightarrow> counted st \<and> allocated lo st \<and> forest st \<and> children_ok st"

text \<open>What a run does to the state: nothing is removed, and nodes from before stay as they are.\<close>

definition extends :: "ptr \<Rightarrow> builder \<Rightarrow> builder \<Rightarrow> bool" where
  "extends lo st st' \<longleftrightarrow>
     prefix (vertices st) (vertices st') \<and> prefix (graph_edges st) (graph_edges st') \<and> next_ptr st \<le> next_ptr st' \<and>
     (\<forall>p < lo. heap st' p = heap st p)"

lemma extends_refl [simp]: "extends lo st st"
  by (simp add: extends_def)

lemma extends_trans: "extends lo a b \<Longrightarrow> extends lo b c \<Longrightarrow> extends lo a c"
  by (auto simp: extends_def intro: prefix_order.trans)

subsection \<open>Inserting a node\<close>

lemma insert_node_eq:
  assumes "insert_node P V n st = (p, d, st')" and "P \<noteq> next_ptr st"
  shows "p = next_ptr st \<and> d = length (vertices st) \<and>
    st' = st\<lparr>heap := (heap st)(p := n\<lparr>Parent := Some P\<rparr>, P := (heap st P)\<lparr>Children := Children (heap st P) @ [p]\<rparr>),
            next_ptr := next_ptr st + 1, vertices := vertices st @ [p],
            graph_edges := graph_edges st @ [\<lparr>se_source = V, se_target = d, se_id = EdgeCount st, se_kind = CONTAIN, se_weight = 1, se_synthetic = False\<rparr>],
            NodeCount := NodeCount st + 1, EdgeCount := EdgeCount st + 1\<rparr>"
  using assms by (auto simp: insert_node_def insertToGraphAndParent_def alloc_def addVertex_def addEdge_def Let_def fun_upd_twist)

lemma wf_node_links [simp]:
  "wf_node (n\<lparr>Parent := x\<rparr>) = wf_node n" "wf_node (n\<lparr>Children := cs\<rparr>) = wf_node n"
  "wf_node (n\<lparr>AccessSpecifier := a\<rparr>) = wf_node n"
  by (simp_all add: wf_node_def)

lemma access_kind_links [simp]:
  "access_kind_of (n\<lparr>Parent := x\<rparr>) = access_kind_of n" "access_kind_of (n\<lparr>Children := cs\<rparr>) = access_kind_of n"
  by (simp_all add: access_kind_of_def isa_AccessSpecifier_def)

lemma made_node_no_access: "made_node i C n \<Longrightarrow> access_kind_of n = None"
  by (simp add: made_node_def access_kind_of_def isa_AccessSpecifier_def)

text \<open>The parts of the invariant in the form the proofs use.\<close>

lemma graph_invD:
  assumes "graph_inv lo st"
  shows "NodeCount st = int (length (vertices st))" "EdgeCount st = int (length (graph_edges st))" "lo \<le> next_ptr st"
    "distinct (vertices st)"
    "i < length (vertices st) \<Longrightarrow> ID (heap st (vertices st ! i)) = int i"
    "i < length (vertices st) \<Longrightarrow> lo \<le> vertices st ! i \<and> vertices st ! i < next_ptr st"
    "lo \<le> q \<Longrightarrow> q < next_ptr st \<Longrightarrow> wf_node (heap st q)"
    "lo \<le> q \<Longrightarrow> q < next_ptr st \<Longrightarrow> c \<in> set (Children (heap st q)) \<Longrightarrow> q < c \<and> c < next_ptr st"
    "j < length (graph_edges st) \<Longrightarrow> edge_ok st j (graph_edges st ! j)"
    "map se_target (graph_edges st) = filter (\<lambda>i. Parent (heap st (vertices st ! i)) \<noteq> None) [0..<length (vertices st)]"
    "i < length (vertices st) \<Longrightarrow> members st (vertices st ! i) =
       map (\<lambda>e. vertices st ! se_target e) (filter (\<lambda>e. se_source e = i) (graph_edges st))"
proof -
  have c: "counted st" and a: "allocated lo st" and f: "forest st" and k: "children_ok st"
    using assms by (simp_all add: graph_inv_def)
  from c show "NodeCount st = int (length (vertices st))" "EdgeCount st = int (length (graph_edges st))"
    "i < length (vertices st) \<Longrightarrow> ID (heap st (vertices st ! i)) = int i"
    by (simp_all add: counted_def)
  from a show "lo \<le> next_ptr st" "distinct (vertices st)" "lo \<le> q \<Longrightarrow> q < next_ptr st \<Longrightarrow> wf_node (heap st q)"
    "lo \<le> q \<Longrightarrow> q < next_ptr st \<Longrightarrow> c \<in> set (Children (heap st q)) \<Longrightarrow> q < c \<and> c < next_ptr st"
    by (force simp: allocated_def)+
  show "i < length (vertices st) \<Longrightarrow> lo \<le> vertices st ! i \<and> vertices st ! i < next_ptr st"
    using a by (meson allocated_def atLeastLessThan_iff nth_mem subsetD)
  from f show "j < length (graph_edges st) \<Longrightarrow> edge_ok st j (graph_edges st ! j)"
    "map se_target (graph_edges st) = filter (\<lambda>i. Parent (heap st (vertices st ! i)) \<noteq> None) [0..<length (vertices st)]"
    by (simp_all add: forest_def)
  from k show "i < length (vertices st) \<Longrightarrow> members st (vertices st ! i) =
       map (\<lambda>e. vertices st ! se_target e) (filter (\<lambda>e. se_source e = i) (graph_edges st))"
    by (simp add: children_ok_def)
qed

lemma edges_in_range:
  assumes "graph_inv lo st" and "e \<in> set (graph_edges st)"
  shows "se_source e < length (vertices st) \<and> se_target e < length (vertices st)"
  using assms by (auto simp: in_set_conv_nth edge_ok_def dest: graph_invD(9))

text \<open>The situation of one insertion into a graph that satisfies the invariant.\<close>

definition insertion :: "ptr \<Rightarrow> ptr \<Rightarrow> nat \<Rightarrow> bool \<Rightarrow> SemanticNode \<Rightarrow> builder \<Rightarrow> ptr \<Rightarrow> nat \<Rightarrow> builder \<Rightarrow> bool" where
  "insertion lo P V C n st p d st' \<longleftrightarrow> graph_inv lo st \<and> V < length (vertices st) \<and> vertices st ! V = P \<and>
     made_node (NodeCount st) C n \<and> insert_node P V n st = (p, d, st')"

lemma insertionD:
  assumes "insertion lo P V C n st p d st'"
  shows "graph_inv lo st" "V < length (vertices st)" "vertices st ! V = P" "made_node (NodeCount st) C n"
    "insert_node P V n st = (p, d, st')"
  using assms by (simp_all add: insertion_def)

lemma P_range:
  assumes I: "insertion lo P V C n st p d st'"
  shows "lo \<le> P" "P < next_ptr st" "P \<noteq> next_ptr st" "next_ptr st \<noteq> P"
  using graph_invD(6) [OF insertionD(1,2) [OF I]] insertionD(3) [OF I] by auto

lemma new_fields:
  assumes I: "insertion lo P V C n st p d st'"
  shows "p = next_ptr st" "d = length (vertices st)" "next_ptr st' = Suc (next_ptr st)" "vertices st' = vertices st @ [next_ptr st]"
    "graph_edges st' = graph_edges st @ [\<lparr>se_source = V, se_target = length (vertices st), se_id = EdgeCount st, se_kind = CONTAIN, se_weight = 1, se_synthetic = False\<rparr>]"
  "NodeCount st' = NodeCount st + 1" "EdgeCount st' = EdgeCount st + 1" "events st' = events st"
  "heap st' (next_ptr st) = n\<lparr>Parent := Some P\<rparr>"
  "heap st' P = (heap st P)\<lparr>Children := Children (heap st P) @ [next_ptr st]\<rparr>"
  "q \<noteq> next_ptr st \<Longrightarrow> q \<noteq> P \<Longrightarrow> heap st' q = heap st q"
  using insert_node_eq [OF insertionD(5) [OF I] P_range(3) [OF I]] P_range [OF I] by auto

text \<open>All nodes from before keep everything but their children.\<close>

lemma same_view:
  assumes I: "insertion lo P V C n st p d st'"
    and "q \<noteq> next_ptr st"
  shows "ID (heap st' q) = ID (heap st q)" "Parent (heap st' q) = Parent (heap st q)"
    "wf_node (heap st' q) = wf_node (heap st q)" "access_kind_of (heap st' q) = access_kind_of (heap st q)"
    "Children (heap st' q) = Children (heap st q) @ (if q = P then [next_ptr st] else [])"
  using new_fields(10,11) [OF I] assms by (cases "q = P"; simp)+

lemma new_view:
  assumes I: "insertion lo P V C n st p d st'"
  shows "ID (heap st' (next_ptr st)) = NodeCount st" "Parent (heap st' (next_ptr st)) = Some P"
  "wf_node (heap st' (next_ptr st))" "access_kind_of (heap st' (next_ptr st)) = None" "Children (heap st' (next_ptr st)) = []"
  using insertionD(4) [OF I] by (simp_all add: new_fields(9) [OF I] made_node_def made_node_no_access [OF insertionD(4) [OF I]])

lemma old:
  assumes I: "insertion lo P V C n st p d st'"
    and "i < length (vertices st)"
  shows "vertices st ! i \<noteq> next_ptr st"
  using graph_invD(6) [OF insertionD(1) [OF I]] assms(2) by (metis less_irrefl)

lemma insert_counted:
  assumes I: "insertion lo P V C n st p d st'"
  shows "counted st'"
  by (auto simp: counted_def nth_append new_fields(1-8) [OF I] graph_invD(1,2,5) [OF insertionD(1) [OF I]] old [OF I] same_view(1) [OF I] new_view(1) [OF I])

lemma insert_allocated:
  assumes I: "insertion lo P V C n st p d st'"
  shows "allocated lo st'"
proof -
  have "wf_node (heap st' q) \<and> set (Children (heap st' q)) \<subseteq> {q<..<next_ptr st'}" if "lo \<le> q" "q < next_ptr st'" for q
  proof (cases "q = next_ptr st")
    case False
    then have q: "q < next_ptr st" using that new_fields(3) [OF I] by simp
    then show ?thesis
      using graph_invD(7) [OF insertionD(1) [OF I] that(1) q] graph_invD(8) [OF insertionD(1) [OF I] that(1) q] P_range [OF I]
      by (auto simp: same_view(3,5) [OF I False] new_fields(3) [OF I]) (meson less_SucI)
  qed (simp add: new_view [OF I])
  moreover have "set (vertices st) \<subseteq> {lo..<next_ptr st}" using graph_invD(6) [OF insertionD(1) [OF I]] by (auto simp: in_set_conv_nth)
  ultimately show ?thesis
    using graph_invD(3,4) [OF insertionD(1) [OF I]] by (auto simp: allocated_def new_fields(3,4) [OF I])
qed

lemma insert_forest:
  assumes I: "insertion lo P V C n st p d st'"
  shows "forest st'"
proof -
  have "edge_ok st' j (graph_edges st' ! j)" if "j < length (graph_edges st')" for j
  proof (cases "j < length (graph_edges st)")
    case True
    then show ?thesis using graph_invD(9) [OF insertionD(1) [OF I] True] old [OF I]
      by (auto simp: edge_ok_def nth_append new_fields(4,5) [OF I] same_view(2) [OF I])
  next
    case False
    then have "j = length (graph_edges st)" using that new_fields(5) [OF I] by simp
    then show ?thesis using insertionD(2,3) [OF I]
      by (simp add: edge_ok_def nth_append new_fields(4,5) [OF I] new_view(2) [OF I] graph_invD(2) [OF insertionD(1) [OF I]])
  qed
  moreover have "filter (\<lambda>i. Parent (heap st' (vertices st' ! i)) \<noteq> None) [0..<length (vertices st)] =
      filter (\<lambda>i. Parent (heap st (vertices st ! i)) \<noteq> None) [0..<length (vertices st)]"
    using old [OF I] by (intro filter_cong) (auto simp: nth_append new_fields(4) [OF I] same_view(2) [OF I])
  ultimately show ?thesis
    using graph_invD(10) [OF insertionD(1) [OF I]] by (simp add: forest_def new_fields(4,5) [OF I] nth_append new_view(2) [OF I])
qed

lemma insert_children_ok:
  assumes I: "insertion lo P V C n st p d st'"
  shows "children_ok st'"
  unfolding children_ok_def
proof (intro allI impI)
  fix i
  assume i: "i < length (vertices st')"
  have edges: "map (\<lambda>e. vertices st' ! se_target e) (filter (\<lambda>e. se_source e = i) (graph_edges st)) =
      map (\<lambda>e. vertices st ! se_target e) (filter (\<lambda>e. se_source e = i) (graph_edges st))"
    using edges_in_range [OF insertionD(1) [OF I]] by (auto simp: nth_append new_fields(4) [OF I])
  show "members st' (vertices st' ! i) =
      map (\<lambda>e. vertices st' ! se_target e) (filter (\<lambda>e. se_source e = i) (graph_edges st'))"
  proof (cases "i < length (vertices st)")
    case True
    let ?q = "vertices st ! i"
    have q: "lo \<le> ?q" "?q < next_ptr st" using graph_invD(6) [OF insertionD(1) [OF I] True] by auto
    have "access_kind_of (heap st' c) = access_kind_of (heap st c)" if "c \<in> set (Children (heap st ?q))" for c
      using graph_invD(8) [OF insertionD(1) [OF I] q that] by (simp add: same_view(4) [OF I])
    then have m1: "filter (\<lambda>c. access_kind_of (heap st' c) = None) (Children (heap st ?q)) = members st ?q"
      unfolding members_def by (intro filter_cong) auto
    have m2: "?q = P \<longleftrightarrow> i = V"
      using nth_eq_iff_index_eq [OF graph_invD(4) [OF insertionD(1) [OF I]] True insertionD(2) [OF I]] insertionD(3) [OF I] by simp
    have m3: "vertices st' ! i = ?q" using True by (simp add: nth_append new_fields(4) [OF I])
    have m4: "members st' ?q = filter (\<lambda>c. access_kind_of (heap st' c) = None) (Children (heap st ?q)) @
        (if ?q = P then [next_ptr st] else [])"
      by (simp add: members_def same_view(5) [OF I old [OF I True]] new_view(4) [OF I])
    have m5: "map (\<lambda>e. vertices st' ! se_target e) (filter (\<lambda>e. se_source e = i) (graph_edges st')) =
        map (\<lambda>e. vertices st ! se_target e) (filter (\<lambda>e. se_source e = i) (graph_edges st)) @ (if i = V then [next_ptr st] else [])"
      unfolding new_fields(5) [OF I] filter_append map_append edges by (auto simp: new_fields(4) [OF I])
    show ?thesis unfolding m3 m4 m5 m1 m2 graph_invD(11) [OF insertionD(1) [OF I] True] by (rule refl)
  next
    case False
    then have i': "i = length (vertices st)" using i new_fields(4) [OF I] by simp
    have "se_source e \<noteq> i" if "e \<in> set (graph_edges st)" for e
      using edges_in_range [OF insertionD(1) [OF I] that] i' by simp
    then have none: "filter (\<lambda>e. se_source e = i) (graph_edges st) = []" by (simp add: filter_empty_conv)
    show ?thesis
      using i' none insertionD(2) [OF I] by (simp add: members_def new_fields(4,5) [OF I] new_view(5) [OF I] nth_append)
  qed
qed

lemma insert_inv:
  assumes I: "insertion lo P V C n st p d st'"
  shows "graph_inv lo st'"
  by (simp add: graph_inv_def insert_counted [OF I] insert_allocated [OF I] insert_forest [OF I] insert_children_ok [OF I])

lemma insert_extends:
  assumes I: "insertion lo P V C n st p d st'"
  shows "extends lo st st'"
  using P_range [OF I] graph_invD(3) [OF insertionD(1) [OF I]] by (auto simp: extends_def new_fields(3-5) [OF I] new_fields(11) [OF I])

lemma insert_desc:
  assumes I: "insertion lo P V C n st p d st'"
  shows "d < length (vertices st')" "vertices st' ! d = p" "events st' = events st"
  by (simp_all add: new_fields [OF I])

subsection \<open>Access specifiers\<close>

text \<open>Changes of a node the invariant does not see.\<close>

definition same_links :: "SemanticNode \<Rightarrow> SemanticNode \<Rightarrow> bool" where
  "same_links n m \<longleftrightarrow> ID n = ID m \<and> wf_node n = wf_node m \<and> Parent n = Parent m \<and> Children n = Children m \<and>
     access_kind_of n = access_kind_of m"

lemma graph_inv_same_links:
  assumes "\<And>p. same_links (h p) (heap st p)"
  shows "graph_inv lo (st\<lparr>heap := h\<rparr>) = graph_inv lo st"
proof -
  have h: "ID (h p) = ID (heap st p)" "wf_node (h p) = wf_node (heap st p)" "Parent (h p) = Parent (heap st p)"
    "Children (h p) = Children (heap st p)" "access_kind_of (h p) = access_kind_of (heap st p)" for p
    using assms [of p] by (simp_all add: same_links_def)
  show ?thesis
    by (simp add: graph_inv_def counted_def allocated_def forest_def edge_ok_def children_ok_def members_def h)
qed

lemma setMemberAccessSpecifier_same_links: "same_links (setMemberAccessSpecifier h p q) (h q)"
proof -
  have "(setMemberAccessSpecifier h p q)\<lparr>AccessSpecifier := a\<rparr> = (h q)\<lparr>AccessSpecifier := a\<rparr>" for a
    by (simp add: setMemberAccessSpecifier_def access_loop_only_access split: list.splits)
  then obtain a where "setMemberAccessSpecifier h p q = (h q)\<lparr>AccessSpecifier := a\<rparr>"
    by (metis SemanticNode.surjective SemanticNode.update_convs(11))
  then show ?thesis by (simp add: same_links_def)
qed

lemma setMemberAccessSpecifier_frame: "q \<notin> set (Children (h p)) \<Longrightarrow> setMemberAccessSpecifier h p q = h q"
  by (auto simp: setMemberAccessSpecifier_def access_loop_other split: list.splits)

lemma set_access_inv:
  assumes "graph_inv lo st" and "lo \<le> p" and "p < next_ptr st"
  defines "st' \<equiv> st\<lparr>heap := setMemberAccessSpecifier (heap st) p\<rparr>"
  shows "graph_inv lo st' \<and> extends lo st st' \<and> events st' = events st"
proof -
  have "heap st' q = heap st q" if "q < lo" for q
    using graph_invD(8) [OF assms(1-3), of q] assms(2) that by (auto simp: st'_def intro: setMemberAccessSpecifier_frame)
  with assms(1) show ?thesis
    by (simp add: st'_def graph_inv_same_links setMemberAccessSpecifier_same_links extends_def)
qed

lemma access_inv:
  assumes inv: "graph_inv lo st" and V: "V < length (vertices st)" "vertices st ! V = P"
    and "parse_access P c st = Inr (st', r)"
  shows "graph_inv lo st' \<and> extends lo st st' \<and> events st' = events st \<and> vertices st' = vertices st"
proof -
  let ?q = "next_ptr st" let ?a = "AccessSpecifierNode_ctor (getAccessSpecifierKind (source_text c)) ACCESS_SPECIFIER True"
  have P: "lo \<le> P" "P < ?q" "P \<noteq> ?q" using graph_invD(6) [OF inv V(1)] V by auto
  then have st': "st' = st\<lparr>heap := (heap st)(?q := ?a, P := (heap st P)\<lparr>Children := Children (heap st P) @ [?q]\<rparr>),
      next_ptr := Suc ?q\<rparr>"
    using assms(4) by (auto simp: parse_access_def alloc_def Let_def split: if_splits)
  have old: "vertices st ! i \<noteq> ?q" if "i < length (vertices st)" for i
    using graph_invD(6) [OF inv that] by simp
  have view: "ID (heap st' q) = ID (heap st q)" "Parent (heap st' q) = Parent (heap st q)"
    "wf_node (heap st' q) = wf_node (heap st q)" "access_kind_of (heap st' q) = access_kind_of (heap st q)"
    "Children (heap st' q) = Children (heap st q) @ (if q = P then [?q] else [])" if "q \<noteq> ?q" for q
    using that P by (simp_all add: st')
  have new: "wf_node (heap st' ?q)" "access_kind_of (heap st' ?q) \<noteq> None" "Children (heap st' ?q) = []"
    using P by (simp_all add: st')
      (simp_all add: AccessSpecifierNode_ctor_def TerminalNode_ctor_def SemanticNode_ctor_def wf_node_def)
  have rest: "vertices st' = vertices st" "graph_edges st' = graph_edges st" "NodeCount st' = NodeCount st"
    "EdgeCount st' = EdgeCount st" "next_ptr st' = Suc ?q" "events st' = events st"
    by (simp_all add: st')
  have "counted st'"
    using graph_invD(1,2,5) [OF inv] old by (simp add: counted_def rest view(1))
  moreover have "forest st'"
  proof -
    have "edge_ok st' j (graph_edges st ! j)" if "j < length (graph_edges st)" for j
      using graph_invD(9) [OF inv that] old by (auto simp: edge_ok_def rest view(2))
    moreover have "filter (\<lambda>i. Parent (heap st' (vertices st ! i)) \<noteq> None) [0..<length (vertices st)] =
        filter (\<lambda>i. Parent (heap st (vertices st ! i)) \<noteq> None) [0..<length (vertices st)]"
      using old by (intro filter_cong) (auto simp: view(2))
    ultimately show ?thesis using graph_invD(10) [OF inv] by (simp add: forest_def rest)
  qed
  moreover have "allocated lo st'"
  proof -
    have "wf_node (heap st' q) \<and> set (Children (heap st' q)) \<subseteq> {q<..<next_ptr st'}" if "lo \<le> q" "q < next_ptr st'" for q
    proof (cases "q = ?q")
      case False
      then have q: "q < ?q" using that rest(5) by simp
      then show ?thesis
        using graph_invD(7) [OF inv that(1) q] graph_invD(8) [OF inv that(1) q] P
        by (auto simp: view(3,5) [OF False] rest(5)) (meson less_SucI)
    qed (simp add: new)
    moreover have "set (vertices st) \<subseteq> {lo..<Suc ?q}" using graph_invD(6) [OF inv] by (fastforce simp: in_set_conv_nth)
    ultimately show ?thesis using graph_invD(3,4) [OF inv] by (auto simp: allocated_def rest)
  qed
  moreover have "children_ok st'"
    unfolding children_ok_def rest(1,2)
  proof (intro allI impI)
    fix i
    assume i: "i < length (vertices st)"
    let ?p = "vertices st ! i"
    have p: "lo \<le> ?p" "?p < ?q" using graph_invD(6) [OF inv i] by auto
    have "access_kind_of (heap st' c) = access_kind_of (heap st c)" if "c \<in> set (Children (heap st ?p))" for c
      using graph_invD(8) [OF inv p that] by (simp add: view(4))
    then have "filter (\<lambda>c. access_kind_of (heap st' c) = None) (Children (heap st ?p)) = members st ?p"
      unfolding members_def by (intro filter_cong) auto
    moreover have "members st' ?p = filter (\<lambda>c. access_kind_of (heap st' c) = None) (Children (heap st ?p))"
      using new(2) by (simp add: members_def view(5) [OF old [OF i]])
    ultimately show "members st' ?p = map (\<lambda>e. vertices st ! se_target e) (filter (\<lambda>e. se_source e = i) (graph_edges st))"
      using graph_invD(11) [OF inv i] by simp
  qed
  moreover have "extends lo st st'"
    using P graph_invD(3) [OF inv] by (auto simp: extends_def st')
  ultimately show ?thesis by (simp add: graph_inv_def rest)
qed

subsection \<open>The whole recursion\<close>

lemma extends_vertex:
  "extends lo st st' \<Longrightarrow> V < length (vertices st) \<Longrightarrow> V < length (vertices st') \<and> vertices st' ! V = vertices st ! V"
  by (auto simp: extends_def prefix_def nth_append)

lemma step_inv:
  assumes inv: "graph_inv lo st" and V: "V < length (vertices st)" "vertices st ! V = P"
    and step: "parse_child E P V C path c st = Inr (st', r)"
  shows "graph_inv lo st' \<and> extends lo st st' \<and> events st' = events st \<and>
    (\<forall>p d b i k. r = Descend p d b i k \<longrightarrow> d < length (vertices st') \<and> vertices st' ! d = p)"
  using parse_child_cases [OF step]
proof (elim disjE exE conjE)
  fix n
  assume n: "made_node (NodeCount st) C n" and s: "step_inserts P V c st st' r n"
  then obtain p d where ins: "insert_node P V n st = (p, d, st')"
    and r: "\<forall>p' d' b i k. r = Descend p' d' b i k \<longrightarrow> p' = p \<and> d' = d" unfolding step_inserts_def by blast
  have I: "insertion lo P V C n st p d st'" using inv V n ins by (simp add: insertion_def)
  show ?thesis
    using insert_inv [OF I] insert_extends [OF I] insert_desc [OF I] r by auto
next
  assume "r = Next 0" "parse_access P c st = Inr (st', r)"
  with access_inv [OF inv V] show ?thesis by auto
next
  assume "r = Next 0" "st' = st"
  with inv show ?thesis by simp
qed

lemma parse_inv:
  assumes "parseCompositeNode E P V C Root path idx st = Inr st'" and "graph_inv lo st" and "V < length (vertices st)"
    and "vertices st ! V = P"
  shows "graph_inv lo st' \<and> extends lo st st' \<and> events st' = events st"
  using assms
proof (induction E P V C Root path idx st arbitrary: st' rule: parseCompositeNode.induct)
  case (1 E P V C Root path idx st)
  show ?case
  proof (cases "child_at Root idx")
    case None
    with 1(4,5) show ?thesis by (simp add: parseCompositeNode.simps)
  next
    case (Some c)
    then obtain st1 r where step: "parse_child E P V C path c st = Inr (st1, r)"
      using 1(4) by (auto simp: parseCompositeNode.simps [of _ _ _ _ Root] split: sum.splits)
    note s = step_inv [OF 1(5-7) step]
    have V1: "V < length (vertices st1)" "vertices st1 ! V = P"
      using extends_vertex [of lo st st1] s 1(6,7) by auto
    show ?thesis
    proof (cases r)
      case (Next k)
      with 1(1) [OF Some step refl Next _ _ V1] 1(4) s Some step show ?thesis
        by (auto simp: parseCompositeNode.simps [of _ _ _ _ Root _ idx] intro: extends_trans)
    next
      case (Descend p d b i k)
      then obtain st2 where body: "parseCompositeNode E p d C b path 0 st1 = Inr st2"
        using 1(4) Some step by (auto simp: parseCompositeNode.simps [of _ _ _ _ Root _ idx] split: sum.splits)
      have d: "d < length (vertices st1)" "vertices st1 ! d = p" using s Descend by auto
      from 1(2) [OF Some step refl Descend body _ d] s
      have b: "graph_inv lo st2" "extends lo st1 st2" "events st2 = events st1" by auto
      let ?st3 = "if i then st2\<lparr>heap := setMemberAccessSpecifier (heap st2) p\<rparr> else st2"
      have "lo \<le> p" "p < next_ptr st2"
        using extends_vertex [OF b(2) d(1)] d graph_invD(6) [OF b(1), of d] by auto
      with set_access_inv [OF b(1)] b have a: "graph_inv lo ?st3" "extends lo st2 ?st3" "events ?st3 = events st2" by auto
      have V3: "V < length (vertices ?st3)" "vertices ?st3 ! V = P"
        using extends_vertex [OF b(2) V1(1)] V1 by auto
      have "parseCompositeNode E P V C Root path (Suc (idx + k)) ?st3 = Inr st'"
        using 1(4) Some step Descend body by (simp add: parseCompositeNode.simps [of _ _ _ _ Root _ idx])
      from 1(3) [OF Some step refl Descend body this a(1) V3] s a b show ?thesis
        by (metis extends_trans)
    qed
  qed
qed

lemma parseTranslationUnit_made:
  "parseTranslationUnit E i n C Path FilePath = Inr (tu, k, m) \<Longrightarrow> made_node i C tu \<and> isa_TranslationUnit tu"
  by (auto simp: parseTranslationUnit_def Let_def isa_TranslationUnit_def SemanticNode_ctor_def made_node_def wf_node_def
      split: sum.splits prod.splits if_splits)

text \<open>A translation unit becomes a vertex without a parent.\<close>

lemma new_root_inv:
  assumes inv: "graph_inv lo st" and n: "made_node (NodeCount st) C n"
    and "alloc n (st\<lparr>NodeCount := NodeCount st + 1\<rparr>) = (p, st1)" and "addVertex p st1 = (d, st2)"
  shows "graph_inv lo st2 \<and> extends lo st st2 \<and> events st2 = events st \<and> d < length (vertices st2) \<and> vertices st2 ! d = p"
proof -
  let ?q = "next_ptr st"
  have f: "p = ?q" "d = length (vertices st)" "next_ptr st2 = Suc ?q" "vertices st2 = vertices st @ [?q]"
    "graph_edges st2 = graph_edges st" "NodeCount st2 = NodeCount st + 1" "EdgeCount st2 = EdgeCount st" "events st2 = events st"
    "heap st2 = (heap st)(?q := n)"
    using assms(3,4) by (auto simp: alloc_def addVertex_def)
  have old: "vertices st ! i \<noteq> ?q" if "i < length (vertices st)" for i
    using graph_invD(6) [OF inv that] by simp
  have n': "wf_node n" "ID n = NodeCount st" "Parent n = None" "Children n = []" using n by (simp_all add: made_node_def)
  have "counted st2"
    using graph_invD(1,2,5) [OF inv] old n' by (auto simp: counted_def f nth_append)
  moreover have "allocated lo st2"
  proof -
    have "wf_node (heap st2 q) \<and> set (Children (heap st2 q)) \<subseteq> {q<..<next_ptr st2}" if "lo \<le> q" "q < next_ptr st2" for q
    proof (cases "q = ?q")
      case False
      then have q: "q < ?q" using that f(3) by simp
      then show ?thesis
        using graph_invD(7) [OF inv that(1) q] graph_invD(8) [OF inv that(1) q] by (auto simp: f) (meson less_SucI)
    qed (simp add: f n')
    moreover have "set (vertices st) \<subseteq> {lo..<?q}" using graph_invD(6) [OF inv] by (auto simp: in_set_conv_nth)
    ultimately show ?thesis using graph_invD(3,4) [OF inv] by (auto simp: allocated_def f)
  qed
  moreover have "forest st2"
  proof -
    have "edge_ok st2 j (graph_edges st2 ! j)" if "j < length (graph_edges st2)" for j
      using graph_invD(9) [OF inv, of j] that old by (auto simp: edge_ok_def f nth_append)
    moreover have "filter (\<lambda>i. Parent (heap st2 (vertices st2 ! i)) \<noteq> None) [0..<length (vertices st)] =
        filter (\<lambda>i. Parent (heap st (vertices st ! i)) \<noteq> None) [0..<length (vertices st)]"
      using old by (intro filter_cong) (auto simp: f nth_append)
    ultimately show ?thesis using graph_invD(10) [OF inv] n' by (simp add: forest_def f nth_append)
  qed
  moreover have "children_ok st2"
    unfolding children_ok_def
  proof (intro allI impI)
    fix i
    assume i: "i < length (vertices st2)"
    have edges: "map (\<lambda>e. vertices st2 ! se_target e) (filter (\<lambda>e. se_source e = i) (graph_edges st2)) =
        map (\<lambda>e. vertices st ! se_target e) (filter (\<lambda>e. se_source e = i) (graph_edges st))"
      using edges_in_range [OF inv] by (auto simp: nth_append f)
    show "members st2 (vertices st2 ! i) =
        map (\<lambda>e. vertices st2 ! se_target e) (filter (\<lambda>e. se_source e = i) (graph_edges st2))"
    proof (cases "i < length (vertices st)")
      case True
      have p: "lo \<le> vertices st ! i" "vertices st ! i < ?q" using graph_invD(6) [OF inv True] by auto
      have "access_kind_of (heap st2 c) = access_kind_of (heap st c)" if "c \<in> set (Children (heap st (vertices st ! i)))" for c
        using graph_invD(8) [OF inv p that] by (auto simp: f)
      then have "members st2 (vertices st ! i) = members st (vertices st ! i)"
        unfolding members_def using p by (intro filter_cong) (simp_all add: f)
      moreover have "vertices st2 ! i = vertices st ! i" using True by (simp add: f nth_append)
      ultimately show ?thesis unfolding edges using graph_invD(11) [OF inv True] by simp
    next
      case False
      then have i': "i = length (vertices st)" using i f(4) by simp
      have "se_source e \<noteq> i" if "e \<in> set (graph_edges st)" for e using edges_in_range [OF inv that] i' by simp
      then have none: "filter (\<lambda>e. se_source e = i) (graph_edges st) = []" by (simp add: filter_empty_conv)
      have "members st2 (vertices st2 ! i) = []" using i' n' by (simp add: members_def f)
      with edges none show ?thesis by simp
    qed
  qed
  moreover have "extends lo st st2"
    using graph_invD(3) [OF inv] by (auto simp: extends_def f)
  ultimately show ?thesis by (simp add: graph_inv_def f)
qed

lemma processTree_inv:
  assumes inv: "graph_inv lo st" and "processTree E Path FilePath C n st = Inr st'"
  shows "graph_inv lo st' \<and> extends lo st st' \<and> events st' = events st"
proof -
  from assms(2) obtain tu k m where tu: "parseTranslationUnit E (NodeCount st) n C Path FilePath = Inr (tu, k, m)"
    by (auto simp: processTree_def split: if_splits sum.splits)
  obtain p st1 where a: "alloc tu (st\<lparr>NodeCount := NodeCount st + 1\<rparr>) = (p, st1)" by fastforce
  obtain d st2 where v: "addVertex p st1 = (d, st2)" by fastforce
  have "parseCompositeNode E p d C m FilePath k st2 = Inr st'"
    using assms(2) tu a v by (auto simp: processTree_def split: if_splits)
  moreover note new_root_inv [OF inv conjunct1 [OF parseTranslationUnit_made [OF tu]] a v]
  ultimately show ?thesis using parse_inv extends_trans by metis
qed

lemma graph_inv_events [simp]: "graph_inv lo (st\<lparr>events := ev\<rparr>) = graph_inv lo st"
  by (simp add: graph_inv_def counted_def allocated_def forest_def edge_ok_def children_ok_def members_def)

lemma extends_events [simp]: "extends lo st (st'\<lparr>events := ev\<rparr>) = extends lo st st'"
  "extends lo (st\<lparr>events := ev\<rparr>) st' = extends lo st st'"
  by (simp_all add: extends_def)

text \<open>The documents a file needs: the file itself and its header or source, when the language server knows one.\<close>

definition documents :: "build_env \<Rightarrow> string \<Rightarrow> builder \<Rightarrow> string list" where
  "documents E FilePath st =
     FilePath # (case SwitchSourceHeader E (events st @ [Opened FilePath]) FilePath of None \<Rightarrow> [] | Some s \<Rightarrow> [s])"

lemma processCpp_cases:
  assumes "processCppTranslationUnit E Path FilePath C st = Inr st'"
  defines "st0 \<equiv> st\<lparr>events := events st @ map Opened (documents E FilePath st)\<rparr>"
  obtains "parse_source E (file_content E FilePath) = None" "st' = st0"
  | t st1 where "parse_source E (file_content E FilePath) = Some t"
      "processTree E Path FilePath C (root_node (file_content E FilePath) t) st0 = Inr st1"
      "st' = st1\<lparr>events := events st1 @ map Closed (documents E FilePath st)\<rparr>"
proof (cases "SwitchSourceHeader E (events st @ [Opened FilePath]) FilePath")
  case None
  with assms that show ?thesis
    by (auto simp: processCppTranslationUnit_def documents_def opened_def closed_def Let_def split: option.splits sum.splits)
next
  case (Some s)
  then obtain u where "path_of \<lparr>file_path = s\<rparr> = Inr u"
    using assms by (cases "path_of \<lparr>file_path = s\<rparr>") (simp_all add: processCppTranslationUnit_def Let_def opened_def)
  with Some assms that show ?thesis
    by (auto simp: processCppTranslationUnit_def documents_def opened_def closed_def Let_def split: option.splits sum.splits)
qed

lemma processCpp_inv:
  assumes "graph_inv lo st" and "processCppTranslationUnit E Path FilePath C st = Inr st'"
  shows "graph_inv lo st' \<and> extends lo st st'"
  using assms(2)
proof (cases rule: processCpp_cases)
  case 1
  with assms(1) show ?thesis by simp
next
  case (2 t st1)
  from processTree_inv [OF _ 2(2), of lo] assms(1) 2(3) show ?thesis by simp
qed

lemma process_all_inv:
  "process_all E ps st = Inr st' \<Longrightarrow> graph_inv lo st \<Longrightarrow> graph_inv lo st' \<and> extends lo st st'"
proof (induction ps arbitrary: st)
  case (Cons p ps)
  then obtain st1 where st1: "processTranslationUnit E p st = Inr st1" "process_all E ps st1 = Inr st'"
    by (auto split: sum.splits)
  have "graph_inv lo st1 \<and> extends lo st st1"
    using st1(1) processCpp_inv [OF Cons.prems(2)] Cons.prems(2)
    by (auto simp: processTranslationUnit_def Let_def split: if_splits)
  with Cons.IH [OF st1(2)] show ?case by (blast intro: extends_trans)
qed simp

text \<open>A builder starts without a graph; the store may hold other nodes, below the next address.\<close>

definition new_builder :: "store \<Rightarrow> ptr \<Rightarrow> builder" where
  "new_builder h lo = \<lparr>heap = h, next_ptr = lo, vertices = [], graph_edges = [], NodeCount = 0, EdgeCount = 0, events = []\<rparr>"

lemma new_builder_inv: "graph_inv lo (new_builder h lo)"
  by (simp add: new_builder_def graph_inv_def counted_def allocated_def forest_def children_ok_def)

lemma build_inv:
  assumes "build E (new_builder h lo) = Inr (Some st)"
  shows "graph_inv lo st \<and> (\<forall>p < lo. heap st p = h p)"
proof -
  have "process_all E (SourceList E) (new_builder h lo) = Inr st"
    using assms by (cases "process_all E (SourceList E) (new_builder h lo)") (auto simp: build_def split: if_splits)
  from process_all_inv [OF this new_builder_inv] show ?thesis
    by (auto simp: extends_def new_builder_def)
qed

subsection \<open>Edges between names\<close>

text \<open>The numbers stay the indices, whatever is linked, and every name gets one edge.\<close>

lemma link_names_counted:
  fixes look mk k s names
  assumes "NodeCount st = int (length (vertices st))" and "EdgeCount st = int (length (graph_edges st))"
  defines "st' \<equiv> link_names look mk k s names st"
  shows "NodeCount st' = int (length (vertices st')) \<and> EdgeCount st' = int (length (graph_edges st')) \<and>
    length (graph_edges st') = length (graph_edges st) + length names \<and> prefix (vertices st) (vertices st')"
  using assms(1,2) unfolding st'_def
proof (induction names arbitrary: st)
  case (Cons x xs)
  define st1 where "st1 = (case look x of
          Some t \<Rightarrow> addEdge s t k False st
        | None \<Rightarrow>
            (let (p, st1) = alloc (mk (NodeCount st) x) (st\<lparr>NodeCount := NodeCount st + 1\<rparr>); (d, st2) = addVertex p st1
             in addEdge s d k True st2))"
  have "NodeCount st1 = int (length (vertices st1))" "EdgeCount st1 = int (length (graph_edges st1))"
    "length (graph_edges st1) = Suc (length (graph_edges st))" "prefix (vertices st) (vertices st1)"
    using Cons.prems by (auto simp: st1_def addEdge_def alloc_def addVertex_def Let_def split: option.splits)
  with Cons.IH [of st1] show ?case by (auto simp: st1_def [symmetric] intro: prefix_order.trans)
qed simp

lemma link_vertices_edges:
  assumes "NodeCount st = int (length (vertices st))" and "EdgeCount st = int (length (graph_edges st))"
  shows "length (graph_edges (link_vertices look mk k vs st)) = length (graph_edges st) + length (concat (map snd vs))"
  using assms
proof (induction look mk k vs st rule: link_vertices.induct)
  case (2 look mk k s names rest st)
  with link_names_counted [OF 2(2,3), of look mk k s names] show ?case by simp
qed simp

subsection \<open>An example\<close>

text \<open>A file with a namespace and a declaration in it.\<close>

definition demo_file :: string where
  "demo_file = ''namespace n { int x; }''"

definition demo_file_tree :: cst where
  "demo_file_tree = CST ''translation_unit'' True 0 22 (at_row 0 0) (at_row 0 22)
     [(None, CST ''namespace_definition'' True 0 22 (at_row 0 0) (at_row 0 22)
        [(None, CST ''namespace'' False 0 9 (at_row 0 0) (at_row 0 9) []),
         (Some ''name'', CST ''identifier'' True 10 11 (at_row 0 10) (at_row 0 11) []),
         (Some ''body'', CST ''declaration_list'' True 12 22 (at_row 0 12) (at_row 0 22)
            [(None, CST ''{'' False 12 13 (at_row 0 12) (at_row 0 13) []),
             (None, CST ''declaration'' True 14 20 (at_row 0 14) (at_row 0 20)
                [(Some ''declarator'', CST ''identifier'' True 18 19 (at_row 0 18) (at_row 0 19) [])]),
             (None, CST ''}'' False 21 22 (at_row 0 21) (at_row 0 22) [])])])]"

definition demo_build :: build_env where
  "demo_build =
     \<lparr>be_hash = \<lparr>hash_str = (\<lambda>s. of_nat (length s)), hash_enum = of_nat, hash_size = id, hash_int = of_int\<rparr>,
      be_regexes = \<lparr>pragma_once = (\<lambda>_. False),
        namespace_pattern = (\<lambda>_. Some \<lparr>nm_signature = ''namespace n '', nm_inline = [], nm_name = ''n''\<rparr>),
        class_pattern = (\<lambda>_. None), enum_pattern = (\<lambda>_. None), special_pattern = (\<lambda>_. None), cast_pattern = (\<lambda>_. None),
        def_pattern = (\<lambda>_ _. None)\<rparr>,
      parse_source = (\<lambda>_. Some demo_file_tree), file_content = (\<lambda>_. demo_file), file_exists = (\<lambda>_. True),
      relative_path = id, SymbolInfo = (\<lambda>_ _ _. None), References = (\<lambda>_ _ _. None), SwitchSourceHeader = (\<lambda>_ _. None),
      initLanguageServer = True, ProjectPath = ''/p/'', SourceDir = ''/s'', ConflictPaths = {''a.cpp''}, SourceList = [''a.cpp'']\<rparr>"

definition demo_heap :: store where
  "demo_heap = (\<lambda>_. AccessSpecifierNode_ctor AS_None ACCESS_SPECIFIER True)"

definition three_vertices :: "build_error + builder option \<Rightarrow> bool" where
  "three_vertices r \<longleftrightarrow> (case r of Inr (Some st) \<Rightarrow> length (vertices st) = 3 | _ \<Rightarrow> False)"

lemma demo_built: "three_vertices (build demo_build (new_builder demo_heap 0))"
  by code_simp

lemma demo_build_Some: "\<exists>st. build demo_build (new_builder demo_heap 0) = Inr (Some st) \<and> length (vertices st) = 3"
  using demo_built by (auto simp: three_vertices_def split: sum.splits option.splits)

subsection \<open>The properties of a built graph\<close>



lemma printable_below:
  assumes "graph_inv lo st" and "lo \<le> p" and "p < next_ptr st" and "next_ptr st \<le> p + n"
  shows "printable (heap st) n p"
  using assms(2-4)
proof (induction n arbitrary: p)
  case (Suc n)
  have "printable (heap st) n c" if "c \<in> set (Children (heap st p))" for c
    using graph_invD(8) [OF assms(1) Suc.prems(1,2) that] Suc.prems by (intro Suc.IH) auto
  then show ?case using graph_invD(7) [OF assms(1) Suc.prems(1,2)] by (simp add: list_all_iff)
qed simp

text \<open>
  C10: Type safety: every object of a built graph, access specifiers included, is of the class its kind names. So no cast that is guarded by the kind
  fails, and printing the tree below any vertex returns.
\<close>

theorem built_graph_prints:
  assumes "build E (new_builder h lo) = Inr (Some st)"
  shows "(\<forall>p. lo \<le> p \<and> p < next_ptr st \<longrightarrow> Kind (heap st p) = class_kind (Data (heap st p))) \<and>
    (\<forall>p \<in> set (vertices st). \<exists>s. prettyPrintNode (heap st) (next_ptr st - p) p = Inr s)"
proof -
  have inv: "graph_inv lo st" using build_inv [OF assms] by blast
  have "\<exists>s. prettyPrintNode (heap st) (next_ptr st - p) p = Inr s" if "p \<in> set (vertices st)" for p
  proof -
    have "lo \<le> p" "p < next_ptr st" using that graph_invD(6) [OF inv] by (auto simp: in_set_conv_nth)
    then have "printable (heap st) (next_ptr st - p) p" by (intro printable_below [OF inv]) auto
    then show ?thesis using print_node_text by blast
  qed
  with graph_invD(7) [OF inv] show ?thesis by (auto simp: wf_node_def)
qed

theorem built_graph_prints_witness:
  "\<exists>st. build demo_build (new_builder demo_heap 0) = Inr (Some st) \<and>
        (\<forall>p \<in> set (vertices st). \<exists>s. prettyPrintNode (heap st) (next_ptr st - p) p = Inr s) \<and> length (vertices st) = 3"
proof -
  obtain st where st: "build demo_build (new_builder demo_heap 0) = Inr (Some st)" "length (vertices st) = 3"
    using demo_build_Some by blast
  from built_graph_prints [OF st(1)] st show ?thesis by (intro exI [of _ st]) simp
qed

text \<open>
  C11: The graphs of two sides, built one after the other in one store, meet what matching asks for: it stops only when an iterator is invalidated, and that
  exactly when an unmatched linkage specification or enumeration of the base is paired.
\<close>

theorem built_graphs_match:
  fixes B R :: builder
  assumes "build E1 (new_builder h lo) = Inr (Some B)" and "build E2 (new_builder (heap B) (next_ptr B)) = Inr (Some R)"
    and "iter_ok E"
  defines "M \<equiv> topDownMatch E (heap R) (vertices B) (vertices R) empty_matching"
  shows "case match_graphs E (heap R) (vertices B) (vertices R) of
           Inl e \<Rightarrow> e = IteratorInvalidated \<and>
             (clash (heap R) LinkageSpec_isMatched LINKAGE_SPEC_LIST M \<or> clash (heap R) (Enum_isMatched E) ENUM M)
         | Inr M' \<Rightarrow> \<not> clash (heap R) LinkageSpec_isMatched LINKAGE_SPEC_LIST M \<and> \<not> clash (heap R) (Enum_isMatched E) ENUM M"
proof -
  have B: "graph_inv lo B" using build_inv [OF assms(1)] by blast
  have R: "graph_inv (next_ptr B) R" "\<forall>p < next_ptr B. heap R p = heap B p" using build_inv [OF assms(2)] by auto
  have "wf_node (heap R p)" if "p \<in> set (vertices B)" for p
  proof -
    have "lo \<le> p" "p < next_ptr B" using that graph_invD(6) [OF B] by (auto simp: in_set_conv_nth)
    with R(2) graph_invD(7) [OF B] show ?thesis by simp
  qed
  moreover have "wf_node (heap R p)" if "p \<in> set (vertices R)" for p
    using that graph_invD(6,7) [OF R(1)] by (auto simp: in_set_conv_nth)
  ultimately have "\<forall>p \<in> set (vertices B @ vertices R). wf_node (heap R p)" by auto
  from match_graphs_stops [OF assms(3) this] show ?thesis unfolding M_def .
qed

lemma build_nothing: "initLanguageServer E \<Longrightarrow> SourceList E = [] \<Longrightarrow> build E st = Inr (Some st)"
  by (simp add: build_def)

theorem built_graphs_match_witness:
  "\<exists>R. build demo_build (new_builder demo_heap 0) = Inr (Some R) \<and> length (vertices R) = 3 \<and>
       (case match_graphs demo_env (heap R) [] (vertices R) of Inl e \<Rightarrow> e = IteratorInvalidated | Inr _ \<Rightarrow> True)"
proof -
  let ?B = "new_builder demo_heap 0"
  obtain R where R: "build demo_build ?B = Inr (Some R)" "length (vertices R) = 3" using demo_build_Some by blast
  have B: "build (demo_build\<lparr>SourceList := []\<rparr>) ?B = Inr (Some ?B)"
    by (rule build_nothing) (simp_all add: demo_build_def)
  have "build demo_build (new_builder (heap ?B) (next_ptr ?B)) = Inr (Some R)" using R(1) by (simp add: new_builder_def)
  from built_graphs_match [OF B this demo_iter] R show ?thesis
    by (auto simp: new_builder_def split: sum.splits)
qed

subsection \<open>What is left out\<close>

lemma insert_changes: "insert_node P V n st = (p, d, st') \<Longrightarrow> vertices st' \<noteq> vertices st"
  by (auto simp: insert_node_def insertToGraphAndParent_def alloc_def addVertex_def addEdge_def Let_def)

lemma leaf_changes: "leaf P V k made st = Inr (st', r) \<Longrightarrow> st' \<noteq> st"
  by (auto elim!: leaf_cases dest: insert_changes)

lemma inner_changes: "inner P V c i f made st = Inr (st', r) \<Longrightarrow> st' \<noteq> st"
  by (auto elim!: inner_cases dest: insert_changes)

lemma access_changes: "parse_access P c st = Inr (st', r) \<Longrightarrow> st' \<noteq> st"
proof -
  assume "parse_access P c st = Inr (st', r)"
  then have "next_ptr st' = Suc (next_ptr st)" by (auto simp: parse_access_def alloc_def Let_def split: if_splits)
  then show ?thesis by auto
qed

definition dropped_types :: "string set" where
  "dropped_types = {''preproc_if'', ''preproc_function_def'', ''preproc_call'', ''preproc_include''}"

lemmas type_sets = CompositeTypes_def TerminalTypes_def ComplexTypes_def IsTextualNode_def dropped_types_def

text \<open>Which function a child is handed to, by its type.\<close>

lemma parse_child_by_type:
  defines "h \<equiv> \<lambda>E st P. hashSignature (be_hash E) (heap st P)"
  shows
  "node_type c = ''comment'' \<Longrightarrow> parse_child E P V C path c st = parse_comment P V C (h E st P) c st"
  "node_type c = ''function_definition'' \<Longrightarrow> parse_child E P V C path c st = parse_function E P V C (h E st P) path c st"
  "node_type c = ''template_declaration'' \<Longrightarrow> parse_child E P V C path c st = parse_template E P V C (h E st P) path c st"
  "node_type c = ''access_specifier'' \<Longrightarrow> parse_child E P V C path c st = parse_access P c st"
  "node_type c = ''namespace_definition'' \<Longrightarrow> parse_child E P V C path c st =
     inner P V c False skip_ns_comment (parseNamespaceNode E (events st) (NodeCount st) c C path) st"
  "node_type c \<in> dropped_types \<Longrightarrow> parse_child E P V C path c st = Inr (st, Next 0)"
  "node_type c \<notin> CompositeTypes \<union> TerminalTypes \<union> ComplexTypes \<Longrightarrow> parse_child E P V C path c st = Inr (st, Next 0)"
  by (auto simp: parse_child_def Let_def type_sets h_def)

lemma parse_child_textual:
  assumes "IsTextualNode (node_type c)"
  shows "parse_child E P V C path c st =
    leaf P V 0 (Inr (parseTextualNode E (NodeCount st) c C (hashSignature (be_hash E) (heap st P)) path)) st"
proof -
  have "node_type c \<in> TerminalTypes" "node_type c \<notin> CompositeTypes" using assms by (auto simp: type_sets)
  with assms show ?thesis by (simp add: parse_child_def Let_def)
qed

lemma parse_child_field:
  "node_type c = ''field_declaration'' \<or> node_type c = ''declaration'' \<Longrightarrow> \<exists>n. parse_child E P V C path c st = leaf P V 0 (Inr n) st"
  by (auto simp: parse_child_def Let_def type_sets)

lemma parse_child_complex:
  assumes "node_type c \<in> ComplexTypes"
  shows "parse_child E P V C path c st = parse_complex E P V C (hashSignature (be_hash E) (heap st P)) path c st"
proof -
  have "node_type c \<notin> TerminalTypes" "node_type c \<notin> CompositeTypes" using assms by (auto simp: type_sets)
  with assms show ?thesis by (simp add: parse_child_def Let_def)
qed

lemma sub_parsers_change:
  "parse_function E P V C h path c st = Inr (st', r) \<Longrightarrow> st' \<noteq> st"
  "parse_template E P V C h path c st = Inr (st', r) \<Longrightarrow> st' \<noteq> st"
  "parse_complex E P V C h path c st = Inr (st', r) \<Longrightarrow> st' \<noteq> st"
  "parse_comment P V C h c st = Inr (st', r) \<Longrightarrow> st' = st \<longleftrightarrow> (\<exists>k. getComment c 0 True = Inr k \<and> \<not> orphan k)"
  by (auto simp: parse_function_def parse_template_def parse_complex_def parse_comment_def Let_def
      split: option.splits sum.splits if_splits dest: leaf_changes inner_changes)

text \<open>The types of children that always change the graph.\<close>

definition kept_types :: "string set" where
  "kept_types = CompositeTypes \<union> ComplexTypes \<union> (TerminalTypes - dropped_types - {''comment''})"

lemma kept_child_changes:
  assumes "node_type c \<in> kept_types" and "parse_child E P V C path c st = Inr (st', r)"
  shows "st' \<noteq> st"
proof -
  from assms(1) consider "node_type c = ''namespace_definition''" | "IsTextualNode (node_type c)"
    | "node_type c = ''field_declaration'' \<or> node_type c = ''declaration''" | "node_type c = ''function_definition''"
    | "node_type c = ''template_declaration''" | "node_type c = ''access_specifier''" | "node_type c \<in> ComplexTypes"
    unfolding kept_types_def type_sets by auto
  then show ?thesis
    using assms(2) parse_child_field [of c E P V C path st] sub_parsers_change(1-3) leaf_changes inner_changes access_changes
    by cases (metis parse_child_by_type(2-5) parse_child_textual parse_child_complex)+
qed

text \<open>
  C24: A child of a composite node leaves no trace in the graph exactly when it is a comment that belongs to a declaration, of a type the builder
  does not know, or a conditional, an inclusion, a pragma or a function-like macro: the latter are listed as textual nodes, but no branch makes a node of
  them. So an \<^verbatim>\<open>#include\<close> or \<^verbatim>\<open>#if\<close> behind the front declarations is lost.
\<close>

theorem children_without_trace:
  assumes "parse_child E P V C path c st = Inr (st', r)"
  shows "st' = st \<longleftrightarrow>
    node_type c \<in> dropped_types \<or> node_type c \<notin> CompositeTypes \<union> TerminalTypes \<union> ComplexTypes \<or>
    is_comment c \<and> (\<exists>k. getComment c 0 True = Inr k \<and> \<not> orphan k)"
proof -
  consider (kept) "node_type c \<in> kept_types" | (comment) "is_comment c" | (dropped) "node_type c \<in> dropped_types"
    | (unknown) "node_type c \<notin> CompositeTypes \<union> TerminalTypes \<union> ComplexTypes"
    by (auto simp: kept_types_def)
  then show ?thesis
  proof cases
    case kept
    then have "node_type c \<notin> dropped_types" "\<not> is_comment c" "node_type c \<in> CompositeTypes \<union> TerminalTypes \<union> ComplexTypes"
      by (auto simp: kept_types_def type_sets)
    with kept_child_changes [OF kept assms] show ?thesis by simp
  next
    case comment
    then have "node_type c \<notin> dropped_types" "node_type c \<in> TerminalTypes" by (simp_all add: type_sets)
    with sub_parsers_change(4) assms comment show ?thesis by (simp add: parse_child_by_type(1))
  next
    case dropped
    with assms show ?thesis by (simp add: parse_child_by_type(6))
  next
    case unknown
    with assms show ?thesis by (simp add: parse_child_by_type(7))
  qed
qed

theorem children_without_trace_witness:
  "parse_child demo_build 0 0 True ''/s/a.cpp'' (children_of demo_root ! 0) (new_builder demo_heap 0) =
     Inr (new_builder demo_heap 0, Next 0) \<and> node_type (children_of demo_root ! 0) = ''preproc_include''"
proof -
  have t: "node_type (children_of demo_root ! 0) = ''preproc_include''"
    using arg_cong [OF demo_children(2), of "\<lambda>l. l ! 0"] by (simp add: demo_children(1))
  have step: "parse_child demo_build 0 0 True ''/s/a.cpp'' (children_of demo_root ! 0) (new_builder demo_heap 0) =
     Inr (new_builder demo_heap 0, Next 0)"
    by (simp add: parse_child_def Let_def t type_sets)
  with children_without_trace [OF step] t show ?thesis by (simp add: dropped_types_def)
qed

text \<open>
  The documents of a file that parses are opened and closed again in the same order, and nothing else is; when the parser gives no tree they stay
  open.
\<close>

theorem documents_opened_and_closed:
  assumes "processCppTranslationUnit E Path FilePath C st = Inr st'" and "graph_inv lo st"
  shows "events st' = events st @ map Opened (documents E FilePath st) @
    (if parse_source E (file_content E FilePath) = None then [] else map Closed (documents E FilePath st))"
  using assms(1)
proof (cases rule: processCpp_cases)
  case (2 t st1)
  from processTree_inv [OF _ 2(2), of lo] assms(2) 2 show ?thesis by simp
qed simp

theorem documents_opened_and_closed_witness:
  "\<exists>st'. processCppTranslationUnit (demo_build\<lparr>parse_source := \<lambda>_. None\<rparr>) ''a.cpp'' ''/s/a.cpp'' True (new_builder demo_heap 0) = Inr st' \<and>
         events st' = [Opened ''/s/a.cpp'']"
proof -
  let ?E = "demo_build\<lparr>parse_source := \<lambda>_. None\<rparr>"
  have "\<exists>st'. processCppTranslationUnit ?E ''a.cpp'' ''/s/a.cpp'' True (new_builder demo_heap 0) = Inr st'"
    by (simp add: processCppTranslationUnit_def demo_build_def Let_def)
  then obtain st' where st': "processCppTranslationUnit ?E ''a.cpp'' ''/s/a.cpp'' True (new_builder demo_heap 0) = Inr st'" ..
  from documents_opened_and_closed [OF this new_builder_inv] st' show ?thesis
    by (auto simp: documents_def demo_build_def new_builder_def)
qed

text \<open>
  A header in which nothing follows the leading comments, an empty one for instance, stops the builder: the search for the guard takes the child
  behind the comments, which is the null node.
\<close>

theorem header_of_comments_stops:
  assumes "node_type n = ''translation_unit''" and "IsCppHeader FilePath"
    and "\<forall>c \<in> set (children_of n). isNamed c \<and> is_comment c"
  shows "processTree E Path FilePath C n st = Inl NullNode"
proof -
  have "takeWhile (\<lambda>c. isNamed c \<and> is_comment c) (children_of n) = children_of n"
    using assms(3) by (simp only: takeWhile_eq_all_conv)
  then have "fst (getTranslationUnitComment n) = childrenCount n"
    by (simp only: getTranslationUnitComment_def tu_comment_loop_run Let_def fst_conv length_children_of add_0)
  then have "getHeaderGuard R n (fst (getTranslationUnitComment n)) n = Inl NullNode" for R
    using assms(1) by (simp add: getHeaderGuard_def child_at_children)
  with assms(1,2) show ?thesis
    by (cases "getTranslationUnitComment n") (simp add: processTree_def parseTranslationUnit_def Let_def)
qed

theorem header_of_comments_stops_witness:
  "processTree demo_build ''a.h'' ''/s/a.h'' True (root_node [] (CST ''translation_unit'' True 0 0 (at_row 0 0) (at_row 0 0) []))
     (new_builder demo_heap 0) = Inl NullNode"
  by (rule header_of_comments_stops)
    (simp_all add: root_node_def children_of_def childrenCount_def IsCppHeader_def has_extension_def)

subsection \<open>Names that are cut\<close>

text \<open>
  The words \<open>const\<close>, \<open>volatile\<close> and \<open>operator\<close> are skipped in front of a declarator even when they are the start of a longer name: the
  declarator of a member \<open>constants\<close> is \<open>ants\<close>, and members whose names differ only in such a start get the same one.
\<close>

theorem declarator_loses_prefix:
  "skip_declarator (w @ name) = skip_declarator (dropWhile isspace name)" if "w \<in> {''const'', ''volatile'', ''operator''}"
  using that by (auto simp: skip_declarator.simps [of "_ # _"] isspace_def)

theorem declarator_loses_prefix_witness:
  "skip_declarator ''constants'' = ''ants''"
  using declarator_loses_prefix [of "''const''" "''ants''"] by (simp add: skip_declarator.simps isspace_def)

text \<open>
  Of the name of a parameter type in a USR only the letters up to the first other character are kept: types such as \<open>Vec2\<close> and \<open>Vec3\<close> are the
  same parameter type.
\<close>

theorem param_types_cut:
  assumes "\<forall>c \<in> set name. isalpha c" and "\<not> isalpha d" and "d \<noteq> CHR ''@''" and "\<not> isalpha d'" and "d' \<noteq> CHR ''@''"
  shows "param_type (''@S@'' @ name @ d # rest) = param_type (''@S@'' @ name @ d' # rest')"
proof -
  let ?P = "\<lambda>c. c = CHR ''@'' \<or> isalpha c"
  have "takeWhile ?P (''@S@'' @ name @ x # r) = ''@S@'' @ name" if "\<not> isalpha x" "x \<noteq> CHR ''@''" for x r
    using assms(1) that by (subst takeWhile_append2) (auto simp: takeWhile_append2 isalpha_def isupper_def)
  with assms(2-5) show ?thesis by (simp add: param_type_def Let_def)
qed

theorem param_types_cut_witness:
  "param_type ''@S@Vec2#'' = param_type ''@S@Vec3#''"
  using param_types_cut [of "''Vec''" "CHR ''2''" "CHR ''3''" "''#''" "''#''"]
  by (simp add: isalpha_def isupper_def islower_def)

end
