(* ===== verification/Store.thy ===== *)
theory Store
  imports Conflict
begin

section \<open>The file store\<close>

text \<open>
  Models \<open>utils/fileio.cpp\<close>, the file locks of \<open>sa_utility.cpp\<close> and the operations of \<open>std::filesystem\<close> the
  service uses, on a store that maps paths to files and directories.

  A path is an absolute path without a trailing separator; \<open>bare\<close> brings the paths of the code into this form. What the
  operating system decides (permissions, how much of a buffer a call writes, whether a read fails) is the record \<open>os\<close>.
  A call of \<open>read\<close> on a file gives the next 4096 bytes or the rest, as POSIX states for regular files. Locks of
  \<open>fcntl\<close> belong to the process, so a lock never waits for another thread of this program; it is the success
  of the call.
\<close>

subsection \<open>Paths and nodes\<close>

datatype fnode = File string | Directory

type_synonym store = "string \<rightharpoonup> fnode"

record os =
  may_open :: "string \<Rightarrow> bool"
  may_mkdir :: "string \<Rightarrow> bool"
  lockable :: "string \<Rightarrow> bool"
  read_fails :: "string \<Rightarrow> nat \<Rightarrow> bool"
  written :: "string \<Rightarrow> nat \<Rightarrow> nat \<Rightarrow> nat option"

definition bare :: "string \<Rightarrow> string" where
  "bare p = (if 1 < length p \<and> last p = CHR ''/'' then butlast p else p)"

definition path_filename :: "string \<Rightarrow> string" where
  "path_filename p = (case find_last_idx (\<lambda>c. c = CHR ''/'') p of None \<Rightarrow> p | Some i \<Rightarrow> drop (Suc i) p)"

definition parent_path :: "string \<Rightarrow> string" where
  "parent_path p =
     (case find_last_idx (\<lambda>c. c = CHR ''/'') p of
        None \<Rightarrow> []
      | Some i \<Rightarrow> if i = 0 then ''/'' else take i p)"

definition fs_exists :: "store \<Rightarrow> string \<Rightarrow> bool" where
  "fs_exists st p = (st (bare p) \<noteq> None)"

text \<open>\<open>p\<close> is \<open>d\<close> or lies below it.\<close>

definition below :: "string \<Rightarrow> string \<Rightarrow> bool" where
  "below d p \<longleftrightarrow> p = d \<or> prefix (d @ ''/'') p"

text \<open>A directory as the callers pass it, a name without separators, and the path of an entry of a directory.\<close>

definition plain_name :: "string \<Rightarrow> bool" where
  "plain_name s \<longleftrightarrow> s \<noteq> [] \<and> CHR ''/'' \<notin> set s"

definition child_path :: "string \<Rightarrow> string \<Rightarrow> string" where
  "child_path d name = d @ ''/'' @ name"

definition dir_path :: "string \<Rightarrow> bool" where
  "dir_path d \<longleftrightarrow> (\<exists>r. d = CHR ''/'' # r) \<and> last d \<noteq> CHR ''/''"

lemma below_child_name:
  "plain_name n \<Longrightarrow> below (child_path d n) p \<Longrightarrow> takeWhile (\<lambda>c. c \<noteq> CHR ''/'') (drop (Suc (length d)) p) = n"
  by (auto simp: below_def child_path_def plain_name_def prefix_def takeWhile_append takeWhile_eq_all_conv)

lemma below_child: "plain_name n \<Longrightarrow> plain_name m \<Longrightarrow> below (child_path d n) p \<Longrightarrow> below (child_path d m) p \<Longrightarrow> n = m"
  by (metis below_child_name)

lemma below_refl [simp]: "below d d"
  by (simp add: below_def)

lemma below_trans: "below d q \<Longrightarrow> below q p \<Longrightarrow> below d p"
  by (auto simp: below_def prefix_def)

lemma below_child_parent: "below (child_path d n) p \<Longrightarrow> below d p"
  by (auto simp: below_def child_path_def prefix_def)

lemma below_own [simp]: "below d (child_path d n)"
  by (simp add: below_def child_path_def prefix_def)

lemma not_below_child [simp]: "\<not> below (child_path d n) d"
  by (auto simp: below_def child_path_def prefix_def dest: arg_cong [where f = length])

definition inside :: "string \<Rightarrow> string \<Rightarrow> bool" where
  "inside d p \<longleftrightarrow> prefix (d @ ''/'') p"

lemma inside_below: "inside d p \<Longrightarrow> below d p"
  by (simp add: inside_def below_def)

lemma below_child_inside: "below (child_path d n) p \<Longrightarrow> inside d p"
  by (auto simp: inside_def below_def child_path_def prefix_def)

lemma not_inside_self [simp]: "\<not> inside d d"
  by (auto simp: inside_def prefix_def dest: arg_cong [where f = length])

lemma dir_path_child: "dir_path d \<Longrightarrow> plain_name n \<Longrightarrow> dir_path (child_path d n)"
  by (auto simp: dir_path_def child_path_def plain_name_def) (metis last_in_set)

lemma bare_dir_path: "dir_path d \<Longrightarrow> bare d = d"
  by (auto simp: dir_path_def bare_def)

lemma join_child: "dir_path d \<Longrightarrow> plain_name n \<Longrightarrow> path_join d n = child_path d n"
  by (cases n; auto simp: path_join_def child_path_def dir_path_def plain_name_def starts_with_def)

lemma join_absolute: "dir_path q \<Longrightarrow> path_join d q = q"
  by (auto simp: path_join_def dir_path_def starts_with_def)

lemma last_slash: "plain_name n \<Longrightarrow> find_last_idx (\<lambda>c. c = CHR ''/'') (child_path d n) = Some (length d)"
  by (auto simp: child_path_def plain_name_def find_last_idx_append find_last_idx_None_iff split: option.splits)

lemma parent_child: "dir_path d \<Longrightarrow> plain_name n \<Longrightarrow> parent_path (child_path d n) = d"
  by (auto simp: parent_path_def last_slash) (auto simp: child_path_def dir_path_def)

lemma filename_child: "plain_name n \<Longrightarrow> path_filename (child_path d n) = n"
  by (simp add: path_filename_def last_slash) (simp add: child_path_def)

lemma child_path_eq [simp]: "child_path d n = child_path d m \<longleftrightarrow> n = m"
  by (simp add: child_path_def)

subsection \<open>Directories\<close>

datatype made = Made store | Exists | Failed

definition mkdir :: "os \<Rightarrow> store \<Rightarrow> string \<Rightarrow> made" where
  "mkdir K st p =
     (if fs_exists st p then Exists
      else if may_mkdir K (bare p) \<and> st (parent_path (bare p)) = Some Directory then Made (st(bare p \<mapsto> Directory))
      else Failed)"

text \<open>The path and its ancestors, the outermost first.\<close>

fun ancestors :: "string \<Rightarrow> string \<Rightarrow> string list" where
  "ancestors pre [] = [pre]"
| "ancestors pre (c # cs) =
     (if c = CHR ''/'' \<and> pre \<noteq> [] then pre # ancestors (pre @ [c]) cs else ancestors (pre @ [c]) cs)"

text \<open>
  \<open>fs::create_directories\<close> makes every missing directory of the path; \<^term>\<open>None\<close> is its exception, the directories
  made before it stay.
\<close>

fun make_each :: "os \<Rightarrow> string list \<Rightarrow> store \<Rightarrow> bool \<times> store" where
  "make_each K [] st = (True, st)"
| "make_each K (p # ps) st =
     (case st p of
        Some Directory \<Rightarrow> make_each K ps st
      | Some (File _) \<Rightarrow> (False, st)
      | None \<Rightarrow> if may_mkdir K p then make_each K ps (st(p \<mapsto> Directory)) else (False, st))"

definition create_directories :: "os \<Rightarrow> string \<Rightarrow> store \<Rightarrow> bool \<times> store" where
  "create_directories K p st = make_each K (ancestors [] (bare p)) st"

definition remove_all :: "string \<Rightarrow> store \<Rightarrow> store" where
  "remove_all p st = (\<lambda>q. if below (bare p) q then None else st q)"

definition remove :: "string \<Rightarrow> store \<Rightarrow> store" where
  "remove p st = st(bare p := None)"

subsection \<open>Opening, reading and writing\<close>

definition open_read :: "os \<Rightarrow> store \<Rightarrow> string \<Rightarrow> fnode option" where
  "open_read K st p = (if may_open K (bare p) then st (bare p) else None)"

definition can_create :: "os \<Rightarrow> store \<Rightarrow> string \<Rightarrow> bool" where
  "can_create K st p \<longleftrightarrow> may_open K p \<and> p \<noteq> [] \<and> last p \<noteq> CHR ''/'' \<and> st p \<noteq> Some Directory \<and> st (parent_path p) = Some Directory"

text \<open>With \<open>O_CREAT\<close> and \<open>O_TRUNC\<close>.\<close>

definition open_write :: "os \<Rightarrow> store \<Rightarrow> string \<Rightarrow> store option" where
  "open_write K st p = (if can_create K st p then Some (st(p \<mapsto> File [])) else None)"

definition io_size :: nat where "io_size = 4096"

text \<open>One call of \<open>read\<close>; \<^term>\<open>None\<close> is -1, which a directory always gives.\<close>

definition read_chunk :: "os \<Rightarrow> string \<Rightarrow> fnode \<Rightarrow> nat \<Rightarrow> string option" where
  "read_chunk K p n off =
     (case n of
        Directory \<Rightarrow> None
      | File c \<Rightarrow> if read_fails K p off then None else Some (take io_size (drop off c)))"

definition node_size :: "fnode \<Rightarrow> nat" where
  "node_size n = (case n of Directory \<Rightarrow> 0 | File c \<Rightarrow> length c)"

lemma read_chunk_progress:
  "read_chunk K p n off = Some b \<Longrightarrow> b \<noteq> [] \<Longrightarrow> node_size n - (off + length b) < node_size n - off"
  by (auto simp: read_chunk_def node_size_def io_size_def split: fnode.splits if_splits)

definition file_get_content :: "os \<Rightarrow> store \<Rightarrow> string \<Rightarrow> string" where
  "file_get_content K st p = (case open_read K st p of Some (File c) \<Rightarrow> c | _ \<Rightarrow> [])"

definition file_overwrite_content :: "os \<Rightarrow> string \<Rightarrow> string \<Rightarrow> store \<Rightarrow> store" where
  "file_overwrite_content K p content st =
     (case open_write K st p of None \<Rightarrow> st | Some st' \<Rightarrow> st'(p \<mapsto> File content))"

subsection \<open>Locked files\<close>

definition lockRDFD :: "os \<Rightarrow> store \<Rightarrow> string \<Rightarrow> fnode option" where
  "lockRDFD K st p = (case open_read K st p of None \<Rightarrow> None | Some n \<Rightarrow> if lockable K p then Some n else None)"

text \<open>The file is truncated before the lock is requested.\<close>

definition lockWRFD :: "os \<Rightarrow> string \<Rightarrow> store \<Rightarrow> bool \<times> store" where
  "lockWRFD K p st = (case open_write K st p of None \<Rightarrow> (False, st) | Some st' \<Rightarrow> (lockable K p, st'))"

text \<open>One \<open>write\<close> of a whole text, as the callers of \<open>lockWRFD\<close> do; the result tells whether all of it was written.\<close>

definition write_text :: "os \<Rightarrow> string \<Rightarrow> string \<Rightarrow> store \<Rightarrow> bool \<times> store" where
  "write_text K p content st =
     (case written K p 0 (length content) of
        None \<Rightarrow> (False, st)
      | Some m \<Rightarrow> (m = length content, st(p \<mapsto> File (take m content))))"

definition file_overwrite_content_sync :: "os \<Rightarrow> string \<Rightarrow> string \<Rightarrow> store \<Rightarrow> bool \<times> store" where
  "file_overwrite_content_sync K p content st =
     (case lockWRFD K p st of
        (False, st') \<Rightarrow> (False, st')
      | (True, st') \<Rightarrow> write_text K p content st')"

function read_loop :: "os \<Rightarrow> string \<Rightarrow> fnode \<Rightarrow> nat \<Rightarrow> string \<Rightarrow> string option" where
  "read_loop K p n off result =
     (case read_chunk K p n off of
        None \<Rightarrow> None
      | Some b \<Rightarrow> if b = [] then Some result else read_loop K p n (off + length b) (result @ b))"
  by pat_completeness auto
termination
  by (relation "measure (\<lambda>(K, p, n, off, result). node_size n - off)") (auto dest: read_chunk_progress)

declare read_loop.simps [simp del]

definition file_get_content_sync :: "os \<Rightarrow> store \<Rightarrow> string \<Rightarrow> string option" where
  "file_get_content_sync K st p = (case lockRDFD K st p of None \<Rightarrow> None | Some n \<Rightarrow> read_loop K p n 0 [])"

subsection \<open>Copying\<close>

text \<open>The loop of \<open>copy_file\<close>: a failing read ends it like the end of the file, a short write does not end it.\<close>

function copy_file_loop :: "os \<Rightarrow> string \<Rightarrow> fnode \<Rightarrow> string \<Rightarrow> nat \<Rightarrow> string \<Rightarrow> bool \<times> string" where
  "copy_file_loop K src n dst off out =
     (case read_chunk K src n off of
        None \<Rightarrow> (True, out)
      | Some b \<Rightarrow>
          if b = [] then (True, out)
          else case written K dst (length out) (length b) of
                 None \<Rightarrow> (False, out)
               | Some m \<Rightarrow> copy_file_loop K src n dst (off + length b) (out @ take m b))"
  by pat_completeness auto
termination
  by (relation "measure (\<lambda>(K, src, n, dst, off, out). node_size n - off)") (auto dest: read_chunk_progress)

declare copy_file_loop.simps [simp del]

definition copy_file :: "os \<Rightarrow> string \<Rightarrow> string \<Rightarrow> store \<Rightarrow> bool \<times> store" where
  "copy_file K source destination st =
     (case open_read K st source of
        None \<Rightarrow> (False, st)
      | Some n \<Rightarrow>
          (case mkdir K st (parent_path destination) of
             Failed \<Rightarrow> (False, st)
           | r \<Rightarrow>
               (let st1 = (case r of Made st' \<Rightarrow> st' | _ \<Rightarrow> st)
                in case open_write K st1 destination of
                     None \<Rightarrow> (False, st1)
                   | Some st2 \<Rightarrow>
                       (let (ok, out) = copy_file_loop K source n destination 0 []
                        in (ok, st2(destination \<mapsto> File out))))))"

subsection \<open>Lines of a file\<close>

text \<open>\<open>compute_offsets\<close>: the offset of every line, found in blocks of 4096 bytes.\<close>

function offsets_loop :: "string \<Rightarrow> nat \<Rightarrow> nat list" where
  "offsets_loop c off =
     (let b = take io_size (drop off c)
      in if b = [] then []
         else map (\<lambda>i. off + i + 1) (filter (\<lambda>i. b ! i = NL) [0..<length b]) @ offsets_loop c (off + length b))"
  by pat_completeness auto
termination
  by (relation "measure (\<lambda>(c, off). length c - off)") (auto simp: io_size_def)

declare offsets_loop.simps [simp del]

definition compute_offsets :: "os \<Rightarrow> store \<Rightarrow> string \<Rightarrow> nat list" where
  "compute_offsets K st p =
     (case open_read K st p of
        None \<Rightarrow> []
      | Some Directory \<Rightarrow> [0]
      | Some (File c) \<Rightarrow> 0 # offsets_loop c 0)"

text \<open>\<open>fgets\<close> with a buffer of 4096 bytes; the empty result is its null pointer at the end of the file.\<close>

definition fgets :: "string \<Rightarrow> nat \<Rightarrow> string" where
  "fgets c pos =
     (let b = take (io_size - 1) (drop pos c)
      in case find_idx (\<lambda>x. x = NL) b of None \<Rightarrow> b | Some i \<Rightarrow> take (Suc i) b)"

definition c_string :: "string \<Rightarrow> string" where
  "c_string s = takeWhile (\<lambda>x. x \<noteq> CHR 0x00) s"

datatype chunk_error = Line_zero | Uninitialised

text \<open>
  The loop of \<open>read_file_chunk\<close>. The result of \<open>fgets\<close> is not looked at: at the end of the file the buffer keeps
  the line before, or what it was at the start.
\<close>

fun lines_loop :: "string \<Rightarrow> nat \<Rightarrow> string option \<Rightarrow> nat \<Rightarrow> chunk_error + string" where
  "lines_loop c pos line 0 = Inr []"
| "lines_loop c pos line (Suc n) =
     (let s = fgets c pos; line' = (if s = [] then line else Some s)
      in case line' of
           None \<Rightarrow> Inl Uninitialised
         | Some l \<Rightarrow> map_sum id (\<lambda>r. c_string l @ r) (lines_loop c (pos + length s) line' n))"

definition read_file_chunk :: "os \<Rightarrow> store \<Rightarrow> string \<Rightarrow> nat \<Rightarrow> nat \<Rightarrow> nat list \<Rightarrow> chunk_error + string" where
  "read_file_chunk K st p start offset offsets =
     (case open_read K st p of
        None \<Rightarrow> Inr []
      | Some n \<Rightarrow>
          if start < 1 then Inl Line_zero
          else if length offsets < start then Inr []
          else lines_loop (case n of Directory \<Rightarrow> [] | File c \<Rightarrow> c) (offsets ! (start - 1)) None
                 (min offset (length offsets + 1 - start)))"

subsection \<open>The lines of a text\<close>

text \<open>The lines with their terminators, as a reference for the offsets and the blocks.\<close>

fun text_lines :: "string \<Rightarrow> string list" where
  "text_lines [] = []"
| "text_lines (x # xs) =
     (if x = NL then [x] # text_lines xs
      else case text_lines xs of [] \<Rightarrow> [[x]] | l # ls \<Rightarrow> (x # l) # ls)"

lemma concat_text_lines [simp]: "concat (text_lines c) = c"
  by (induction c) (auto split: list.splits)

lemma text_lines_Nil [simp]: "text_lines c = [] \<longleftrightarrow> c = []"
  by (cases c) (auto split: list.splits)

text \<open>Where a line starts.\<close>

definition nl_ends :: "string \<Rightarrow> nat list" where
  "nl_ends c = map Suc (filter (\<lambda>i. c ! i = NL) [0..<length c])"

lemma nl_ends_Nil [simp]: "nl_ends [] = []"
  by (simp add: nl_ends_def)

lemma nl_ends_append: "nl_ends (a @ b) = nl_ends a @ map ((+) (length a)) (nl_ends b)"
proof -
  have "[0..<length a + length b] = [0..<length a] @ map (\<lambda>i. i + length a) [0..<length b]"
    using upt_add_eq_append [of 0 "length a" "length b"] map_add_upt [of "length a" "length b"] by (simp add: add.commute)
  then show ?thesis
    by (simp add: nl_ends_def filter_map o_def nth_append add.commute) (auto intro: filter_cong)
qed

lemma nl_ends_Cons: "nl_ends (x # xs) = (if x = NL then [1] else []) @ map Suc (nl_ends xs)"
  using nl_ends_append [of "[x]" xs] by (simp add: nl_ends_def)

lemma offsets_loop_ends: "offsets_loop c off = map ((+) off) (nl_ends (drop off c))"
proof (induction c off rule: offsets_loop.induct)
  case (1 c off)
  let ?b = "take io_size (drop off c)"
  show ?case
  proof (cases "?b = []")
    case True
    then show ?thesis by (subst offsets_loop.simps) (simp add: io_size_def)
  next
    case False
    have split: "drop off c = ?b @ drop (off + length ?b) c"
      by (simp add: drop_eq_Nil min_def flip: drop_drop) (metis add.commute append_take_drop_id drop_drop)
    have "offsets_loop c off = map ((+) off) (nl_ends ?b) @ offsets_loop c (off + length ?b)"
      using False by (subst offsets_loop.simps) (simp add: nl_ends_def Let_def)
    also have "\<dots> = map ((+) off) (nl_ends ?b @ map ((+) (length ?b)) (nl_ends (drop (off + length ?b) c)))"
      using 1 [OF refl False] by (simp add: add.assoc)
    also have "\<dots> = map ((+) off) (nl_ends (drop off c))"
      by (subst (4) split) (simp only: nl_ends_append)
    finally show ?thesis .
  qed
qed

fun starts :: "nat \<Rightarrow> string list \<Rightarrow> nat list" where
  "starts n [] = []"
| "starts n (l # ls) = n # starts (n + length l) ls"

lemma length_starts [simp]: "length (starts n ls) = length ls"
  by (induction ls arbitrary: n) auto

lemma nth_starts: "k < length ls \<Longrightarrow> starts n ls ! k = n + length (concat (take k ls))"
  by (induction ls arbitrary: n k) (auto simp: nth_Cons' take_Cons' split: nat.splits)

lemma starts_nl_ends:
  "n # map ((+) n) (nl_ends c) =
   starts n (text_lines c) @ (if c = [] \<or> last c = NL then [n + length c] else [])"
proof (induction c arbitrary: n)
  case (Cons x xs)
  show ?case
  proof (cases "x = NL \<or> xs = []")
    case True
    then show ?thesis using Cons [of "Suc n"] by (auto simp: nl_ends_Cons o_def)
  next
    case False
    then obtain l ls where "text_lines xs = l # ls" by (cases "text_lines xs") auto
    then show ?thesis using Cons [of "Suc n"] False by (simp add: nl_ends_Cons o_def)
  qed
qed simp

lemma compute_offsets_starts:
  assumes "open_read K st p = Some (File c)"
  shows "compute_offsets K st p = starts 0 (text_lines c) @ (if c = [] \<or> last c = NL then [length c] else [])"
  using assms starts_nl_ends [of 0 c] by (simp add: compute_offsets_def offsets_loop_ends id_def)

subsection \<open>Reading lines\<close>

lemma first_line:
  "text_lines s = l # ls \<Longrightarrow>
   find_idx (\<lambda>x. x = NL) s = None \<and> l = s \<and> ls = [] \<or>
   (\<exists>i. find_idx (\<lambda>x. x = NL) s = Some i \<and> i < length s \<and> l = take (Suc i) s \<and> text_lines (drop (Suc i) s) = ls)"
  by (induction s arbitrary: l) (auto split: if_splits list.splits)

lemma find_idx_take: "find_idx P (take m s) = (case find_idx P s of Some i \<Rightarrow> if i < m then Some i else None | None \<Rightarrow> None)"
  by (induction s arbitrary: m) (auto simp: take_Cons' split: option.splits)

lemma fgets_line:
  assumes "text_lines (drop pos c) = l # ls" and "length l < io_size"
  shows "fgets c pos = l \<and> l \<noteq> [] \<and> text_lines (drop (pos + length l) c) = ls"
  using first_line [OF assms(1)] assms
  by (auto simp: fgets_def find_idx_take Let_def add.commute split: option.splits)

lemma text_lines_drop: "text_lines (drop (length (concat (take k (text_lines s)))) s) = drop k (text_lines s)"
proof (induction k arbitrary: s)
  case (Suc k)
  show ?case
  proof (cases "text_lines s")
    case (Cons l ls)
    then have l: "text_lines (drop (length l) s) = ls" using first_line [OF Cons] by auto
    then show ?thesis using Suc.IH [of "drop (length l) s"] Cons by (simp add: add.commute)
  qed simp
qed simp

lemma take_min: "take (min n (length xs)) xs = take n xs"
  by (simp add: min_def)

lemma fgets_end: "drop pos c = [] \<Longrightarrow> fgets c pos = []"
  by (simp add: fgets_def)

lemma c_string_id: "CHR 0x00 \<notin> set s \<Longrightarrow> c_string s = s"
  by (simp add: c_string_def takeWhile_eq_all_conv) metis

text \<open>Lines that fit the buffer are read one after the other; one step behind the last one repeats it.\<close>

lemma lines_loop_lines:
  assumes "\<forall>l \<in> set (text_lines (drop pos c)). length l < io_size" and "CHR 0x00 \<notin> set c"
    and "n \<le> length (text_lines (drop pos c))"
  shows "lines_loop c pos line n = Inr (concat (take n (text_lines (drop pos c))))"
  using assms
proof (induction n arbitrary: pos line)
  case (Suc n)
  then obtain l ls where t: "text_lines (drop pos c) = l # ls" by (cases "text_lines (drop pos c)") auto
  have f: "fgets c pos = l" "l \<noteq> []" "text_lines (drop (pos + length l) c) = ls" using fgets_line [OF t] Suc.prems t by auto
  have "set l \<subseteq> set c" using t concat_text_lines [of "drop pos c"] by (metis Un_iff concat.simps(2) set_append set_drop_subset subset_iff)
  then have "c_string l = l" using Suc.prems(2) by (auto intro: c_string_id)
  then show ?case using Suc.IH [of "pos + length l" "Some l"] Suc.prems t f by simp
qed simp

lemma lines_loop_beyond:
  assumes "\<forall>l \<in> set (text_lines (drop pos c)). length l < io_size" and "CHR 0x00 \<notin> set c"
    and "text_lines (drop pos c) = l # ls"
  shows "lines_loop c pos line (Suc (length (l # ls))) = Inr (concat (l # ls) @ last (l # ls))"
  using assms
proof (induction ls arbitrary: pos line l)
  case (Cons l' ls)
  have f: "fgets c pos = l" "l \<noteq> []" "text_lines (drop (pos + length l) c) = l' # ls" using fgets_line [OF Cons.prems(3)] Cons.prems by auto
  have "set l \<subseteq> set c" using Cons.prems(3) concat_text_lines [of "drop pos c"] by (metis Un_iff concat.simps(2) set_append set_drop_subset subset_iff)
  then have "c_string l = l" using Cons.prems(2) by (auto intro: c_string_id)
  then show ?case using Cons.IH [of "pos + length l" l' "Some l"] Cons.prems f by simp
next
  case Nil
  have f: "fgets c pos = l" "l \<noteq> []" "text_lines (drop (pos + length l) c) = []" using fgets_line [OF Nil(3)] Nil by auto
  have "set l \<subseteq> set c" using Nil(3) concat_text_lines [of "drop pos c"] by (metis Un_iff concat.simps(2) set_append set_drop_subset subset_iff)
  then have "c_string l = l" using Nil(2) by (auto intro: c_string_id)
  moreover have "fgets c (pos + length l) = []" using f(3) by (simp add: fgets_end)
  ultimately show ?case using f by simp
qed

subsection \<open>Reading and copying without faults\<close>

definition reads_well :: "os \<Rightarrow> string \<Rightarrow> bool" where
  "reads_well K p \<longleftrightarrow> (\<forall>off. \<not> read_fails K p off)"

definition writes_well :: "os \<Rightarrow> string \<Rightarrow> bool" where
  "writes_well K p \<longleftrightarrow> (\<forall>off n. written K p off n = Some n)"

lemma read_chunk_well: "reads_well K p \<Longrightarrow> read_chunk K p (File c) off = Some (take io_size (drop off c))"
  by (simp add: reads_well_def read_chunk_def)

lemma chunk_Nil: "take io_size xs = [] \<longleftrightarrow> xs = []"
  by (simp add: io_size_def)

lemma chunk_rest: "b = take io_size (drop off c) \<Longrightarrow> b @ drop (off + length b) c = drop off c"
  by (metis add.commute append_eq_conv_conj append_take_drop_id drop_drop)

lemma read_loop_well: "reads_well K p \<Longrightarrow> read_loop K p (File c) off acc = Some (acc @ drop off c)"
proof (induction K p "File c" off acc rule: read_loop.induct)
  case (1 K p off acc)
  obtain b where b: "b = take io_size (drop off c)" by blast
  have r: "read_chunk K p (File c) off = Some b" using 1 b by (simp add: read_chunk_well)
  show ?case
  proof (cases "b = []")
    case True
    then show ?thesis using b r by (subst read_loop.simps) (simp add: io_size_def)
  next
    case False
    then show ?thesis using 1 r chunk_rest [OF b] by (subst read_loop.simps) simp
  qed
qed

lemma copy_file_loop_well:
  "reads_well K src \<Longrightarrow> writes_well K dst \<Longrightarrow>
   copy_file_loop K src (File c) dst off out = (True, out @ drop off c)"
proof (induction K src "File c" dst off out rule: copy_file_loop.induct)
  case (1 K src dst off out)
  obtain b where b: "b = take io_size (drop off c)" by blast
  have r: "read_chunk K src (File c) off = Some b" using 1 b by (simp add: read_chunk_well)
  have w: "written K dst (length out) (length b) = Some (length b)" using 1 by (simp add: writes_well_def)
  show ?case
  proof (cases "b = []")
    case True
    then show ?thesis using b r by (subst copy_file_loop.simps) (simp add: io_size_def)
  next
    case False
    have "copy_file_loop K src (File c) dst (off + length b) (out @ b) = (True, (out @ b) @ drop (off + length b) c)"
      using 1(1) [OF r False w] 1(2,3) by simp
    then show ?thesis using r w False chunk_rest [OF b] by (subst copy_file_loop.simps) simp
  qed
qed

lemma file_overwrite_content_sync_ok:
  "file_overwrite_content_sync K p content st = (True, st') \<Longrightarrow> st' = st(p \<mapsto> File content)"
  by (auto simp: file_overwrite_content_sync_def lockWRFD_def write_text_def open_write_def
           split: option.splits prod.splits bool.splits if_splits)

lemma file_overwrite_content_sync_well:
  "can_create K st p \<Longrightarrow> lockable K p \<Longrightarrow> writes_well K p \<Longrightarrow>
   file_overwrite_content_sync K p content st = (True, st(p \<mapsto> File content))"
  by (simp add: file_overwrite_content_sync_def lockWRFD_def write_text_def open_write_def writes_well_def)

lemma file_overwrite_content_sync_other:
  "file_overwrite_content_sync K p content st = (ok, st') \<Longrightarrow> q \<noteq> p \<Longrightarrow> st' q = st q"
  by (auto simp: file_overwrite_content_sync_def lockWRFD_def write_text_def open_write_def
           split: option.splits prod.splits bool.splits if_splits)

lemma make_each_keeps: "make_each K ps st = (ok, st') \<Longrightarrow> st p = Some n \<Longrightarrow> st' p = Some n"
  by (induction ps arbitrary: st) (force split: option.splits fnode.splits if_splits)+

lemma make_each_other: "make_each K ps st = (ok, st') \<Longrightarrow> q \<notin> set ps \<Longrightarrow> st' q = st q"
  by (induction ps arbitrary: st) (auto split: option.splits fnode.splits if_splits)

lemma make_each_makes: "make_each K ps st = (True, st') \<Longrightarrow> p \<in> set ps \<Longrightarrow> st' p = Some Directory"
  by (induction ps arbitrary: st) (auto dest: make_each_keeps split: option.splits fnode.splits if_splits)

lemma make_each_new: "make_each K ps st = (ok, st') \<Longrightarrow> st' q = st q \<or> st q = None \<and> st' q = Some Directory"
proof (induction ps arbitrary: st)
  case (Cons a ps)
  then show ?case using Cons.IH [of st] Cons.IH [of "st(a \<mapsto> Directory)"]
    by (cases "q = a"; cases "st a") (fastforce split: fnode.splits if_splits)+
qed simp

lemma ancestors_self: "pre @ s \<in> set (ancestors pre s)"
proof (induction s arbitrary: pre)
  case (Cons c cs)
  then show ?case using Cons.IH [of "pre @ [c]"] by auto
qed simp

lemma ancestors_prefix: "q \<in> set (ancestors pre s) \<Longrightarrow> prefix pre q \<and> prefix q (pre @ s)"
  by (induction s arbitrary: pre) (fastforce simp: prefix_def split: if_splits)+

subsection \<open>Theorems\<close>

definition demo_os :: os where
  "demo_os = \<lparr>may_open = \<lambda>_. True, may_mkdir = \<lambda>_. True, lockable = \<lambda>_. True,
     read_fails = \<lambda>_ _. False, written = \<lambda>_ _ n. Some n\<rparr>"

lemma demo_os_well [simp]: "reads_well demo_os p" "writes_well demo_os p" "may_open demo_os p" "may_mkdir demo_os p" "lockable demo_os p"
  by (simp_all add: demo_os_def reads_well_def writes_well_def)

text \<open>
  Reading lines by the computed offsets gives exactly the lines asked for that exist, as long as no line is longer than the
  buffer; but when the text ends with a line end and more lines are asked for than there are, the last line comes twice.
\<close>

theorem read_file_chunk_lines:
  assumes "open_read K st p = Some (File c)"
    and "\<forall>l \<in> set (text_lines c). length l < 4096" and "CHR 0x00 \<notin> set c"
    and "1 \<le> start" and "start \<le> length (text_lines c)"
  shows "read_file_chunk K st p start n (compute_offsets K st p) =
    Inr (concat (take n (drop (start - 1) (text_lines c))) @
         (if last c = NL \<and> length (text_lines c) < start + n - 1 then last (text_lines c) else []))"
proof -
  let ?ls = "text_lines c" and ?k = "start - 1"
  let ?off = "length (concat (take ?k ?ls))" and ?e = "if last c = NL then [length c] else []"
  have c: "c \<noteq> []" using assms(4,5) by auto
  have offs: "compute_offsets K st p = starts 0 ?ls @ ?e" using compute_offsets_starts [OF assms(1)] c by simp
  have k: "?k < length ?ls" using assms(4,5) by simp
  then have nth: "(starts 0 ?ls @ ?e) ! ?k = ?off" by (simp add: nth_append nth_starts)
  have rest: "text_lines (drop ?off c) = drop ?k ?ls" by (rule text_lines_drop)
  then obtain l ls where t: "text_lines (drop ?off c) = l # ls" using k by (cases "drop ?k ?ls") auto
  have short: "\<forall>l \<in> set (text_lines (drop ?off c)). length l < io_size"
    using assms(2) rest by (auto simp: io_size_def dest: in_set_dropD)
  let ?m = "min n (length (starts 0 ?ls @ ?e) + 1 - start)"
  have r: "read_file_chunk K st p start n (compute_offsets K st p) = lines_loop c ?off None ?m"
    using assms(1,4) k nth by (simp add: read_file_chunk_def offs)
  show ?thesis
  proof (cases "last c = NL \<and> length ?ls < start + n - 1")
    case True
    have d: "drop ?k ?ls = l # ls" using rest t by simp
    have len: "length (l # ls) = length ?ls - ?k" using d by (metis length_drop)
    have m: "?m = Suc (length (l # ls))" using True len assms(4,5) by (simp add: min_def) arith
    have "length ?ls - ?k \<le> n" using True assms(4,5) by arith
    then have "take n (drop ?k ?ls) = drop ?k ?ls" by (intro take_all) simp
    moreover have "last (l # ls) = last ?ls" using d k by (metis last_drop)
    ultimately show ?thesis
      unfolding r m lines_loop_beyond [OF short assms(3) t] d using True by (simp del: last.simps)
  next
    case False
    have "?m = min n (length (drop ?k ?ls)) \<or> ?m = n \<and> n \<le> length (drop ?k ?ls)"
      using False assms(4,5) by auto
    then have m: "?m \<le> length (drop ?k ?ls)" "take n (drop ?k ?ls) = take ?m (drop ?k ?ls)"
      using take_min by (metis min.cobounded2, metis)
    have "lines_loop c ?off None ?m = Inr (concat (take ?m (drop ?k ?ls)))"
      using lines_loop_lines [OF short assms(3), of ?m None] m(1) by (simp only: rest)
    then show ?thesis unfolding r by (simp only: m(2) [symmetric] if_not_P [OF False] append_Nil2)
  qed
qed

theorem read_file_chunk_lines_witness:
  "read_file_chunk demo_os [''/f'' \<mapsto> File ([CHR ''a'', NL, CHR ''b'', NL])] ''/f'' 2 3
     (compute_offsets demo_os [''/f'' \<mapsto> File [CHR ''a'', NL, CHR ''b'', NL]] ''/f'') = Inr [CHR ''b'', NL, CHR ''b'', NL]"
proof -
  let ?st = "[''/f'' \<mapsto> File [CHR ''a'', NL, CHR ''b'', NL]]"
  have o: "open_read demo_os ?st ''/f'' = Some (File [CHR ''a'', NL, CHR ''b'', NL])" by (simp add: open_read_def bare_def)
  show ?thesis using read_file_chunk_lines [OF o, of 2 3] by simp
qed

end
