(* ===== verification/GitService.thy ===== *)
theory GitService
  imports Store
begin

section \<open>The git service\<close>

text \<open>
  Models \<open>utils/gitservice.cpp\<close> up to the merge of texts, which is with the graph merging: opening a repository, resolving hashes and
  revisions, the lists of changed sources, and writing the tree of a commit into a directory.

  libgit2 is the record \<open>git_lib\<close>: a repository gives the object of a hash and the object a revision names, and a tree is the data
  \<open>tree_entry\<close>. The parallel loops over the entries of a tree are sequential here; entries of one tree have different names and
  write to different paths.
\<close>

subsection \<open>Data\<close>

text \<open>A subtree or a blob has a flag that tells whether looking it up succeeds; the other flag of a blob marks a symbolic link.\<close>

datatype tree_entry =
    Tree_entry string bool "tree_entry list"
  | Blob_entry string bool bool string
  | Other_entry string

datatype git_object = Commit "tree_entry list option" | Tag "string option" | Other_object

datatype delta_type = UNMODIFIED | ADDED | DELETED | MODIFIED | RENAMED | COPIED | IGNORED | UNTRACKED | TYPECHANGE | UNREADABLE | CONFLICTED

record SimplifiedDiffDelta =
  OldPath :: string
  NewPath :: string
  Type :: delta_type
  Similarity :: nat

record repository =
  object_of :: "string \<Rightarrow> git_object option"
  revparse :: "string \<Rightarrow> string option"
  tree_diff :: "tree_entry list \<Rightarrow> tree_entry list \<Rightarrow> SimplifiedDiffDelta list option"
  find_similar :: "SimplifiedDiffDelta list \<Rightarrow> SimplifiedDiffDelta list"

text \<open>\<open>link\<close> creates a symbolic link with the first path as its target: the node the second path leads to, or its failure.\<close>

record git_lib =
  open_bare :: "string \<Rightarrow> repository option"
  link :: "string \<Rightarrow> string \<Rightarrow> fnode option"

subsection \<open>Repositories and hashes\<close>

definition is_cpp_file :: "string \<Rightarrow> bool" where
  "is_cpp_file path =
     (case find_last_idx (\<lambda>c. c = CHR ''.'') path of
        None \<Rightarrow> False
      | Some pos \<Rightarrow> drop pos path \<in> set [''.h'', ''.hpp'', ''.c'', ''.cc'', ''.cp'', ''.C'', ''.cxx'', ''.cpp'', ''.c++''])"

definition GitRepository_create :: "git_lib \<Rightarrow> string \<Rightarrow> repository option" where
  "GitRepository_create G project_path =
     open_bare G (if ends_with project_path ''.git'' then project_path else path_join project_path ''.git'')"

definition corresponding_commit_hash :: "repository \<Rightarrow> string \<Rightarrow> string" where
  "corresponding_commit_hash r hash =
     (case object_of r hash of
        None \<Rightarrow> []
      | Some (Tag None) \<Rightarrow> []
      | Some (Tag (Some target)) \<Rightarrow> target
      | Some _ \<Rightarrow> hash)"

text \<open>The commit, as its tree; \<^term>\<open>Some None\<close> is a commit whose tree cannot be read.\<close>

definition lookupCommit :: "repository \<Rightarrow> string \<Rightarrow> tree_entry list option option" where
  "lookupCommit r hash = (case object_of r hash of Some (Commit t) \<Rightarrow> Some t | _ \<Rightarrow> None)"

text \<open>\<^term>\<open>Inl ()\<close>: the pointer to a repository that could not be opened is dereferenced.\<close>

definition commit_hash_of_rev :: "git_lib \<Rightarrow> string \<Rightarrow> string \<Rightarrow> unit + string option" where
  "commit_hash_of_rev G revision project_path =
     (case GitRepository_create G project_path of
        None \<Rightarrow> Inl ()
      | Some r \<Rightarrow> Inr (map_option (corresponding_commit_hash r) (revparse r revision)))"

definition git_merge_base :: "(string \<Rightarrow> exec_error + string) \<Rightarrow> string \<Rightarrow> string \<Rightarrow> string \<Rightarrow> string option" where
  "git_merge_base exec our their project_path =
     (case exec (''(cd '' @ project_path @ '' && git merge-base '' @ our @ '' '' @ their @ '')'') of
        Inl _ \<Rightarrow> None
      | Inr base \<Rightarrow> if length base = 40 then Some base else None)"

text \<open>
  The two lists of changed sources, empty after an error. The results of the lookups of the commits are overwritten before they are
  looked at, so an unknown commit is a null pointer that is dereferenced: \<^term>\<open>Inl ()\<close>.
\<close>

definition deltas_between :: "git_lib \<Rightarrow> string \<Rightarrow> string \<Rightarrow> string \<Rightarrow> unit + (repository \<times> SimplifiedDiffDelta list) option" where
  "deltas_between G repo_path old new =
     (case open_bare G repo_path of
        None \<Rightarrow> Inr None
      | Some r \<Rightarrow>
          (case lookupCommit r old of
             None \<Rightarrow> Inl ()
           | Some None \<Rightarrow> Inr None
           | Some (Some t1) \<Rightarrow>
               (case lookupCommit r new of
                  None \<Rightarrow> Inl ()
                | Some None \<Rightarrow> Inr None
                | Some (Some t2) \<Rightarrow> Inr (map_option (Pair r) (tree_diff r t1 t2)))))"

definition fill_diff_set :: "SimplifiedDiffDelta list \<Rightarrow> SimplifiedDiffDelta set" where
  "fill_diff_set ds = set (filter (\<lambda>d. is_cpp_file (NewPath d)) ds)"

definition list_cpp_diff_files :: "git_lib \<Rightarrow> string \<Rightarrow> string \<Rightarrow> string \<Rightarrow> unit + SimplifiedDiffDelta set" where
  "list_cpp_diff_files G repo_path old new =
     map_sum id (\<lambda>d. case d of None \<Rightarrow> {} | Some (r, ds) \<Rightarrow> fill_diff_set (find_similar r ds))
       (deltas_between G repo_path old new)"

text \<open>\<open>insert\<close> of \<open>std::unordered_map\<close> keeps the first value of a key.\<close>

fun fill_diff_map :: "SimplifiedDiffDelta list \<Rightarrow> (string \<rightharpoonup> string) \<Rightarrow> (string \<rightharpoonup> string)" where
  "fill_diff_map [] m = m"
| "fill_diff_map (d # ds) m =
     fill_diff_map ds (if is_cpp_file (NewPath d) \<and> m (OldPath d) = None then m(OldPath d \<mapsto> NewPath d) else m)"

definition get_cpp_diff_mapping :: "git_lib \<Rightarrow> string \<Rightarrow> string \<Rightarrow> string \<Rightarrow> unit + (string \<rightharpoonup> string)" where
  "get_cpp_diff_mapping G repo_path old new =
     map_sum id (\<lambda>d. case d of None \<Rightarrow> Map.empty | Some (r, ds) \<Rightarrow> fill_diff_map ds Map.empty)
       (deltas_between G repo_path old new)"

subsection \<open>Writing a tree\<close>

text \<open>
  \<open>dump_tree_entry\<close> returns a number its callers do not look at. For the entries of a subtree the path of the subtree is passed as
  \<open>root\<close> while \<open>dest\<close> stays, and joining an absolute path replaces \<open>dest\<close>.
\<close>

fun dump_tree_entry :: "os \<Rightarrow> git_lib \<Rightarrow> string \<Rightarrow> string \<Rightarrow> tree_entry \<Rightarrow> store \<Rightarrow> int \<times> store"
  and dump_entries :: "os \<Rightarrow> git_lib \<Rightarrow> string \<Rightarrow> string \<Rightarrow> tree_entry list \<Rightarrow> store \<Rightarrow> store" where
  "dump_tree_entry K G dest rt (Tree_entry name found es) st =
     (let dest_path = path_join dest (path_join rt name)
      in case (if fs_exists st dest_path then Made st else mkdir K st dest_path) of
           Made st1 \<Rightarrow> if found then (0, dump_entries K G dest dest_path es st1) else (-3, st1)
         | _ \<Rightarrow> (-1, st))"
| "dump_tree_entry K G dest rt (Blob_entry name found is_link content) st =
     (let dest_path = path_join dest (path_join rt name)
      in if fs_exists st dest_path then (1, st)
         else if \<not> found then (-3, st)
         else if is_link then
           (case link G content dest_path of None \<Rightarrow> (1, st) | Some n \<Rightarrow> (0, st(dest_path \<mapsto> n)))
         else (case open_write K st dest_path of
                 None \<Rightarrow> (-1, st)
               | Some st1 \<Rightarrow> (let (ok, st2) = write_text K dest_path content st1 in (if ok then 0 else -1, st2))))"
| "dump_tree_entry K G dest rt (Other_entry name) st = (1, st)"
| "dump_entries K G dest rt [] st = st"
| "dump_entries K G dest rt (e # es) st = dump_entries K G dest rt es (snd (dump_tree_entry K G dest rt e st))"

text \<open>\<^term>\<open>None\<close>: \<open>create_directories\<close> throws.\<close>

definition dump_tree_object_to :: "os \<Rightarrow> git_lib \<Rightarrow> string \<Rightarrow> string \<Rightarrow> string \<Rightarrow> store \<Rightarrow> bool option \<times> store" where
  "dump_tree_object_to K G dest hash repo_path st =
     (if fs_exists st dest \<and> st (bare dest) \<noteq> Some Directory then (Some False, st)
      else case create_directories K dest st of
        (False, st1) \<Rightarrow> (None, st1)
      | (True, st1) \<Rightarrow>
          (case GitRepository_create G repo_path of
             None \<Rightarrow> (Some False, st1)
           | Some r \<Rightarrow>
               (case lookupCommit r (corresponding_commit_hash r hash) of
                  Some (Some es) \<Rightarrow> (Some True, dump_entries K G dest [] es st1)
                | _ \<Rightarrow> (Some False, st1))))"

subsection \<open>Where the entries of a tree go\<close>

fun entry_name :: "tree_entry \<Rightarrow> string" where
  "entry_name (Tree_entry name _ _) = name"
| "entry_name (Blob_entry name _ _ _) = name"
| "entry_name (Other_entry name) = name"

text \<open>Trees all of whose objects can be read, without symbolic links and submodules.\<close>

fun intact :: "tree_entry \<Rightarrow> bool" where
  "intact (Tree_entry name found es) \<longleftrightarrow>
     plain_name name \<and> found \<and> list_all intact es \<and> distinct (map entry_name es)"
| "intact (Blob_entry name found is_link content) \<longleftrightarrow> plain_name name \<and> found \<and> \<not> is_link"
| "intact (Other_entry name) \<longleftrightarrow> False"

text \<open>The files of a tree with their paths.\<close>

fun tree_files :: "string \<Rightarrow> tree_entry \<Rightarrow> (string \<times> string) list" where
  "tree_files d (Tree_entry name found es) = concat (map (tree_files (child_path d name)) es)"
| "tree_files d (Blob_entry name found is_link content) = [(child_path d name, content)]"
| "tree_files d (Other_entry name) = []"


lemma tree_files_below: "(p, c) \<in> set (tree_files d e) \<Longrightarrow> below (child_path d (entry_name e)) p"
proof (induction d e rule: tree_files.induct)
  case (1 d name found es)
  then show ?case by (auto intro: below_child_parent)
qed auto


subsection \<open>What a dump writes\<close>

fun plain_tree :: "tree_entry \<Rightarrow> bool" where
  "plain_tree (Tree_entry name found es) \<longleftrightarrow> plain_name name \<and> list_all plain_tree es"
| "plain_tree (Blob_entry name found is_link content) \<longleftrightarrow> plain_name name"
| "plain_tree (Other_entry name) \<longleftrightarrow> plain_name name"

lemma plain_tree_name: "plain_tree e \<Longrightarrow> plain_name (entry_name e)"
  by (cases e) auto

lemma intact_plain_tree: "intact e \<Longrightarrow> plain_tree e"
  by (induction e rule: intact.induct) (auto simp: list_all_iff)

text \<open>The entries of the directory \<open>b\<close> are written for this pair of arguments.\<close>

definition places :: "string \<Rightarrow> string \<Rightarrow> string \<Rightarrow> bool" where
  "places dest rt b \<longleftrightarrow> dir_path b \<and> (\<forall>n. plain_name n \<longrightarrow> path_join dest (path_join rt n) = child_path b n)"

lemma places_top: "dir_path d \<Longrightarrow> places d [] d"
  by (auto simp: places_def path_join_def [of "[]"] plain_name_def starts_with_def dest: join_child [unfolded plain_name_def])

lemma places_below: "dir_path b \<Longrightarrow> places dest b b"
  by (simp add: places_def join_child join_absolute dir_path_child)

lemma places_path: "places dest rt b \<Longrightarrow> plain_name n \<Longrightarrow> path_join dest (path_join rt n) = child_path b n"
  by (simp add: places_def)

lemma places_sub: "places dest rt b \<Longrightarrow> plain_name n \<Longrightarrow> places dest (child_path b n) (child_path b n)"
  by (intro places_below dir_path_child) (auto simp: places_def)

lemma dump_frame:
  fixes e :: tree_entry and es :: "tree_entry list"
  shows "plain_tree e \<Longrightarrow> places dest rt b \<Longrightarrow> \<not> below (child_path b (entry_name e)) p \<Longrightarrow>
      snd (dump_tree_entry K G dest rt e st) p = st p"
    and "list_all plain_tree es \<Longrightarrow> places dest rt b \<Longrightarrow> (\<And>e. e \<in> set es \<Longrightarrow> \<not> below (child_path b (entry_name e)) p) \<Longrightarrow>
      dump_entries K G dest rt es st p = st p"
proof (induction K G dest rt e st and K G dest rt es st arbitrary: b and b rule: dump_tree_entry_dump_entries.induct)
  case (1 K G dest rt name found es st)
  let ?q = "child_path b name"
  have n: "plain_name name" and q: "path_join dest (path_join rt name) = ?q" "p \<noteq> ?q"
    using 1(2-4) by (auto simp: places_path)
  have bq: "bare ?q = ?q" using 1(3) n by (auto simp: places_def bare_dir_path dir_path_child)
  have sub: "dump_entries K G dest ?q es st1 p = st1 p" if "(if fs_exists st ?q then Made st else mkdir K st ?q) = Made st1" "found" for st1
    using 1(1) [of ?q st1 ?q] that q 1(2) places_sub [OF 1(3) n] 1(4) below_child_parent by (auto simp: list_all_iff)
  show ?case
    using sub q(2) by (auto simp: Let_def q(1) mkdir_def bq split: made.splits)
next
  case (2 K G dest rt name found is_link content st)
  then show ?case by (auto simp: Let_def open_write_def write_text_def places_path split: option.splits prod.splits)
next
  case (5 K G dest rt e es st)
  then show ?case by simp
qed auto

definition faultless :: "os \<Rightarrow> bool" where
  "faultless K \<longleftrightarrow> (\<forall>p. may_open K p \<and> may_mkdir K p \<and> lockable K p \<and> reads_well K p \<and> writes_well K p)"

lemma dump_writes:
  fixes e :: tree_entry and es :: "tree_entry list"
  shows "faultless K \<Longrightarrow> intact e \<Longrightarrow> places dest rt b \<Longrightarrow> st b = Some Directory \<Longrightarrow>
      (\<And>p. below (child_path b (entry_name e)) p \<Longrightarrow> st p = None) \<Longrightarrow> (p, c) \<in> set (tree_files b e) \<Longrightarrow>
      snd (dump_tree_entry K G dest rt e st) p = Some (File c)"
    and "faultless K \<Longrightarrow> list_all intact es \<Longrightarrow> distinct (map entry_name es) \<Longrightarrow> places dest rt b \<Longrightarrow> st b = Some Directory \<Longrightarrow>
      (\<And>e p. e \<in> set es \<Longrightarrow> below (child_path b (entry_name e)) p \<Longrightarrow> st p = None) \<Longrightarrow>
      (p, c) \<in> set (concat (map (tree_files b) es)) \<Longrightarrow> dump_entries K G dest rt es st p = Some (File c)"
proof (induction K G dest rt e st and K G dest rt es st arbitrary: b and b rule: dump_tree_entry_dump_entries.induct)
  case (1 K G dest rt name found es st)
  let ?q = "child_path b name"
  have n: "plain_name name" and q: "path_join dest (path_join rt name) = ?q" using 1(3,4) by (auto simp: places_path)
  have d: "dir_path b" "dir_path ?q" using 1(4) n by (auto simp: places_def dir_path_child)
  have new: "st ?q = None" using 1(6) [of ?q] by simp
  let ?st = "st(?q \<mapsto> Directory)"
  have made: "mkdir K st ?q = Made ?st" and ne: "\<not> fs_exists st ?q"
    using 1(2,5) new by (simp_all add: mkdir_def fs_exists_def bare_dir_path d parent_child n faultless_def)
  have "dump_entries K G dest ?q es ?st p = Some (File c)"
  proof (rule 1(1) [of ?q ?st ?q])
    show "?st p' = None" if "e \<in> set es" "below (child_path ?q (entry_name e)) p'" for e p'
      using 1(6) [of p'] below_child_parent [OF that(2)] that(2) not_below_child by auto
  qed (use 1(2-7) q ne made places_sub [OF 1(4) n] in auto)
  then show ?case using 1(3) ne made by (simp add: Let_def q)
next
  case (2 K G dest rt name found is_link content st)
  let ?q = "child_path b name"
  have n: "plain_name name" and q: "path_join dest (path_join rt name) = ?q" using 2(2,3) by (auto simp: places_path)
  have d: "dir_path b" "dir_path ?q" using 2(3) n by (auto simp: places_def dir_path_child)
  have new: "st ?q = None" using 2(5) [of ?q] by simp
  have "can_create K st ?q"
    using 2(1,4) new d by (auto simp: can_create_def parent_child n faultless_def dir_path_def)
  then show ?case
    using 2(1,2,6) new d by (simp add: Let_def q fs_exists_def bare_dir_path open_write_def write_text_def faultless_def writes_well_def)
next
  case (5 K G dest rt e es st)
  let ?st = "snd (dump_tree_entry K G dest rt e st)"
  have names: "plain_name (entry_name e)" "\<And>e'. e' \<in> set es \<Longrightarrow> plain_name (entry_name e')"
    using 5(4) by (auto simp: list_all_iff intro: plain_tree_name intact_plain_tree)
  have apart: "\<not> below (child_path b (entry_name e)) p" if "e' \<in> set es" "below (child_path b (entry_name e')) p" for e' p
    using below_child [OF names(1) names(2) [OF that(1)]] that 5(5) by auto
  have frame: "?st p = st p" if "\<not> below (child_path b (entry_name e)) p" for p
    using dump_frame(1) [OF intact_plain_tree 5(6) that] 5(4) by simp
  show ?case
  proof (cases "(p, c) \<in> set (tree_files b e)")
    case True
    have "?st p = Some (File c)"
      by (rule 5(1) [OF 5(3) _ 5(6,7) _ True]) (use 5(4,8) in auto)
    moreover have "\<not> below (child_path b (entry_name e')) p" if "e' \<in> set es" for e'
      using apart [OF that] tree_files_below [OF True] by blast
    ultimately show ?thesis
      using dump_frame(2) [of es dest rt b p K G ?st] 5(4,6) intact_plain_tree by (auto simp: list_all_iff)
  next
    case False
    have "dump_entries K G dest rt es ?st p = Some (File c)"
    proof (rule 5(2) [OF 5(3) _ _ 5(6)])
      show "?st p' = None" if "e' \<in> set es" "below (child_path b (entry_name e')) p'" for e' p'
        using frame [OF apart [OF that]] 5(8) [of e' p'] that by simp
    qed (use False 5(4,5,7,9) frame not_below_child in auto)
    then show ?thesis by simp
  qed
qed auto


lemma ancestors_dir:
  assumes "dir_path d"
  shows "d \<in> set (ancestors [] d)" and "q \<in> set (ancestors [] d) \<Longrightarrow> q = d \<or> \<not> below d q"
proof -
  show "d \<in> set (ancestors [] d)" using ancestors_self [of "[]" d] by simp
  assume "q \<in> set (ancestors [] d)"
  then have "prefix q d" using ancestors_prefix by fastforce
  then show "q = d \<or> \<not> below d q" by (auto simp: below_def prefix_def)
qed

lemma create_directories_dir:
  assumes "create_directories K d st = (ok, st')" and "dir_path d"
  shows "ok \<Longrightarrow> st' d = Some Directory" and "p \<noteq> d \<Longrightarrow> below d p \<Longrightarrow> st' p = st p"
    and "st p = Some n \<Longrightarrow> st' p = Some n"
  using assms ancestors_dir [OF assms(2)]
  by (auto simp: create_directories_def bare_dir_path dest: make_each_makes make_each_keeps make_each_other)

subsection \<open>Theorems\<close>


definition demo_entries :: "tree_entry list" where
  "demo_entries = [Tree_entry ''src'' True [Blob_entry ''a.c'' True False ''int a;''], Blob_entry ''README'' True False ''x'']"

definition demo_repository :: repository where
  "demo_repository = \<lparr>object_of = (\<lambda>h. if h = ''c1'' then Some (Commit (Some demo_entries)) else None), revparse = Some,
     tree_diff = \<lambda>_ _. None, find_similar = id\<rparr>"

definition demo_git :: git_lib where
  "demo_git = \<lparr>open_bare = \<lambda>p. if p = ''/p/.git'' then Some demo_repository else None, link = \<lambda>_ _. None\<rparr>"

lemma demo_os_faultless [simp]: "faultless demo_os"
  by (simp add: faultless_def)

definition demo_store :: store where
  "demo_store = [''/'' \<mapsto> Directory, ''/p'' \<mapsto> Directory]"


end
