(* ===== verification/Resolution.thy ===== *)
theory Resolution
  imports GitService Handlers Sha1
begin

section \<open>The resolution manager\<close>

text \<open>
  Models \<open>core/ResolutionManager.cpp\<close>: the directories of a merge scenario, the copies of the conflicting files, the sources and
  compilation databases of the three revisions, and the run of the handler chain on them. A run is a function on the file store; its flag
  is false where the code fails an assertion or an exception leaves the thread, which ends the process.

  What the run calls outside the repository is the record \<open>run_env\<close>: the operating system, libgit2, the shell, the replacement by
  RE2, \<open>fs::canonical\<close>, the JSON library and parser of the handlers. The AST based handler, whose analysis is outside this model,
  is a change of the texts it writes.
\<close>

subsection \<open>Data\<close>

definition MBDIR :: string where "MBDIR = ''/tmp/.mergebot''"

record ResolutionManager =
  rm_project :: string
  rm_path :: string
  rm_ms :: MergeScenario
  rm_cdb :: string
  rm_files :: "string list"

record run_env =
  kernel :: os
  git :: git_lib
  shell :: "string \<Rightarrow> exec_error + string"
  replace_all :: "string \<Rightarrow> string \<Rightarrow> string \<Rightarrow> string"
  canonical :: "string \<Rightarrow> string"
  lib :: "string externals"
  style :: style_settings
  favor :: DeletionInfavor
  ast_effect :: "ProjectMeta \<Rightarrow> string world \<Rightarrow> string world"

definition mkResolutionManager :: "string \<Rightarrow> string \<Rightarrow> MergeScenario \<Rightarrow> string \<Rightarrow> string list \<Rightarrow> ResolutionManager" where
  "mkResolutionManager proj path ms cdb confl =
     \<lparr>rm_project = proj,
      rm_path = (if path \<noteq> [] \<and> last path \<noteq> CHR ''/'' then path @ ''/'' else path),
      rm_ms = ms, rm_cdb = cdb, rm_files = confl\<rparr>"

text \<open>The digest of the project's name and path without a trailing separator; the path is not empty where the code calls this.\<close>

definition strip_separator :: "string \<Rightarrow> string" where
  "strip_separator p = (if p \<noteq> [] \<and> last p = CHR ''/'' then butlast p else p)"

definition projectCheckSum :: "ResolutionManager \<Rightarrow> string" where
  "projectCheckSum m = fst (final (update reset (rm_project m @ ''-'' @ strip_separator (rm_path m))))"

definition projectCacheDir :: "ResolutionManager \<Rightarrow> string" where
  "projectCacheDir m = path_join MBDIR (projectCheckSum m)"

definition mergeScenarioPath :: "ResolutionManager \<Rightarrow> string" where
  "mergeScenarioPath m = path_join (path_join MBDIR (projectCheckSum m)) (ms_name (rm_ms m))"

definition CompDBRelative :: string where "CompDBRelative = ''build/compile_commands.json''"

definition toabs :: "run_env \<Rightarrow> string \<Rightarrow> string" where
  "toabs E p = (if starts_with p ''/'' then p else canonical E p)"

subsection \<open>Copies of the conflicting files\<close>

datatype copy_end = Copied | Read_failed | Write_failed

function copy_loop :: "os \<Rightarrow> string \<Rightarrow> fnode \<Rightarrow> string \<Rightarrow> nat \<Rightarrow> string \<Rightarrow> copy_end \<times> string" where
  "copy_loop K src n dst off out =
     (case read_chunk K src n off of
        None \<Rightarrow> (Read_failed, out)
      | Some b \<Rightarrow>
          if b = [] then (Copied, out)
          else case written K dst (length out) (length b) of
                 None \<Rightarrow> (Write_failed, out)
               | Some m \<Rightarrow>
                   if m \<noteq> length b then (Write_failed, out @ take m b)
                   else copy_loop K src n dst (off + length b) (out @ b))"
  by pat_completeness auto
termination
  by (relation "measure (\<lambda>(K, src, n, dst, off, out). node_size n - off)") (auto dest: read_chunk_progress)

declare copy_loop.simps [simp del]

definition copy_conflict :: "os \<Rightarrow> string \<Rightarrow> string \<Rightarrow> store \<Rightarrow> bool \<times> store" where
  "copy_conflict K Dest src st =
     (let DestPath = path_join Dest (path_filename src)
      in case open_read K st src of
           None \<Rightarrow> (False, st)
         | Some n \<Rightarrow>
             if fs_exists st DestPath then (True, st)
             else case open_write K st DestPath of
                    None \<Rightarrow> (False, st)
                  | Some st1 \<Rightarrow>
                      (let (e, out) = copy_loop K src n DestPath 0 []
                       in (e = Copied, st1(DestPath \<mapsto> File out))))"

fun copy_each :: "os \<Rightarrow> string \<Rightarrow> string list \<Rightarrow> store \<Rightarrow> bool \<times> store" where
  "copy_each K Dest [] st = (True, st)"
| "copy_each K Dest (f # fs) st =
     (let (ok, st1) = copy_conflict K Dest f st; (oks, st2) = copy_each K Dest fs st1 in (ok \<and> oks, st2))"

definition copyConflicts :: "os \<Rightarrow> string list \<Rightarrow> string \<Rightarrow> store \<Rightarrow> bool \<times> store" where
  "copyConflicts K FileList Dest st =
     (case mkdir K st Dest of
        Failed \<Rightarrow> (False, st)
      | Made st1 \<Rightarrow> copy_each K Dest FileList st1
      | Exists \<Rightarrow> copy_each K Dest FileList st)"

subsection \<open>The sources of a revision\<close>

definition fineTuneCompDB :: "run_env \<Rightarrow> string \<Rightarrow> string \<Rightarrow> string \<Rightarrow> store \<Rightarrow> bool \<times> store" where
  "fineTuneCompDB E CompDBPath ProjPath OrigPath st =
     (case open_read (kernel E) st CompDBPath of
        None \<Rightarrow> (False, st)
      | Some n \<Rightarrow>
          (let FileData = (case n of File c \<Rightarrow> c | Directory \<Rightarrow> [])
           in (True, file_overwrite_content (kernel E) CompDBPath
                       (replace_all E FileData (strip_separator OrigPath) ProjPath) st)))"

definition orig_comp_db :: "ResolutionManager \<Rightarrow> store \<Rightarrow> string" where
  "orig_comp_db m st =
     (if fs_exists st (path_join (rm_path m) ''compile_commands.json'') then path_join (rm_path m) ''compile_commands.json''
      else if fs_exists st (path_join (rm_path m) CompDBRelative) then path_join (rm_path m) CompDBRelative
      else if fs_exists st (rm_cdb m) then rm_cdb m
      else [])"

definition prepareSource :: "run_env \<Rightarrow> ResolutionManager \<Rightarrow> string \<Rightarrow> string \<Rightarrow> store \<Rightarrow> bool \<times> store" where
  "prepareSource E m CommitHash SourceDest st =
     (case dump_tree_object_to (kernel E) (git E) SourceDest CommitHash (rm_path m) st of
        (None, st1) \<Rightarrow> (False, st1)
      | (Some _, st1) \<Rightarrow>
          (let DestCDBPath = path_join SourceDest CompDBRelative; orig = orig_comp_db m st1;
               (copied, st2) = (if orig \<noteq> [] then copy_file (kernel E) orig DestCDBPath st1 else (False, st1))
           in (True, if copied then snd (fineTuneCompDB E DestCDBPath SourceDest (rm_path m) st2) else st2)))"

subsection \<open>The chain on the store\<close>

text \<open>The handlers read texts and result documents; both are the files of the store.\<close>

definition file_at :: "store \<Rightarrow> string \<Rightarrow> string option" where
  "file_at st p = (case st p of Some (File c) \<Rightarrow> Some c | _ \<Rightarrow> None)"

definition world_of :: "store \<Rightarrow> string world" where
  "world_of st = \<lparr>files = file_at st, results = file_at st\<rparr>"

definition put_world :: "string world \<Rightarrow> store \<Rightarrow> store" where
  "put_world w st = (\<lambda>p.
     if results w p \<noteq> file_at st p then map_option File (results w p)
     else if files w p \<noteq> file_at st p then map_option File (files w p)
     else st p)"

text \<open>The LLVM based handler does nothing.\<close>

definition LLVMBasedHandler_resolve :: "ConflictFile list \<Rightarrow> 'w \<Rightarrow> handler_error + ConflictFile list \<times> 'w" where
  "LLVMBasedHandler_resolve cfs w = Inr (cfs, w)"

definition chain_of :: "run_env \<Rightarrow> ProjectMeta \<Rightarrow> string externals \<Rightarrow> string world handler list" where
  "chain_of E meta ext =
     [\<lparr>Skip = False, resolveConflictFiles = StyleBasedHandler_resolve ext meta (style E)\<rparr>,
      \<lparr>Skip = False, resolveConflictFiles = untouched (ast_effect E meta)\<rparr>,
      \<lparr>Skip = False, resolveConflictFiles = LLVMBasedHandler_resolve\<rparr>,
      \<lparr>Skip = False, resolveConflictFiles = TextBasedHandler_resolve ext meta (favor E)\<rparr>]"

definition run_chain :: "run_env \<Rightarrow> ProjectMeta \<Rightarrow> string list \<Rightarrow> store \<Rightarrow> bool \<times> store" where
  "run_chain E meta sources st =
     (let ext = (lib E)\<lparr>writable := can_create (kernel E) st\<rparr>
      in case constructConflictFiles (toabs E) (file_at st) sources of
           Inl _ \<Rightarrow> (False, st)
         | Inr cfs \<Rightarrow>
             (case chain_handle (chain_of E meta ext) cfs (world_of st) of
                Inl _ \<Rightarrow> (False, st)
              | Inr (_, w, _, _) \<Rightarrow> (True, put_world w st)))"

subsection \<open>A run\<close>

definition and_then :: "bool \<times> store \<Rightarrow> (store \<Rightarrow> bool \<times> store) \<Rightarrow> bool \<times> store" where
  "and_then r f = (case r of (ok, st) \<Rightarrow> if ok then f st else (False, st))"

text \<open>A results directory of an earlier run is removed first.\<close>

definition fresh_resolutions :: "run_env \<Rightarrow> string \<Rightarrow> store \<Rightarrow> bool \<times> store" where
  "fresh_resolutions E dest st =
     create_directories (kernel E) dest (if fs_exists st dest then remove_all dest st else st)"

text \<open>The three revisions; without a base commit of 40 digits only two. \<open>CMD\<close> is the command for the base.\<close>

definition merge_base_command :: "ResolutionManager \<Rightarrow> string" where
  "merge_base_command m =
     ''(cd '' @ rm_path m @ '' && git merge-base '' @ ms_ours (rm_ms m) @ '' '' @ ms_theirs (rm_ms m) @ '')''"

definition prepare_sources :: "run_env \<Rightarrow> ResolutionManager \<Rightarrow> string \<Rightarrow> string \<Rightarrow> store \<Rightarrow> bool \<times> store" where
  "prepare_sources E m ms_path base st =
     and_then (if length base = 40 then prepareSource E m base (path_join ms_path ''base'') st else (True, st)) (\<lambda>st1.
     and_then (prepareSource E m (ms_ours (rm_ms m)) (path_join ms_path ''ours'') st1) (\<lambda>st2.
     and_then (prepareSource E m (ms_theirs (rm_ms m)) (path_join ms_path ''theirs'') st2) (\<lambda>st3.
       (fs_exists st3 (path_join ms_path ''ours'') \<and> fs_exists st3 (path_join ms_path ''theirs''), st3))))"

definition meta_of :: "ResolutionManager \<Rightarrow> string \<Rightarrow> ProjectMeta" where
  "meta_of m base =
     \<lparr>Project = rm_project m, ProjectPath = rm_path m, ProjectCacheDir = projectCacheDir m,
      MS = (if length base = 40 then (rm_ms m)\<lparr>ms_base := base\<rparr> else rm_ms m),
      CDBPath = rm_cdb m, MSCacheDir = mergeScenarioPath m\<rparr>"

definition clear_sign :: "string \<Rightarrow> store \<Rightarrow> store" where
  "clear_sign ms_path st =
     (let sign = path_join ms_path ''running'' in if fs_exists st sign then remove sign st else st)"

definition doResolutionAsync :: "run_env \<Rightarrow> ResolutionManager \<Rightarrow> store \<Rightarrow> bool \<times> store" where
  "doResolutionAsync E m st =
     (let ms_path = mergeScenarioPath m; sources = map (path_join (rm_path m)) (rm_files m)
      in and_then (fresh_resolutions E (path_join (path_join ms_path ''resolutions'') []) st) (\<lambda>st1.
           if sources = [] then (False, st1)
           else let st2 = snd (copyConflicts (kernel E) sources (path_join (path_join ms_path ''conflicts'') []) st1)
                in case shell E (merge_base_command m) of
                     Inl _ \<Rightarrow> (False, st2)
                   | Inr base \<Rightarrow>
                       and_then (prepare_sources E m ms_path base st2) (\<lambda>st3.
                       and_then (run_chain E (meta_of m base) sources st3) (\<lambda>st4.
                         (True, clear_sign ms_path st4)))))"


subsection \<open>What is copied\<close>

lemma copy_loop_well:
  "reads_well K src \<Longrightarrow> writes_well K dst \<Longrightarrow> copy_loop K src (File c) dst off out = (Copied, out @ drop off c)"
proof (induction K src "File c" dst off out rule: copy_loop.induct)
  case (1 K src dst off out)
  obtain b where b: "b = take io_size (drop off c)" by blast
  have r: "read_chunk K src (File c) off = Some b" using 1 b by (simp add: read_chunk_well)
  have w: "written K dst (length out) (length b) = Some (length b)" using 1 by (simp add: writes_well_def)
  show ?case
  proof (cases "b = []")
    case True
    then show ?thesis using b r by (subst copy_loop.simps) (simp add: io_size_def)
  next
    case False
    have "copy_loop K src (File c) dst (off + length b) (out @ b) = (Copied, (out @ b) @ drop (off + length b) c)"
      using 1(1) [OF r False w] 1(2,3) by simp
    then show ?thesis using r w False chunk_rest [OF b] by (subst copy_loop.simps) simp
  qed
qed

lemma join_slash: "plain_name n \<Longrightarrow> path_join (d @ ''/'') n = child_path d n"
  by (cases n) (auto simp: path_join_def child_path_def plain_name_def starts_with_def)

lemma faultlessD:
  assumes "faultless K"
  shows "may_open K p" "may_mkdir K p" "lockable K p" "reads_well K p" "writes_well K p"
  using assms by (simp_all add: faultless_def)

lemma copy_conflict_well:
  assumes "faultless K" and "dir_path d" and "st d = Some Directory" and "plain_name (path_filename f)" and "st (bare f) \<noteq> Some Directory"
  shows "copy_conflict K (d @ ''/'') f st =
    (st (bare f) \<noteq> None,
     if st (child_path d (path_filename f)) = None then st(child_path d (path_filename f) := st (bare f)) else st)"
proof -
  let ?q = "child_path d (path_filename f)"
  have q: "path_join (d @ ''/'') (path_filename f) = ?q" "bare ?q = ?q" "dir_path ?q"
    using assms(2,4) by (simp_all add: join_slash dir_path_child bare_dir_path)
  have cc: "can_create K st ?q" if "st ?q = None"
    using assms(2-4) q(3) that by (auto simp: can_create_def faultlessD [OF assms(1)] parent_child dir_path_def)
  show ?thesis
  proof (cases "st (bare f)")
    case None
    then show ?thesis by (auto simp: copy_conflict_def open_read_def Let_def)
  next
    case (Some n)
    then obtain c where "st (bare f) = Some (File c)" using assms(5) by (cases n) auto
    then show ?thesis using cc
      by (simp add: copy_conflict_def open_read_def faultlessD [OF assms(1)] Let_def q fs_exists_def open_write_def copy_loop_well)
  qed
qed

text \<open>What the directory \<open>d\<close> holds under a name after the copies.\<close>

definition copied_node :: "store \<Rightarrow> string \<Rightarrow> string list \<Rightarrow> string \<Rightarrow> fnode option" where
  "copied_node st d fs n =
     (case st (child_path d n) of
        Some x \<Rightarrow> Some x
      | None \<Rightarrow> (case find (\<lambda>f. path_filename f = n \<and> st (bare f) \<noteq> None) fs of None \<Rightarrow> None | Some f \<Rightarrow> st (bare f)))"

definition copyable :: "store \<Rightarrow> string \<Rightarrow> string \<Rightarrow> bool" where
  "copyable st d f \<longleftrightarrow> plain_name (path_filename f) \<and> \<not> below d (bare f) \<and> st (bare f) \<noteq> Some Directory"

lemma copied_node_step:
  assumes "\<And>g. g \<in> set fs \<Longrightarrow> st1 (bare g) = st (bare g)"
    and "\<And>n. st1 (child_path d n) = (if n = path_filename f \<and> st (child_path d n) = None then st (bare f) else st (child_path d n))"
  shows "copied_node st1 d fs n = copied_node st d (f # fs) n"
proof -
  have fd: "find (\<lambda>g. path_filename g = n \<and> st1 (bare g) \<noteq> None) fs = find (\<lambda>g. path_filename g = n \<and> st (bare g) \<noteq> None) fs"
    using assms(1) by (intro find_cong) simp_all
  have "st1 (bare g) = st (bare g)" if "find (\<lambda>g. path_filename g = n \<and> st (bare g) \<noteq> None) fs = Some g" for g
    using assms(1) that by (metis find_Some_iff nth_mem)
  then show ?thesis
    using assms(2) [of n] unfolding copied_node_def fd by (auto split: option.splits)
qed

lemma copy_each_well:
  assumes "faultless K" and "dir_path d"
  shows "st d = Some Directory \<Longrightarrow> list_all (copyable st d) fs \<Longrightarrow> copy_each K (d @ ''/'') fs st = (ok, st') \<Longrightarrow>
    ok = list_all (\<lambda>f. st (bare f) \<noteq> None) fs \<and> (\<forall>n. plain_name n \<longrightarrow> st' (child_path d n) = copied_node st d fs n) \<and>
    (\<forall>p. p \<notin> child_path d ` Collect plain_name \<longrightarrow> st' p = st p)"
proof (induction fs arbitrary: st ok)
  case Nil
  then show ?case by (auto simp: copied_node_def split: option.splits)
next
  case (Cons f fs)
  have f: "plain_name (path_filename f)" "\<not> below d (bare f)" "st (bare f) \<noteq> Some Directory" using Cons.prems(2) by (auto simp: copyable_def)
  obtain st1 where st1: "st1 = (if st (child_path d (path_filename f)) = None
      then st(child_path d (path_filename f) := st (bare f)) else st)" by blast
  have other: "st1 p = st p" if "p \<noteq> child_path d (path_filename f)" for p using that by (simp add: st1)
  have same: "st1 p = st p" if "\<not> below d p" for p using that below_own by (intro other) metis
  have d: "st1 d = Some Directory" using Cons.prems(1) other [of d] not_below_child by (metis below_refl)
  obtain oks where e: "copy_each K (d @ ''/'') fs st1 = (oks, st')" "ok = (st (bare f) \<noteq> None \<and> oks)"
    using Cons.prems(3) copy_conflict_well [OF assms Cons.prems(1) f(1,3)] by (auto simp: Let_def st1 [symmetric] split: prod.splits)
  have src: "st1 (bare g) = st (bare g)" if "g \<in> set fs" for g
    using same Cons.prems(2) that by (simp add: list_all_iff copyable_def)
  have c: "list_all (copyable st1 d) fs" using Cons.prems(2) src by (simp add: copyable_def list_all_iff)
  note ih = Cons.IH [OF d c e(1)]
  have "list_all (\<lambda>f. st1 (bare f) \<noteq> None) fs = list_all (\<lambda>f. st (bare f) \<noteq> None) fs"
    using src by (simp add: list_all_iff)
  moreover have "copied_node st1 d fs n = copied_node st d (f # fs) n" for n
    by (rule copied_node_step) (erule src, auto simp: st1)
  moreover have "st1 p = st p" if "p \<notin> child_path d ` Collect plain_name" for p
    by (rule other) (use f(1) that in blast)
  ultimately show ?case using e(2) ih by simp
qed


subsection \<open>Where a run writes\<close>

text \<open>A change of the store at or below \<open>d\<close>, besides missing directories on the way to \<open>d\<close>.\<close>

definition confined :: "string \<Rightarrow> store \<Rightarrow> store \<Rightarrow> bool" where
  "confined d st st' \<longleftrightarrow> (\<forall>p. \<not> below d p \<longrightarrow> st' p = st p \<or> st p = None \<and> st' p = Some Directory \<and> prefix p d)"

lemma confined_refl [simp]: "confined d st st"
  by (simp add: confined_def)

lemma confined_trans: "confined d st st1 \<Longrightarrow> confined d st1 st2 \<Longrightarrow> confined d st st2"
  unfolding confined_def by metis

lemma confinedI: "(\<And>p. \<not> below d p \<Longrightarrow> st' p = st p) \<Longrightarrow> confined d st st'"
  by (simp add: confined_def)

lemma confined_upd [simp]: "below d q \<Longrightarrow> confined d st (st(q := n)) \<longleftrightarrow> True"
  by (auto intro: confinedI)

lemma prefix_not_below: "prefix p q \<Longrightarrow> below d q \<Longrightarrow> \<not> below d p \<Longrightarrow> prefix p d"
proof -
  assume p: "prefix p q" and b: "below d q" "\<not> below d p"
  from b(1) have "prefix (d @ ''/'') (q @ ''/'')" by (auto simp: below_def prefix_def)
  moreover have "prefix p (q @ ''/'')" using p by (rule prefix_prefix)
  ultimately have "prefix p (d @ ''/'') \<or> prefix (d @ ''/'') p" using prefix_same_cases by blast
  then show "prefix p d" using b(2) by (auto simp: below_def)
qed

lemma confined_mono: "confined q st st' \<Longrightarrow> below d q \<Longrightarrow> confined d st st'"
  unfolding confined_def using below_trans prefix_not_below by blast

lemma confined_create: "create_directories K p st = (ok, st') \<Longrightarrow> below d (bare p) \<Longrightarrow> confined d st st'"
  unfolding confined_def create_directories_def
proof (intro allI impI)
  fix q
  assume m: "make_each K (ancestors [] (bare p)) st = (ok, st')" and d: "below d (bare p)" and q: "\<not> below d q"
  show "st' q = st q \<or> st q = None \<and> st' q = Some Directory \<and> prefix q d"
  proof (cases "q \<in> set (ancestors [] (bare p))")
    case True
    then have "prefix q (bare p)" using ancestors_prefix by fastforce
    then show ?thesis using make_each_new [OF m] prefix_not_below [OF _ d q] by blast
  qed (use make_each_other [OF m] in blast)
qed

lemma confined_remove_all: "below d (bare p) \<Longrightarrow> confined d st (remove_all p st)"
  by (auto intro!: confinedI simp: remove_all_def dest: below_trans)

lemma confined_overwrite: "below d p \<Longrightarrow> confined d st (file_overwrite_content K p c st)"
  by (auto intro!: confinedI simp: file_overwrite_content_def open_write_def split: option.splits)

lemma confined_and_then:
  "and_then r f = (ok, st') \<Longrightarrow> confined d st (snd r) \<Longrightarrow>
   (\<And>st1. r = (True, st1) \<Longrightarrow> confined d st1 (snd (f st1))) \<Longrightarrow> confined d st st'"
  by (cases r) (auto simp: and_then_def intro: confined_trans split: if_splits)

lemma below_join: "dir_path d \<Longrightarrow> \<not> starts_with s ''/'' \<Longrightarrow> below d (path_join d s)"
  by (auto simp: path_join_def below_def dir_path_def prefix_def)

lemma bare_slash: "dir_path d \<Longrightarrow> bare (d @ ''/'') = d"
  by (auto simp: bare_def dir_path_def)

lemma join_Nil: "dir_path d \<Longrightarrow> path_join d [] = d @ ''/''"
  by (auto simp: path_join_def dir_path_def starts_with_def)

text \<open>The directory of a merge scenario.\<close>

lemma dir_path_MBDIR: "dir_path MBDIR"
  by (simp add: dir_path_def MBDIR_def)

lemma hex_digit: "''0123456789abcdef'' ! unat (drop_bit (4 * k) w AND 15 :: u32) \<in> set ''0123456789abcdef''"
proof -
  have "drop_bit (4 * k) w AND 15 \<le> (15 :: u32)" by (rule word_and_le1)
  then have "unat (drop_bit (4 * k) w AND 15) \<le> 15" by (simp add: word_le_nat_alt)
  then show ?thesis by (intro nth_mem) simp
qed

lemma hex8_digits: "length (hex8 w) = 8" "set (hex8 w) \<subseteq> set ''0123456789abcdef''"
  using hex_digit by (auto simp only: hex8_def length_map set_map list.size subset_iff image_iff)


lemma length_digest_blocks: "length dig = 5 \<Longrightarrow> length (digest_blocks dig s) = 5"
proof (induction dig s rule: digest_blocks.induct)
  case (1 dig s)
  have "length (fips_block dig b) = 5" for b
    by (simp add: fips_block_def Let_def split: prod.splits)
  then show ?case using 1 by (subst digest_blocks.simps) simp
qed

lemma checksum_digits: "length (projectCheckSum m) = 40" "set (projectCheckSum m) \<subseteq> set ''0123456789abcdef''"
proof -
  let ?d = "digest_blocks (digest reset) (fips_pad (rm_project m @ ''-'' @ strip_separator (rm_path m)))"
  have c: "projectCheckSum m = concat (map hex8 ?d)"
    using sha1_is_fips by (simp only: projectCheckSum_def from_file_def fips_sha1_def)
  have "length ?d = 5" by (rule length_digest_blocks) (simp add: reset_def)
  then have "sum_list (map (length \<circ> hex8) ?d) = 5 * 8"
    by (simp add: hex8_digits(1) o_def sum_list_triv)
  then show "length (projectCheckSum m) = 40" by (simp add: c length_concat o_def)
  show "set (projectCheckSum m) \<subseteq> set ''0123456789abcdef''" unfolding c using hex8_digits(2) by fastforce
qed

lemma checksum_plain: "plain_name (projectCheckSum m)"
proof -
  have "CHR ''/'' \<notin> set ''0123456789abcdef''" by simp
  then show ?thesis using checksum_digits [of m] by (auto simp: plain_name_def)
qed

lemma mergeScenarioPath_dir:
  assumes "plain_name (ms_name (rm_ms m))"
  shows "dir_path (mergeScenarioPath m)"
    and "mergeScenarioPath m = child_path (child_path MBDIR (projectCheckSum m)) (ms_name (rm_ms m))"
proof -
  show eq: "mergeScenarioPath m = child_path (child_path MBDIR (projectCheckSum m)) (ms_name (rm_ms m))"
    by (simp add: mergeScenarioPath_def join_child dir_path_MBDIR checksum_plain dir_path_child assms)
  show "dir_path (mergeScenarioPath m)"
    by (simp add: eq dir_path_MBDIR checksum_plain dir_path_child assms)
qed


subsection \<open>Where the handlers write\<close>

lemma pathToName_no_slash: "CHR ''/'' \<notin> set (pathToName p)"
proof -
  have "CHR ''/'' \<notin> set (replace_char (CHR ''/'') (CHR ''@'') q)" for q by (auto simp: replace_char_def)
  moreover have "CHR ''/'' \<notin> set (replace_char BSLASH (CHR ''@'') q)" if "CHR ''/'' \<notin> set q" for q
    using that by (auto simp: replace_char_def)
  ultimately have "CHR ''/'' \<notin> set (string_join (string_split p (if CHR ''/'' \<in> set p then ''/'' else [BSLASH]) True) ''@'')"
    by (auto simp: string_join_other_sep dest: in_set_butlastD)
  then show ?thesis by (auto simp: pathToName_def Let_def replace_char_def split: if_splits)
qed

lemma relative_name: "\<not> starts_with (pathToName p) ''/''"
  using pathToName_no_slash [of p] by (cases "pathToName p") (auto simp: starts_with_def)

definition stays_in :: "string \<Rightarrow> 'doc world \<Rightarrow> 'doc world \<Rightarrow> bool" where
  "stays_in d w w' \<longleftrightarrow> (\<forall>p. \<not> inside d p \<longrightarrow> files w' p = files w p \<and> results w' p = results w p)"

lemma stays_refl [simp]: "stays_in d w w"
  by (simp add: stays_in_def)

lemma stays_trans: "stays_in d w w1 \<Longrightarrow> stays_in d w1 w2 \<Longrightarrow> stays_in d w w2"
  by (simp add: stays_in_def)

lemma stays_upd: "inside d q \<Longrightarrow> stays_in d w (w\<lparr>results := (results w)(q := r)\<rparr>)" "inside d q \<Longrightarrow> stays_in d w (w\<lparr>files := (files w)(q := f)\<rparr>)"
  by (auto simp: stays_in_def)

lemma results_below:
  assumes "dir_path d"
  shows "inside d (path_join (path_join d ''resolutions'') (pathToName p))"
proof -
  have n: "plain_name ''resolutions''" by (simp add: plain_name_def)
  have "below (child_path d ''resolutions'') (path_join (child_path d ''resolutions'') (pathToName p))"
    by (rule below_join [OF dir_path_child [OF assms n] relative_name])
  then show ?thesis unfolding join_child [OF assms n] by (rule below_child_inside)
qed

lemma resolve_files_stays:
  assumes "dir_path (MSCacheDir meta)"
  shows "resolve_files ext meta r cfs w = Inr (cfs', b, w') \<Longrightarrow> stays_in (MSCacheDir meta) w w'"
proof (induction cfs arbitrary: w cfs' b)
  case (Cons cf cfs)
  obtain cf1 e w1 where f: "resolve_file ext meta r cf w = Inr (cf1, e, w1)"
    using Cons.prems by (cases "resolve_file ext meta r cf w") auto
  obtain cfs1 sh where rest: "resolve_files ext meta r cfs w1 = Inr (cfs1, sh, w')"
    using Cons.prems f by (cases "resolve_files ext meta r cfs w1") auto
  have "stays_in (MSCacheDir meta) w w1"
    using f by (auto simp: resolve_file_def Let_def intro!: stays_upd(1) results_below [OF assms]
        split: sum.splits option.splits if_splits)
  then show ?case using Cons.IH [OF rest] by (rule stays_trans)
qed simp

definition tame_relative :: "'doc externals \<Rightarrow> bool" where
  "tame_relative ext \<longleftrightarrow> (\<forall>p q. \<not> starts_with (relative ext p q) ''/'')"

lemma threeWayMerge_stays:
  assumes "dir_path (MSCacheDir meta)" and "tame_relative ext"
  shows "stays_in (MSCacheDir meta) w (threeWayMerge ext meta cfs w)"
proof (induction cfs arbitrary: w)
  case (Cons cf cfs)
  have n: "plain_name ''conflicts''" by (simp add: plain_name_def)
  have b: "inside (MSCacheDir meta) (path_join (path_join (MSCacheDir meta) ''conflicts'') (relative ext f g))" for f g
    unfolding join_child [OF assms(1) n]
    by (rule below_child_inside [OF below_join [OF dir_path_child [OF assms(1) n]]])
       (use assms(2) in \<open>simp add: tame_relative_def\<close>)
  have "stays_in (MSCacheDir meta) w (threeWayMerge ext meta cfs (w\<lparr>files := (files w)(path_join (path_join (MSCacheDir meta) ''conflicts'') (relative ext f g) \<mapsto> out)\<rparr>))" for f g out
    by (rule stays_trans [OF stays_upd(2) [OF b] Cons.IH])
  then show ?case using Cons.IH by (auto simp: Let_def split: sum.splits)
qed simp

lemma finish_stays: "finish_files r = Inr (cfs', w') \<Longrightarrow> \<exists>cfs b. r = Inr (cfs, b, w')"
  by (auto simp: finish_files_def split: sum.splits)

definition stays_resolve :: "string \<Rightarrow> (ConflictFile list \<Rightarrow> 'doc world \<Rightarrow> handler_error + ConflictFile list \<times> 'doc world) \<Rightarrow> bool" where
  "stays_resolve d r \<longleftrightarrow> (\<forall>cfs w cfs' w'. r cfs w = Inr (cfs', w') \<longrightarrow> stays_in d w w')"

lemma style_stays: "dir_path (MSCacheDir meta) \<Longrightarrow> stays_resolve (MSCacheDir meta) (StyleBasedHandler_resolve ext meta st)"
  by (auto simp: stays_resolve_def StyleBasedHandler_resolve_def dest!: finish_stays dest: resolve_files_stays split: if_splits)

lemma text_stays:
  assumes "dir_path (MSCacheDir meta)" and "tame_relative ext"
  shows "stays_resolve (MSCacheDir meta) (TextBasedHandler_resolve ext meta fav)"
  unfolding stays_resolve_def
proof (intro allI impI)
  fix cfs w cfs' w'
  let ?w = "threeWayMerge ext meta cfs w"
  assume "TextBasedHandler_resolve ext meta fav cfs w = Inr (cfs', w')"
  then obtain r cfs1 b where "resolve_files ext meta r cfs ?w = Inr (cfs1, b, w')"
    unfolding TextBasedHandler_resolve_def Let_def by (meson finish_stays Inl_Inr_False)
  then show "stays_in (MSCacheDir meta) w w'"
    using resolve_files_stays [OF assms(1)] threeWayMerge_stays [OF assms] stays_trans by blast
qed

lemma untouched_stays: "(\<And>w. stays_in d w (f w)) \<Longrightarrow> stays_resolve d (untouched f)"
  by (auto simp: stays_resolve_def untouched_def split: if_splits)

lemma llvm_stays: "stays_resolve d LLVMBasedHandler_resolve"
  by (simp add: stays_resolve_def LLVMBasedHandler_resolve_def)

lemma handle_stays:
  "list_all (\<lambda>h. stays_resolve d (resolveConflictFiles h)) hs \<Longrightarrow> handle hs cfs w = Inr (cfs', w', out) \<Longrightarrow> stays_in d w w'"
proof (induction hs arbitrary: cfs w)
  case (Cons h hs)
  show ?case
  proof (cases "Skip h")
    case True
    then show ?thesis using Cons.prems by (auto split: if_splits)
  next
    case False
    then obtain cfs1 w1 where r: "resolveConflictFiles h cfs w = Inr (cfs1, w1)" using Cons.prems(2) by (auto split: sum.splits)
    then have s: "stays_in d w w1" using Cons.prems(1) by (auto simp: stays_resolve_def)
    show ?thesis
      using Cons.IH [of cfs1 w1] Cons.prems r False s stays_trans by (auto split: if_splits)
  qed
qed simp

interpretation llvm: conflict_handler LLVMBasedHandler_resolve
  by unfold_locales (auto simp: LLVMBasedHandler_resolve_def)


subsection \<open>A run stays in its directory\<close>

text \<open>What the analysis outside the model and libgit2 are assumed to keep to.\<close>

definition tame_env :: "run_env \<Rightarrow> bool" where
  "tame_env E \<longleftrightarrow> tame_relative (lib E) \<and> (\<forall>meta w. stays_in (MSCacheDir meta) w (ast_effect E meta w)) \<and>
     (\<forall>p r h es. open_bare (git E) p = Some r \<longrightarrow> object_of r h = Some (Commit (Some es)) \<longrightarrow> list_all plain_tree es)"

lemma confined_dump:
  assumes "tame_env E" and "dir_path dest" and "below d dest"
    and "dump_tree_object_to K (git E) dest hash repo st = (ok, st')"
  shows "confined d st st'"
proof -
  have b: "below d (bare dest)" using assms(2,3) by (simp add: bare_dir_path)
  have "confined d st1 (dump_entries K (git E) dest [] es st1)" if "list_all plain_tree es" for es st1
  proof (rule confinedI)
    fix p assume "\<not> below d p"
    then have "\<not> below dest p" using assms(3) below_trans by blast
    then show "dump_entries K (git E) dest [] es st1 p = st1 p"
      by (intro dump_frame(2) [OF that places_top [OF assms(2)]]) (blast dest: below_child_parent)
  qed
  then show ?thesis
    using assms(1,4) unfolding dump_tree_object_to_def GitRepository_create_def lookupCommit_def tame_env_def
    by (auto split: if_splits prod.splits bool.splits option.splits git_object.splits intro: confined_trans
        dest!: confined_create [OF _ b])
qed

lemma confined_copy_file:
  assumes "below d q" and "below d (bare (parent_path q))" and "copy_file K src q st = (ok, st')"
  shows "confined d st st'"
proof -
  have upd: "confined d st0 (st0(p := n))" if "below d p" for p n st0 using that by simp
  have w: "confined d st1 (snd (case open_write K st1 q of None \<Rightarrow> (False, st1)
      | Some st2 \<Rightarrow> (let (ok, out) = copy_file_loop K src n q 0 [] in (ok, st2(q \<mapsto> File out)))))" for st1 n
    using assms(1) by (auto simp: open_write_def split: option.splits prod.splits intro!: upd)
  show ?thesis
  proof (cases "open_read K st src")
    case (Some n)
    show ?thesis
    proof (cases "mkdir K st (parent_path q)")
      case (Made st1)
      then have "confined d st st1" using upd [OF assms(2)] by (auto simp: mkdir_def split: if_splits)
      moreover have "confined d st1 st'" using w [of st1 n] assms(3) Some Made by (simp add: copy_file_def)
      ultimately show ?thesis by (rule confined_trans)
    next
      case Exists
      then show ?thesis using w [of st n] assms(3) Some by (simp add: copy_file_def)
    next
      case Failed
      then show ?thesis using assms(3) Some by (simp add: copy_file_def)
    qed
  qed (use assms(3) in \<open>simp add: copy_file_def\<close>)
qed

lemma confined_fineTune: "below d p \<Longrightarrow> confined d st (snd (fineTuneCompDB E p a b st))"
  by (auto simp: fineTuneCompDB_def Let_def intro: confined_overwrite split: option.splits)

lemma comp_db_path:
  assumes "dir_path dest"
  shows "path_join dest CompDBRelative = child_path (child_path dest ''build'') ''compile_commands.json''"
    and "bare (parent_path (path_join dest CompDBRelative)) = child_path dest ''build''"
proof -
  have n: "plain_name ''build''" "plain_name ''compile_commands.json''" by (simp_all add: plain_name_def)
  show eq: "path_join dest CompDBRelative = child_path (child_path dest ''build'') ''compile_commands.json''"
    using assms by (auto simp: path_join_def CompDBRelative_def child_path_def dir_path_def starts_with_def)
  show "bare (parent_path (path_join dest CompDBRelative)) = child_path dest ''build''"
    unfolding eq parent_child [OF dir_path_child [OF assms n(1)] n(2)] by (rule bare_dir_path [OF dir_path_child [OF assms n(1)]])
qed

lemma confined_prepare:
  assumes "tame_env E" and "dir_path dest" and "below d dest"
  shows "confined d st (snd (prepareSource E m h dest st))"
proof -
  obtain r st1 where r: "dump_tree_object_to (kernel E) (git E) dest h (rm_path m) st = (r, st1)" by (metis surj_pair)
  have c1: "confined d st st1" by (rule confined_dump [OF assms r])
  let ?q = "path_join dest CompDBRelative"
  have q1: "below d ?q"
    unfolding comp_db_path(1) [OF assms(2)] by (rule below_trans [OF assms(3) below_trans [OF below_own below_own]])
  have q2: "below d (bare (parent_path ?q))"
    unfolding comp_db_path(2) [OF assms(2)] by (rule below_trans [OF assms(3) below_own])
  show ?thesis
  proof (cases r)
    case (Some b)
    obtain cp st2 where cp: "(if orig_comp_db m st1 \<noteq> [] then copy_file (kernel E) (orig_comp_db m st1) ?q st1 else (False, st1)) = (cp, st2)"
      by (metis surj_pair)
    then have c2: "confined d st1 st2" using confined_copy_file [OF q1 q2] confined_refl by (metis Pair_inject)
    have c3: "confined d st2 (if cp then snd (fineTuneCompDB E ?q dest (rm_path m) st2) else st2)"
      using confined_fineTune [OF q1] by simp
    have "prepareSource E m h dest st = (True, if cp then snd (fineTuneCompDB E ?q dest (rm_path m) st2) else st2)"
      by (simp only: prepareSource_def r Some Let_def cp prod.case option.case)
    then show ?thesis using confined_trans [OF confined_trans [OF c1 c2] c3] by simp
  qed (use c1 r in \<open>simp add: prepareSource_def\<close>)
qed

lemma find_last_idx_rest: "find_last_idx P xs = Some i \<Longrightarrow> \<forall>x \<in> set (drop (Suc i) xs). \<not> P x"
proof (induction xs arbitrary: i)
  case (Cons x xs)
  show ?case
  proof (cases "find_last_idx P xs")
    case None
    then have "i = 0" using Cons.prems by (simp split: if_splits)
    then show ?thesis using None by (simp add: find_last_idx_None_iff)
  next
    case (Some j)
    then have "i = Suc j" using Cons.prems by simp
    then show ?thesis using Cons.IH [OF Some] by simp
  qed
qed simp

lemma filename_no_slash: "CHR ''/'' \<notin> set (path_filename p)"
proof (cases "find_last_idx (\<lambda>c. c = CHR ''/'') p")
  case None
  have "path_filename p = p" unfolding path_filename_def None by simp
  moreover have "\<forall>c \<in> set p. c \<noteq> CHR ''/''" using None unfolding find_last_idx_None_iff .
  ultimately show ?thesis by auto
next
  case (Some i)
  have "path_filename p = drop (Suc i) p" unfolding path_filename_def Some by simp
  then show ?thesis using find_last_idx_rest [OF Some] by auto
qed

lemma confined_updI: "below d q \<Longrightarrow> confined d st (st(q := n))"
  by simp

lemma confined_copy_conflict:
  assumes "below d d'"
  shows "confined d st (snd (copy_conflict K (d' @ ''/'') f st))"
proof -
  have "path_join (d' @ ''/'') (path_filename f) = d' @ ''/'' @ path_filename f"
    using filename_no_slash [of f] by (cases "path_filename f") (auto simp: path_join_def starts_with_def)
  then have "below d' (path_join (d' @ ''/'') (path_filename f))" by (simp add: below_def prefix_def)
  then have b: "below d (path_join (d' @ ''/'') (path_filename f))" using assms below_trans by blast
  show ?thesis
    unfolding copy_conflict_def Let_def open_write_def
    by (simp split: option.splits prod.splits) (use b in \<open>auto intro: confined_updI\<close>)
qed

lemma confined_copy_each: "below d d' \<Longrightarrow> confined d st (snd (copy_each K (d' @ ''/'') fs st))"
proof (induction fs arbitrary: st)
  case (Cons f fs)
  obtain ok st1 where c: "copy_conflict K (d' @ ''/'') f st = (ok, st1)" by (metis surj_pair)
  then have "confined d st st1" using confined_copy_conflict [OF Cons.prems, of st K f] by simp
  then show ?case using c Cons.IH [OF Cons.prems, of st1] confined_trans by (simp add: split_beta)
qed simp

lemma confined_copyConflicts:
  assumes "dir_path d'" and "below d d'"
  shows "confined d st (snd (copyConflicts K fs (d' @ ''/'') st))"
proof (cases "mkdir K st (d' @ ''/'')")
  case (Made st1)
  then have "confined d st st1" using assms by (auto simp: mkdir_def bare_slash split: if_splits)
  then show ?thesis using Made confined_copy_each [OF assms(2)] confined_trans by (simp add: copyConflicts_def)
qed (simp_all add: copyConflicts_def confined_copy_each [OF assms(2)])


lemma chain_frame:
  assumes "tame_env E" and "dir_path (MSCacheDir meta)" and "\<not> inside (MSCacheDir meta) p"
  shows "snd (run_chain E meta sources st) p = st p"
proof -
  let ?ext = "(lib E)\<lparr>writable := can_create (kernel E) st\<rparr>"
  have ok: "list_all (\<lambda>h. stays_resolve (MSCacheDir meta) (resolveConflictFiles h)) (chain_of E meta ?ext)"
  proof -
    have t: "tame_relative ?ext" using assms(1) by (simp add: tame_env_def tame_relative_def)
    have e: "stays_in (MSCacheDir meta) w (ast_effect E meta w)" for w using assms(1) by (simp add: tame_env_def)
    show ?thesis
      by (simp add: chain_of_def style_stays [OF assms(2)] text_stays [OF assms(2) t] llvm_stays untouched_stays [OF e])
  qed
  have "stays_in (MSCacheDir meta) (world_of st) w" if "chain_handle (chain_of E meta ?ext) cfs (world_of st) = Inr (cfs', w, n, k)"
    for cfs cfs' w n k
    using that handle_stays [OF ok] by (auto simp: chain_handle_def Let_def simp del: handle.simps split: sum.splits if_splits)
  then have "put_world w st p = st p"
    if "chain_handle (chain_of E meta ?ext) cfs (world_of st) = Inr (cfs', w, n, k)" for cfs cfs' w n k
    using that assms(3) by (auto simp: put_world_def stays_in_def world_of_def)
  then show ?thesis by (auto simp: run_chain_def Let_def split: sum.splits)
qed

lemma confined_chain:
  "tame_env E \<Longrightarrow> dir_path (MSCacheDir meta) \<Longrightarrow> confined (MSCacheDir meta) st (snd (run_chain E meta sources st))"
  by (rule confinedI, rule chain_frame) (auto dest: inside_below)

lemma confined_sources:
  assumes "tame_env E" and "dir_path d"
  shows "confined d st (snd (prepare_sources E m d base st))"
proof -
  have p: "confined d st0 (snd (prepareSource E m h (path_join d n) st0))" if "plain_name n" for h n st0
    unfolding join_child [OF assms(2) that] by (rule confined_prepare [OF assms(1) dir_path_child [OF assms(2) that] below_own])
  have n: "plain_name ''base''" "plain_name ''ours''" "plain_name ''theirs''" by (simp_all add: plain_name_def)
  obtain ok st' where r: "prepare_sources E m d base st = (ok, st')" by (metis surj_pair)
  show ?thesis unfolding r snd_conv
    by (rule confined_and_then [OF r [unfolded prepare_sources_def]])
       (auto simp: p n intro!: confined_and_then [where d = d, OF surjective_pairing])
qed


subsection \<open>The running sign\<close>

definition keeps :: "string \<Rightarrow> store \<Rightarrow> store \<Rightarrow> bool" where
  "keeps p st st' \<longleftrightarrow> (st p \<noteq> None \<longrightarrow> st' p = st p)"

lemma keeps_refl [simp]: "keeps p st st"
  by (simp add: keeps_def)

lemma keeps_trans: "keeps p st st1 \<Longrightarrow> keeps p st1 st2 \<Longrightarrow> keeps p st st2"
  by (auto simp: keeps_def)

lemma confined_keeps: "confined d st st' \<Longrightarrow> \<not> below d p \<Longrightarrow> keeps p st st'"
  by (auto simp: confined_def keeps_def)

definition sign_path :: "ResolutionManager \<Rightarrow> string" where
  "sign_path m = path_join (mergeScenarioPath m) ''running''"

lemma sign_child: "plain_name (ms_name (rm_ms m)) \<Longrightarrow> sign_path m = child_path (mergeScenarioPath m) ''running''"
  by (simp add: sign_path_def join_child mergeScenarioPath_dir(1) plain_name_def)

text \<open>Paths outside every entry of \<open>d\<close> but the sign: the sign and the directory itself.\<close>

definition spared :: "string \<Rightarrow> string \<Rightarrow> bool" where
  "spared d q \<longleftrightarrow> (\<forall>n. plain_name n \<longrightarrow> n \<noteq> ''running'' \<longrightarrow> \<not> below (child_path d n) q)"

lemma spared_dir: "spared d d"
  by (simp add: spared_def)

lemma spared_sign: "spared d (child_path d ''running'')"
proof -
  have "plain_name ''running''" by (simp add: plain_name_def)
  then show ?thesis using below_child below_refl unfolding spared_def by metis
qed

lemma other_entry: "spared d q \<Longrightarrow> confined (child_path d n) st st' \<Longrightarrow> plain_name n \<Longrightarrow> n \<noteq> ''running'' \<Longrightarrow> keeps q st st'"
  by (auto simp: spared_def intro: confined_keeps)

text \<open>The phases of a run, each in a directory of its own.\<close>

lemma phase_dirs:
  assumes "dir_path d"
  shows "confined (child_path d ''resolutions'') st (snd (fresh_resolutions E (path_join (path_join d ''resolutions'') []) st))"
    and "confined (child_path d ''conflicts'') st (snd (copyConflicts K fs (path_join (path_join d ''conflicts'') []) st))"
proof -
  have n: "plain_name ''resolutions''" "plain_name ''conflicts''" by (simp_all add: plain_name_def)
  note dp = dir_path_child [OF assms n(1)] dir_path_child [OF assms n(2)]
  have j: "path_join (path_join d ''resolutions'') [] = child_path d ''resolutions'' @ ''/''"
    "path_join (path_join d ''conflicts'') [] = child_path d ''conflicts'' @ ''/''"
    by (simp_all only: join_child [OF assms] n join_Nil [OF dp(1)] join_Nil [OF dp(2)])
  let ?d = "child_path d ''resolutions''"
  let ?st = "if fs_exists st (?d @ ''/'') then remove_all (?d @ ''/'') st else st"
  have c: "confined ?d st ?st" by (simp add: confined_remove_all bare_slash [OF dp(1)])
  obtain ok st1 where r: "create_directories (kernel E) (?d @ ''/'') ?st = (ok, st1)" by (metis surj_pair)
  have "confined ?d ?st st1" by (rule confined_create [OF r]) (simp add: bare_slash [OF dp(1)])
  then show "confined ?d st (snd (fresh_resolutions E (path_join (path_join d ''resolutions'') []) st))"
    unfolding j fresh_resolutions_def r snd_conv by (rule confined_trans [OF c])
  show "confined (child_path d ''conflicts'') st (snd (copyConflicts K fs (path_join (path_join d ''conflicts'') []) st))"
    unfolding j by (rule confined_copyConflicts [OF dp(2) below_refl])
qed

lemma sources_keep:
  assumes "tame_env E" and "dir_path d" and "spared d q"
  shows "keeps q st (snd (prepare_sources E m d base st))"
proof -
  have p: "keeps q st0 (snd (prepareSource E m h (path_join d n) st0))"
    if "plain_name n" "n \<noteq> ''running''" for h n st0
    unfolding join_child [OF assms(2) that(1)]
    by (rule other_entry [OF assms(3) confined_prepare [OF assms(1) dir_path_child [OF assms(2) that(1)] below_refl] that])
  have n: "plain_name ''base''" "plain_name ''ours''" "plain_name ''theirs''" by (simp_all add: plain_name_def)
  have t: "keeps q st0 (snd (and_then r f))" if "keeps q st0 (snd r)" "\<And>st1. keeps q st1 (snd (f st1))" for st0 r f
    using that keeps_trans by (cases r) (auto simp: and_then_def split: if_splits)
  show ?thesis unfolding prepare_sources_def by (intro t) (simp_all add: p n)
qed

text \<open>What a run has done before the last phase, and when it is complete.\<close>

lemma run_cases:
  assumes "doResolutionAsync E m st = (ok, st')" and "tame_env E" and "plain_name (ms_name (rm_ms m))"
  shows "(\<exists>st1. confined (mergeScenarioPath m) st st1 \<and> keeps (mergeScenarioPath m) st st1 \<and>
      ok \<and> st' = clear_sign (mergeScenarioPath m) st1) \<or>
    \<not> ok \<and> confined (mergeScenarioPath m) st st' \<and> keeps (mergeScenarioPath m) st st' \<and> keeps (sign_path m) st st'"
proof -
  let ?d = "mergeScenarioPath m"
  have dp: "dir_path ?d" by (rule mergeScenarioPath_dir(1) [OF assms(3)])
  have sp: "spared ?d (sign_path m)" unfolding sign_child [OF assms(3)] by (rule spared_sign)
  let ?srcs = "map (path_join (rm_path m)) (rm_files m)"
  obtain ok1 st1 where r1: "fresh_resolutions E (path_join (path_join ?d ''resolutions'') []) st = (ok1, st1)" by (metis surj_pair)
  define st2 where "st2 = snd (copyConflicts (kernel E) ?srcs (path_join (path_join ?d ''conflicts'') []) st1)"
  have n: "plain_name ''resolutions''" "plain_name ''conflicts''" by (simp_all add: plain_name_def)
  have up: "confined ?d s s'" if "confined (child_path ?d x) s s'" for s s' x
    using confined_mono [OF that below_own] .
  have c1: "confined (child_path ?d ''resolutions'') st st1" using phase_dirs(1) [OF dp, of st E] r1 by simp
  have c2: "confined (child_path ?d ''conflicts'') st1 st2" unfolding st2_def by (rule phase_dirs(2) [OF dp])
  have k1: "keeps q st st1" and k12: "keeps q st st2" if "spared ?d q" for q
    using other_entry [OF that c1 n(1)] other_entry [OF that c2 n(2)] keeps_trans by auto
  have c12: "confined ?d st st2" by (rule confined_trans [OF up [OF c1] up [OF c2]])
  show ?thesis
  proof (cases "ok1 \<and> ?srcs \<noteq> []")
    case False
    then have "(ok, st') = (False, st1)"
      using assms(1) r1 by (auto simp: doResolutionAsync_def Let_def and_then_def split: if_splits)
    then show ?thesis using k1 spared_dir sp up [OF c1] by simp
  next
    case True
    show ?thesis
    proof (cases "shell E (merge_base_command m)")
      case (Inl e)
      then have "(ok, st') = (False, st2)"
        using assms(1) r1 True by (simp add: doResolutionAsync_def Let_def and_then_def st2_def)
      then show ?thesis using k12 spared_dir sp c12 by simp
    next
      case (Inr base)
      obtain ok3 st3 where r3: "prepare_sources E m ?d base st2 = (ok3, st3)" by (metis surj_pair)
      have c3: "confined ?d st st3" using confined_trans [OF c12 confined_sources [OF assms(2) dp, of st2 m base]] r3 by simp
      have k3: "keeps q st st3" if "spared ?d q" for q
        using keeps_trans [OF k12 [OF that] sources_keep [OF assms(2) dp that, of st2 m base]] r3 by simp
      obtain ok4 st4 where r4: "run_chain E (meta_of m base) ?srcs st3 = (ok4, st4)" by (metis surj_pair)
      have meta: "MSCacheDir (meta_of m base) = ?d" by (simp add: meta_of_def)
      have c4: "confined ?d st st4"
        using confined_trans [OF c3] confined_chain [OF assms(2), of "meta_of m base" st3 ?srcs] dp r4 meta by simp
      have "st4 ?d = st3 ?d" using chain_frame [OF assms(2), of "meta_of m base" ?d ?srcs st3] dp r4 meta by simp
      then have k4: "keeps ?d st st4" using k3 [OF spared_dir] by (simp add: keeps_def)
      have stop: "st4 = st3" if "\<not> ok4" using r4 that by (auto simp: run_chain_def Let_def split: sum.splits)
      have "(ok, st') = (if ok3 then if ok4 then (True, clear_sign ?d st4) else (False, st4) else (False, st3))"
        using assms(1) r1 True Inr r3 r4 by (auto simp: doResolutionAsync_def Let_def and_then_def st2_def)
      then show ?thesis using c3 k3 [OF spared_dir] k3 [OF sp] c4 k4 stop by (auto split: if_splits)
    qed
  qed
qed

lemma no_merge_base: "shell E (merge_base_command m) = Inl e \<Longrightarrow> \<exists>st'. doResolutionAsync E m st = (False, st')"
  by (auto simp: doResolutionAsync_def Let_def and_then_def split: prod.splits)

lemma clear_sign_confined: "dir_path d \<Longrightarrow> confined d st (clear_sign d st) \<and> \<not> fs_exists (clear_sign d st) (path_join d ''running'')"
proof -
  assume d: "dir_path d"
  have n: "plain_name ''running''" by (simp add: plain_name_def)
  show ?thesis
    unfolding clear_sign_def join_child [OF d n]
    by (auto simp: Let_def remove_def fs_exists_def bare_dir_path [OF dir_path_child [OF d n]])
qed

subsection \<open>Theorems\<close>




definition demo_run :: run_env where
  "demo_run = \<lparr>kernel = demo_os, git = demo_git, shell = (\<lambda>_. Inl (Exit_status 256)), replace_all = (\<lambda>s a b. s), canonical = id,
     lib = \<lparr>relative = \<lambda>p q. ''a.c'', parse_children = \<lambda>_. [], exec = \<lambda>_. Inl Timed_out, accept = \<lambda>_. False,
            of_json = \<lambda>_. None, dump = \<lambda>_. ''{}'', writable = \<lambda>_. False, formatter = \<lambda>_ s. s\<rparr>,
     style = \<lparr>NeedFormat = False, WhichSide = ''ours''\<rparr>, favor = DELETION, ast_effect = (\<lambda>_ w. w)\<rparr>"

definition demo_manager :: ResolutionManager where
  "demo_manager = mkResolutionManager ''p'' ''/p'' (mkMergeScenario ''c1'' ''c2'' []) [] [''a.c'']"

lemma demo_run_tame: "tame_env demo_run"
  by (auto simp: tame_env_def demo_run_def tame_relative_def starts_with_def demo_git_def demo_repository_def demo_entries_def plain_name_def
      split: if_splits)


end
