(* ===== verification/Service.thy ===== *)
theory Service
  imports Resolution
begin

section \<open>The web service\<close>

text \<open>
  Models \<open>server/server_utility.cpp\<close>, \<open>controller/project_controller.cpp\<close> and \<open>controller/resolve_controller.cpp\<close>: the manifests that
  list projects and merge scenarios, the checks on requests, starting a resolution, and reading its results.

  An operation returns an error or a value together with the store it leaves. \<open>App\<close> is an \<open>AppBaseException\<close> with its code, the texts
  of the messages are left out; \<open>Std_exception\<close> is any other exception, which the handler aspect turns into the code S0000; \<open>Crash\<close> is a failed
  assertion or undefined behaviour. A request arrives as the data \<open>json\<close> of Crow, where a scalar is its text.
\<close>

subsection \<open>Data\<close>

datatype server_error = App string | Std_exception | Crash

datatype json = JScalar string | JList "json list" | JObject "(string \<times> json) list"

record project_entry =
  pr_project :: string
  pr_path :: string
  pr_cacheDir :: string
  pr_mss :: "MergeScenario list"

record service_env =
  env :: run_env
  parse_projects :: "string \<Rightarrow> project_entry list option"
  dump_projects :: "project_entry list \<Rightarrow> string"
  fdopens :: "string \<Rightarrow> bool"
  owner_access :: "string \<Rightarrow> bool \<times> bool"
  fs_relative :: "string \<Rightarrow> string \<Rightarrow> string"
  equivalent :: "store \<Rightarrow> string \<Rightarrow> string \<Rightarrow> bool"
  thread_starts :: bool

type_synonym 'a action = "store \<Rightarrow> (server_error + 'a) \<times> store"

definition return_action :: "'a \<Rightarrow> 'a action" where
  "return_action x st = (Inr x, st)"

definition throw_action :: "server_error \<Rightarrow> 'a action" where
  "throw_action e st = (Inl e, st)"

definition bind_action :: "'a action \<Rightarrow> ('a \<Rightarrow> 'b action) \<Rightarrow> 'b action" where
  "bind_action m f st = (case m st of (Inl e, st1) \<Rightarrow> (Inl e, st1) | (Inr x, st1) \<Rightarrow> f x st1)"

text \<open>A check reads the store only.\<close>

definition check_action :: "(store \<Rightarrow> server_error + 'a) \<Rightarrow> 'a action" where
  "check_action c st = (c st, st)"

definition create_dirs :: "service_env \<Rightarrow> string \<Rightarrow> unit action" where
  "create_dirs E p st =
     (case create_directories (kernel (env E)) p st of (ok, st1) \<Rightarrow> (if ok then Inr () else Inl Std_exception, st1))"

subsection \<open>The directories of a project\<close>

definition calcProjChecksum :: "string \<Rightarrow> string \<Rightarrow> string" where
  "calcProjChecksum project path = fst (final (update reset (project @ ''-'' @ strip_separator path)))"

definition project_dir :: "string \<Rightarrow> string \<Rightarrow> string" where
  "project_dir project path = path_join MBDIR (calcProjChecksum project path)"

definition manifest_path :: "string \<Rightarrow> string \<Rightarrow> string" where
  "manifest_path project path =
     path_join MBDIR (''manifest-'' @ substr (calcProjChecksum project path) 0 2 @ ''.json'')"

definition scenario_dir :: "string \<Rightarrow> string \<Rightarrow> MergeScenario \<Rightarrow> string" where
  "scenario_dir project path ms = path_join (project_dir project path) (ms_name ms)"

subsection \<open>The manifest\<close>

definition node_text_of :: "fnode \<Rightarrow> string" where
  "node_text_of n = (case n of File c \<Rightarrow> c | Directory \<Rightarrow> [])"

text \<open>Reading the list of projects: \<^term>\<open>None\<close> where the code returns false, an exception where the text is not JSON.\<close>

definition read_manifest :: "service_env \<Rightarrow> string \<Rightarrow> project_entry list option action" where
  "read_manifest E man = check_action (\<lambda>st.
     case lockRDFD (kernel (env E)) st man of
       None \<Rightarrow> Inr None
     | Some n \<Rightarrow>
         if \<not> fdopens E man then Inr None
         else case parse_projects E (node_text_of n) of None \<Rightarrow> Inl Std_exception | Some ps \<Rightarrow> Inr (Some ps))"

definition write_manifest :: "service_env \<Rightarrow> string \<Rightarrow> project_entry list \<Rightarrow> bool action" where
  "write_manifest E man ps st =
     (case file_overwrite_content_sync (kernel (env E)) man (dump_projects E ps) st of (ok, st1) \<Rightarrow> (Inr ok, st1))"

definition of_project :: "string \<Rightarrow> project_entry \<Rightarrow> bool" where
  "of_project cs p \<longleftrightarrow> path_filename (pr_cacheDir p) = cs"

definition checkAndAddProjectMetadata :: "service_env \<Rightarrow> string \<Rightarrow> string \<Rightarrow> bool action" where
  "checkAndAddProjectMetadata E project path =
     (let cs = calcProjChecksum project path; dir = project_dir project path; man = manifest_path project path;
          p = \<lparr>pr_project = project, pr_path = path, pr_cacheDir = dir, pr_mss = []\<rparr>
      in bind_action (check_action (\<lambda>st. Inr (fs_exists st man))) (\<lambda>exists.
         if \<not> exists then bind_action (create_dirs E dir) (\<lambda>_. write_manifest E man [p])
         else bind_action (read_manifest E man) (\<lambda>r.
           case r of
             None \<Rightarrow> return_action False
           | Some ps \<Rightarrow>
               if list_ex (of_project cs) ps then return_action True
               else bind_action (create_dirs E dir) (\<lambda>_. write_manifest E man (ps @ [p])))))"

fun update_first :: "('a \<Rightarrow> bool) \<Rightarrow> ('a \<Rightarrow> 'a) \<Rightarrow> 'a list \<Rightarrow> 'a list" where
  "update_first P f [] = []"
| "update_first P f (x # xs) = (if P x then f x # xs else x # update_first P f xs)"

definition checkAndAddMSMetadata :: "service_env \<Rightarrow> string \<Rightarrow> string \<Rightarrow> MergeScenario \<Rightarrow> bool action" where
  "checkAndAddMSMetadata E project path ms =
     (let cs = calcProjChecksum project path; dir = scenario_dir project path ms; man = manifest_path project path
      in bind_action (check_action (\<lambda>st. if fs_exists st man then Inr () else Inl Crash)) (\<lambda>_.
         bind_action (read_manifest E man) (\<lambda>r.
           case r of
             None \<Rightarrow> return_action False
           | Some ps \<Rightarrow>
               (case find (of_project cs) ps of
                  None \<Rightarrow> throw_action Crash
                | Some p \<Rightarrow>
                    if list_ex (\<lambda>m. ms_name m = ms_name ms) (pr_mss p) then
                      check_action (\<lambda>st. if fs_exists st (path_join dir ''running'') then Inl (App ''C1000'') else Inr True)
                    else bind_action (create_dirs E dir) (\<lambda>_.
                      write_manifest E man (update_first (of_project cs) (\<lambda>p. p\<lparr>pr_mss := pr_mss p @ [ms]\<rparr>) ps))))))"

text \<open>The first half of \<open>handleMergeScenario\<close>: what the two operations return is only logged.\<close>

definition add_metadata :: "service_env \<Rightarrow> string \<Rightarrow> string \<Rightarrow> MergeScenario \<Rightarrow> unit action" where
  "add_metadata E project path ms =
     bind_action (checkAndAddProjectMetadata E project path) (\<lambda>ok.
       if \<not> ok then return_action ()
       else bind_action (checkAndAddMSMetadata E project path ms) (\<lambda>_. return_action ()))"

subsection \<open>Starting a resolution\<close>

definition setRunningSign :: "service_env \<Rightarrow> string \<Rightarrow> string \<Rightarrow> unit action" where
  "setRunningSign E projDir msName st =
     (let msPath = path_join projDir msName
      in if \<not> fs_exists st msPath then (Inl Crash, st)
         else (Inr (), file_overwrite_content (kernel (env E)) (path_join msPath ''running'') ''1'' st))"

definition removeRunningSign :: "string \<Rightarrow> unit action" where
  "removeRunningSign msPath st = (Inr (), clear_sign msPath st)"

definition writeConflictFiles :: "service_env \<Rightarrow> string \<Rightarrow> string \<Rightarrow> bool action" where
  "writeConflictFiles E msCacheDir fileList =
     (let conflicts = path_join (path_join msCacheDir ''conflicts'') ''conflict-sources.txt''
      in bind_action (\<lambda>st. if \<not> fs_exists st (parent_path conflicts) then create_dirs E (parent_path conflicts) st else (Inr (), st))
           (\<lambda>_ st. case open_write (kernel (env E)) st conflicts of
              None \<Rightarrow> (Inr False, st)
            | Some st1 \<Rightarrow>
                (case written (kernel (env E)) conflicts 0 (length fileList) of
                   None \<Rightarrow> (Inr False, st1)
                 | Some m \<Rightarrow> (Inr True, st1(conflicts \<mapsto> File (take m fileList))))))"

text \<open>The conflicting files of the request, or those git lists; a failing command leaves the sign behind.\<close>

definition list_conflicts :: "service_env \<Rightarrow> string \<Rightarrow> string list \<Rightarrow> string list action" where
  "list_conflicts E path conflicts =
     (if conflicts \<noteq> [] then return_action conflicts
      else case shell (env E) (''(cd '' @ path @ '' && git diff --name-only --diff-filter=U)'') of
             Inl _ \<Rightarrow> throw_action (App ''S1000'')
           | Inr result \<Rightarrow> return_action (string_split result [NL] False))"

definition goResolve ::
  "service_env \<Rightarrow> string \<Rightarrow> string \<Rightarrow> MergeScenario \<Rightarrow> string \<Rightarrow> string list \<Rightarrow> ResolutionManager action" where
  "goResolve E project path ms cdb conflicts =
     (let projDir = project_dir project path; msCacheDir = path_join projDir (ms_name ms)
      in bind_action (setRunningSign E projDir (ms_name ms)) (\<lambda>_.
         bind_action (list_conflicts E path conflicts) (\<lambda>fileNames.
         if fileNames = [] then bind_action (removeRunningSign msCacheDir) (\<lambda>_. throw_action (App ''U1000''))
         else let cppSources = filter is_cpp_file fileNames
         in if cppSources = [] then bind_action (removeRunningSign msCacheDir) (\<lambda>_. throw_action (App ''U1000''))
         else bind_action (writeConflictFiles E msCacheDir (string_join cppSources [NL])) (\<lambda>_.
         let manager = mkResolutionManager project path ms cdb cppSources
         in if thread_starts E then return_action manager
            else bind_action (removeRunningSign (mergeScenarioPath manager)) (\<lambda>_. throw_action Std_exception)))))"

definition handleMergeScenario ::
  "service_env \<Rightarrow> string \<Rightarrow> string \<Rightarrow> MergeScenario \<Rightarrow> string \<Rightarrow> string list \<Rightarrow> ResolutionManager action" where
  "handleMergeScenario E project path ms cdb conflicts =
     bind_action (add_metadata E project path ms) (\<lambda>_. goResolve E project path ms cdb conflicts)"

subsection \<open>Requests\<close>

text \<open>\<open>has\<close>, the subscript and the conversion to a string of Crow's values; \<^term>\<open>None\<close> is the exception for a value of the wrong type or a missing key.\<close>

definition has :: "json \<Rightarrow> string \<Rightarrow> bool option" where
  "has j k = (case j of JObject kvs \<Rightarrow> Some (map_of kvs k \<noteq> None) | _ \<Rightarrow> None)"

definition sub_value :: "json \<Rightarrow> string \<Rightarrow> json option" where
  "sub_value j k = (case j of JObject kvs \<Rightarrow> map_of kvs k | _ \<Rightarrow> None)"

definition as_string :: "json \<Rightarrow> string option" where
  "as_string j = (case j of JScalar s \<Rightarrow> Some s | _ \<Rightarrow> None)"

fun containKeys :: "json \<Rightarrow> string list \<Rightarrow> bool option" where
  "containKeys j [] = Some True"
| "containKeys j (k # ks) =
     (case has j k of None \<Rightarrow> None | Some b \<Rightarrow> if b then containKeys j ks else Some False)"

definition or_throw :: "'a option \<Rightarrow> 'a action" where
  "or_throw x = (case x of None \<Rightarrow> throw_action Std_exception | Some v \<Rightarrow> return_action v)"

definition string_field :: "json \<Rightarrow> string \<Rightarrow> string action" where
  "string_field j k = bind_action (or_throw (sub_value j k)) (\<lambda>v. or_throw (as_string v))"

text \<open>\<open>checkPath\<close>: the sum of the two permission bits is tested, so one of them is enough.\<close>

definition checkPath :: "service_env \<Rightarrow> string \<Rightarrow> unit action" where
  "checkPath E path = check_action (\<lambda>st.
     if fs_exists st path then
       (if st (bare path) \<noteq> Some Directory \<or> \<not> (fst (owner_access E path) \<or> snd (owner_access E path)) then Inl (App ''U1000'') else Inr ())
     else Inl (App ''U1000''))"

definition checkGitRepo :: "service_env \<Rightarrow> string \<Rightarrow> unit action" where
  "checkGitRepo E path =
     (case GitRepository_create (git (env E)) (path_join path ''.git'') of
        None \<Rightarrow> throw_action (App ''U1000'')
      | Some _ \<Rightarrow> return_action ())"

definition validateAndCompleteRevision :: "service_env \<Rightarrow> string \<Rightarrow> string \<Rightarrow> string action" where
  "validateAndCompleteRevision E revision path =
     (case commit_hash_of_rev (git (env E)) revision path of
        Inl _ \<Rightarrow> throw_action Crash
      | Inr None \<Rightarrow> throw_action (App ''C1000'')
      | Inr (Some h) \<Rightarrow> return_action h)"

text \<open>Only the first path decides whether all are taken as absolute.\<close>

definition checkAndNormalizeConflicts :: "service_env \<Rightarrow> json list \<Rightarrow> string \<Rightarrow> string list action" where
  "checkAndNormalizeConflicts E vs projectPath =
     bind_action (or_throw (as_string (hd vs))) (\<lambda>first.
       let isAbsPath = starts_with first ''/''; fullPath = (if isAbsPath then first else path_join projectPath first)
       in bind_action (check_action (\<lambda>st. if fs_exists st fullPath then Inr () else Inl (App ''C1000''))) (\<lambda>_.
          bind_action (or_throw (those (map as_string vs))) (\<lambda>paths.
            return_action (map (\<lambda>p. if isAbsPath then fs_relative E p projectPath else p) paths))))"

definition checkFilesField :: "service_env \<Rightarrow> json \<Rightarrow> string \<Rightarrow> string list action" where
  "checkFilesField E body path =
     bind_action (or_throw (has body ''files'')) (\<lambda>b.
       if \<not> b then return_action []
       else bind_action (or_throw (sub_value body ''files'')) (\<lambda>v.
         case v of
           JList [] \<Rightarrow> throw_action (App ''C1000'')
         | JList vs \<Rightarrow> checkAndNormalizeConflicts E vs path
         | _ \<Rightarrow> throw_action (App ''C1000'')))"

text \<open>What both handlers do first: the project, its path and the merge scenario of the body.\<close>

definition check_format :: "json option \<Rightarrow> string list \<Rightarrow> json action" where
  "check_format body keys =
     (case body of
        None \<Rightarrow> throw_action (App ''C0002'')
      | Some j \<Rightarrow>
          bind_action (or_throw (containKeys j keys)) (\<lambda>b.
            if \<not> b then throw_action (App ''C0002'')
            else bind_action (or_throw (sub_value j ''ms'')) (\<lambda>ms.
              bind_action (or_throw (containKeys ms [''ours'', ''theirs''])) (\<lambda>b.
                if b then return_action j else throw_action (App ''C0002'')))))"

definition project_field :: "json \<Rightarrow> string \<Rightarrow> string action" where
  "project_field body path =
     bind_action (or_throw (has body ''project'')) (\<lambda>b.
       if b then string_field body ''project'' else return_action (path_filename path))"

definition scenario_field :: "service_env \<Rightarrow> json \<Rightarrow> string \<Rightarrow> MergeScenario action" where
  "scenario_field E body path =
     bind_action (or_throw (sub_value body ''ms'')) (\<lambda>ms.
     bind_action (string_field ms ''ours'') (\<lambda>ours_rev.
     bind_action (validateAndCompleteRevision E ours_rev path) (\<lambda>ours.
     bind_action (string_field ms ''theirs'') (\<lambda>theirs_rev.
     bind_action (validateAndCompleteRevision E theirs_rev path) (\<lambda>theirs.
     return_action (mkMergeScenario ours theirs
       (case git_merge_base (shell (env E)) ours theirs path of None \<Rightarrow> [] | Some base \<Rightarrow> base)))))))"

definition doPostMergeScenario :: "service_env \<Rightarrow> json option \<Rightarrow> ResolutionManager action" where
  "doPostMergeScenario E body =
     bind_action (check_format body [''path'', ''ms'']) (\<lambda>j.
     bind_action (string_field j ''path'') (\<lambda>path.
     bind_action (project_field j path) (\<lambda>project.
     bind_action (checkPath E path) (\<lambda>_.
     bind_action (checkGitRepo E path) (\<lambda>_.
     bind_action (scenario_field E j path) (\<lambda>ms.
     bind_action (or_throw (has j ''compile_db_path'')) (\<lambda>b.
     bind_action (if b then string_field j ''compile_db_path'' else return_action []) (\<lambda>cdb.
     bind_action (check_action (\<lambda>st. if cdb \<noteq> [] \<and> \<not> fs_exists st cdb then Inl (App ''C1000'') else Inr ())) (\<lambda>_.
     bind_action (checkFilesField E j path) (\<lambda>conflicts.
     handleMergeScenario E project path ms cdb conflicts))))))))))"

text \<open>The response: its status, the code in its body, and whether it carries data.\<close>

definition status_of :: "string \<Rightarrow> nat" where
  "status_of cd =
     (if cd \<noteq> [] \<and> hd cd = CHR ''C'' then 400
      else if cd \<noteq> [] \<and> hd cd = CHR ''S'' then 500
      else if cd \<noteq> [] \<and> hd cd = CHR ''U'' then 200
      else 500)"

definition respond :: "server_error + 'a \<Rightarrow> (nat \<times> string \<times> 'a option) option" where
  "respond r =
     (case r of
        Inl (App cd) \<Rightarrow> Some (status_of cd, cd, None)
      | Inl Std_exception \<Rightarrow> Some (500, ''S0000'', None)
      | Inl Crash \<Rightarrow> None
      | Inr x \<Rightarrow> Some (200, ''00000'', Some x))"

subsection \<open>Reading the results\<close>

definition checkMSMetadata :: "service_env \<Rightarrow> string \<Rightarrow> string \<Rightarrow> MergeScenario \<Rightarrow> bool action" where
  "checkMSMetadata E project path ms =
     (let cs = calcProjChecksum project path; man = manifest_path project path
      in bind_action (check_action (\<lambda>st.
           if \<not> fs_exists st (project_dir project path) \<or> \<not> fs_exists st (scenario_dir project path ms) \<or> \<not> fs_exists st man
           then Inl (App ''C1000'') else Inr ())) (\<lambda>_.
         bind_action (read_manifest E man) (\<lambda>r.
           case r of
             None \<Rightarrow> return_action False
           | Some ps \<Rightarrow>
               (case find (of_project cs) ps of
                  None \<Rightarrow> throw_action (App ''C1000'')
                | Some p \<Rightarrow>
                    if list_ex (\<lambda>m. ms_name m = ms_name ms) (pr_mss p) then return_action True
                    else throw_action (App ''C1000'')))))"

definition same_file :: "service_env \<Rightarrow> store \<Rightarrow> string \<Rightarrow> string \<Rightarrow> string \<Rightarrow> bool" where
  "same_file E st path src conflictFile =
     (if \<not> starts_with src ''/'' then equivalent E st (path_join path src) (path_join path conflictFile)
      else equivalent E st (path_join path conflictFile) src)"

definition checkConflictFile :: "service_env \<Rightarrow> string \<Rightarrow> string \<Rightarrow> MergeScenario \<Rightarrow> string \<Rightarrow> unit action" where
  "checkConflictFile E project path ms src = check_action (\<lambda>st.
     let dir = scenario_dir project path ms; conflictsFile = path_join (path_join dir ''conflicts'') ''conflict-sources.txt''
     in if \<not> fs_exists st (path_join path src) then Inl (App ''C1000'')
        else if \<not> (fs_exists st (project_dir project path) \<and> fs_exists st dir \<and> fs_exists st conflictsFile) then Inl Crash
        else if list_ex (same_file E st path src) (string_split (file_get_content (kernel (env E)) st conflictsFile) [NL] False)
        then Inr () else Inl (App ''C1000''))"

text \<open>The function object that splits a text into lines.\<close>

function string_spilt :: "string \<Rightarrow> string \<Rightarrow> bool \<Rightarrow> string list" where
  "string_spilt str delims with_empty =
     (if str = [] then []
      else case find_idx (\<lambda>c. c \<in> set delims) str of
             None \<Rightarrow> [str]
           | Some k \<Rightarrow> (if k \<noteq> 0 \<or> with_empty then [take k str] else []) @ string_spilt (drop (Suc k) str) delims with_empty)"
  by pat_completeness auto
termination
  by (relation "measure (\<lambda>(str, delims, we). length str)") auto

declare string_spilt.simps [simp del]

definition normalizeRelativePath :: "string \<Rightarrow> string \<Rightarrow> string" where
  "normalizeRelativePath path replacement = (if starts_with path replacement then drop (length replacement) path else path)"

definition normalized_file :: "service_env \<Rightarrow> string \<Rightarrow> string \<Rightarrow> string" where
  "normalized_file E src path =
     (if starts_with src ''/'' then fs_relative E src path
      else normalizeRelativePath (normalizeRelativePath src ''./'') [CHR ''.'', BSLASH])"

record block_view =
  bv_code :: "string list"
  bv_index :: int
  bv_desc :: string
  bv_confidence :: real

definition view_of :: "BlockResolutionResult \<Rightarrow> block_view" where
  "view_of b = \<lparr>bv_code = string_spilt (BlockResolutionResult.code b) [NL] True, bv_index = index b - 1, bv_desc = desc b, bv_confidence = confidence b\<rparr>"

record file_view =
  pending :: bool
  projectPath :: string
  file_name :: string
  views :: "block_view list"
  merged :: "string list option"

text \<open>A file that cannot be opened is closed by a null pointer.\<close>

definition open_stream :: "service_env \<Rightarrow> store \<Rightarrow> string \<Rightarrow> server_error + fnode" where
  "open_stream E st p =
     (case lockRDFD (kernel (env E)) st p of
        None \<Rightarrow> Inl Crash
      | Some n \<Rightarrow> if fdopens E p then Inr n else Inl Crash)"

text \<open>The merged text in buffers of 1024 bytes, appended as C strings.\<close>

definition gets :: "string \<Rightarrow> string" where
  "gets s = (let b = take 1023 s in case find_idx (\<lambda>x. x = NL) b of None \<Rightarrow> b | Some i \<Rightarrow> take (Suc i) b)"

function merged_loop :: "string \<Rightarrow> string" where
  "merged_loop s = (if gets s = [] then [] else c_string (gets s) @ merged_loop (drop (length (gets s)) s))"
  by pat_completeness auto
termination
proof (relation "measure length", goal_cases)
  case (2 s)
  then have "gets s \<noteq> []" "s \<noteq> []" by (auto simp: gets_def)
  then show ?case by simp
qed simp

declare merged_loop.simps [simp del]

definition getFileResolution :: "service_env \<Rightarrow> string \<Rightarrow> string \<Rightarrow> MergeScenario \<Rightarrow> string \<Rightarrow> file_view action" where
  "getFileResolution E project path ms src = check_action (\<lambda>st.
     let dir = scenario_dir project path ms; fileNormalized = normalized_file E src path;
         resolutionFile = path_join (path_join dir ''resolutions'') (pathToName fileNormalized);
         merged_dest = path_join (path_join dir ''merged'') fileNormalized
     in case (if \<not> fs_exists st resolutionFile then Inr []
              else case open_stream E st resolutionFile of
                Inl e \<Rightarrow> Inl e
              | Inr n \<Rightarrow>
                  if \<not> accept (lib (env E)) (node_text_of n) then Inl Std_exception
                  else (case of_json (lib (env E)) (node_text_of n) of
                          None \<Rightarrow> Inl Std_exception
                        | Some frr \<Rightarrow> Inr (map view_of (resolutions frr)))) of
          Inl e \<Rightarrow> Inl e
        | Inr vs \<Rightarrow>
            (case (if \<not> fs_exists st merged_dest then Inr None
                   else map_sum id (\<lambda>n. Some (string_spilt (merged_loop (node_text_of n)) [NL] True)) (open_stream E st merged_dest)) of
               Inl e \<Rightarrow> Inl e
             | Inr mg \<Rightarrow> Inr \<lparr>pending = fs_exists st (path_join dir ''running''), projectPath = path, file_name = fileNormalized,
                             views = vs, merged = mg\<rparr>))"

definition doGetFileResolution :: "service_env \<Rightarrow> json option \<Rightarrow> file_view action" where
  "doGetFileResolution E body =
     bind_action (check_format body [''path'', ''file'', ''ms'']) (\<lambda>j.
     bind_action (string_field j ''path'') (\<lambda>path.
     bind_action (string_field j ''file'') (\<lambda>src.
     bind_action (project_field j path) (\<lambda>project.
     bind_action (checkPath E path) (\<lambda>_.
     bind_action (checkGitRepo E path) (\<lambda>_.
     bind_action (scenario_field E j path) (\<lambda>ms.
     bind_action (checkMSMetadata E project path ms) (\<lambda>success.
     if \<not> success then throw_action (App ''S1000'')
     else bind_action (checkConflictFile E project path ms src) (\<lambda>_.
       getFileResolution E project path ms src)))))))))"

subsection \<open>The service as a state machine\<close>

text \<open>
  Requests are handled by several threads. The two metadata operations hold a mutex each, so they are single steps, and a request lies
  between them (\<open>known\<close>) and behind them (\<open>admitted\<close>) before its resolution starts in a thread of its own. \<open>initMergebot\<close> is what
  the process does when it starts, also after a crash.
\<close>

record request =
  rq_project :: string
  rq_path :: string
  rq_ms :: MergeScenario
  rq_cdb :: string
  rq_files :: "string list"

record service =
  disk :: store
  known :: "request list"
  admitted :: "request list"
  jobs :: "ResolutionManager list"

definition initMergebot :: "store \<Rightarrow> store" where
  "initMergebot st = (if fs_exists st MBDIR then remove_all MBDIR st else st)(MBDIR \<mapsto> Directory)"

definition rq_register :: "service_env \<Rightarrow> request \<Rightarrow> bool action" where
  "rq_register E rq = checkAndAddProjectMetadata E (rq_project rq) (rq_path rq)"

definition rq_admit :: "service_env \<Rightarrow> request \<Rightarrow> bool action" where
  "rq_admit E rq = checkAndAddMSMetadata E (rq_project rq) (rq_path rq) (rq_ms rq)"

definition rq_resolve :: "service_env \<Rightarrow> request \<Rightarrow> ResolutionManager action" where
  "rq_resolve E rq = goResolve E (rq_project rq) (rq_path rq) (rq_ms rq) (rq_cdb rq) (rq_files rq)"

definition rq_checksum :: "request \<Rightarrow> string" where
  "rq_checksum rq = calcProjChecksum (rq_project rq) (rq_path rq)"

definition rq_dir :: "request \<Rightarrow> string" where
  "rq_dir rq = scenario_dir (rq_project rq) (rq_path rq) (rq_ms rq)"

inductive service_step :: "service_env \<Rightarrow> service \<Rightarrow> service \<Rightarrow> bool" for E where
  register: "plain_name (ms_name (rq_ms rq)) \<Longrightarrow> rq_register E rq (disk s) = (Inr ok, st) \<Longrightarrow>
    service_step E s (if ok then s\<lparr>disk := st, known := known s @ [rq]\<rparr> else s\<lparr>disk := st, admitted := admitted s @ [rq]\<rparr>)"
| not_registered: "rq_register E rq (disk s) = (Inl e, st) \<Longrightarrow> e \<noteq> Crash \<Longrightarrow> service_step E s (s\<lparr>disk := st\<rparr>)"
| admit: "rq \<in> set (known s) \<Longrightarrow> rq_admit E rq (disk s) = (Inr ok, st) \<Longrightarrow>
    service_step E s (s\<lparr>disk := st, known := remove1 rq (known s), admitted := admitted s @ [rq]\<rparr>)"
| refuse: "rq \<in> set (known s) \<Longrightarrow> rq_admit E rq (disk s) = (Inl e, st) \<Longrightarrow> e \<noteq> Crash \<Longrightarrow>
    service_step E s (s\<lparr>disk := st, known := remove1 rq (known s)\<rparr>)"
| start: "rq \<in> set (admitted s) \<Longrightarrow> rq_resolve E rq (disk s) = (Inr m, st) \<Longrightarrow>
    service_step E s (s\<lparr>disk := st, admitted := remove1 rq (admitted s), jobs := jobs s @ [m]\<rparr>)"
| decline: "rq \<in> set (admitted s) \<Longrightarrow> rq_resolve E rq (disk s) = (Inl e, st) \<Longrightarrow> e \<noteq> Crash \<Longrightarrow>
    service_step E s (s\<lparr>disk := st, admitted := remove1 rq (admitted s)\<rparr>)"
| finish: "m \<in> set (jobs s) \<Longrightarrow> doResolutionAsync (env E) m (disk s) = (True, st) \<Longrightarrow>
    service_step E s (s\<lparr>disk := st, jobs := remove1 m (jobs s)\<rparr>)"
| restart: "service_step E s \<lparr>disk = initMergebot (disk s), known = [], admitted = [], jobs = []\<rparr>"

text \<open>
  Runs from the start of the process on any store that has nothing under the cache directory unless it has the directory itself, and
  those runs in which one request is handled at a time.
\<close>

definition rooted :: "store \<Rightarrow> bool" where
  "rooted st \<longleftrightarrow> (\<forall>p. below MBDIR p \<longrightarrow> st p \<noteq> None \<longrightarrow> st MBDIR \<noteq> None)"

definition booted :: "store \<Rightarrow> service" where
  "booted st = \<lparr>disk = initMergebot st, known = [], admitted = [], jobs = []\<rparr>"

inductive reachable :: "service_env \<Rightarrow> service \<Rightarrow> bool" for E where
  boot: "rooted st \<Longrightarrow> reachable E (booted st)"
| step: "reachable E s \<Longrightarrow> service_step E s s' \<Longrightarrow> reachable E s'"

inductive serially :: "service_env \<Rightarrow> service \<Rightarrow> bool" for E where
  boot: "rooted st \<Longrightarrow> serially E (booted st)"
| step: "serially E s \<Longrightarrow> service_step E s s' \<Longrightarrow> length (known s') + length (admitted s') \<le> 1 \<Longrightarrow> serially E s'"

end
