(* ===== verification/ServiceFacts.thy ===== *)
theory ServiceFacts
  imports Service
begin

section \<open>Properties of the web service\<close>

text \<open>
  The manifests stay well formed, what they list is kept, a request that has been admitted passes the checks of the queries, and with one
  request at a time no two resolutions of a merge scenario run together. Requests at the same time can start two; a failing
  \<open>git diff\<close> leaves a scenario that is refused for ever.
\<close>

lemmas action_defs = bind_action_def return_action_def throw_action_def check_action_def create_dirs_def

lemma bind_Inr: "bind_action m f st = (Inr y, st') \<longleftrightarrow> (\<exists>x st1. m st = (Inr x, st1) \<and> f x st1 = (Inr y, st'))"
  by (auto simp: bind_action_def split: prod.splits sum.splits)

subsection \<open>Names under the cache directory\<close>

definition hex_digest :: "string \<Rightarrow> bool" where
  "hex_digest cs \<longleftrightarrow> length cs = 40 \<and> set cs \<subseteq> set ''0123456789abcdef''"

definition manifest_of :: "string \<Rightarrow> string" where
  "manifest_of cs = child_path MBDIR (''manifest-'' @ take 2 cs @ ''.json'')"

lemma manager_checksum: "projectCheckSum m = calcProjChecksum (rm_project m) (rm_path m)"
  by (simp add: projectCheckSum_def calcProjChecksum_def)

lemma calc_digest: "hex_digest (calcProjChecksum project path)"
  using checksum_digits [of "\<lparr>rm_project = project, rm_path = path, rm_ms = undefined, rm_cdb = [], rm_files = []\<rparr>"]
  by (simp add: hex_digest_def manager_checksum)

lemma digest_plain: "hex_digest cs \<Longrightarrow> plain_name cs"
  by (auto simp: hex_digest_def plain_name_def)

lemma digest_head: "hex_digest cs \<Longrightarrow> \<exists>c r. cs = c # r \<and> c \<noteq> CHR ''m'' \<and> c \<noteq> CHR ''/''"
  by (cases cs) (auto simp: hex_digest_def)

lemma manifest_name_plain: "hex_digest cs \<Longrightarrow> plain_name (''manifest-'' @ take 2 cs @ ''.json'')"
  by (auto simp: hex_digest_def plain_name_def dest!: in_set_takeD)

lemma paths:
  shows "manifest_path project path = manifest_of (calcProjChecksum project path)"
    and "project_dir project path = child_path MBDIR (calcProjChecksum project path)"
    and "plain_name (ms_name ms) \<Longrightarrow> scenario_dir project path ms = child_path (child_path MBDIR (calcProjChecksum project path)) (ms_name ms)"
proof -
  show "manifest_path project path = manifest_of (calcProjChecksum project path)"
    unfolding manifest_path_def manifest_of_def substr_def drop_0
    by (rule join_child [OF dir_path_MBDIR manifest_name_plain [OF calc_digest]])
  show p: "project_dir project path = child_path MBDIR (calcProjChecksum project path)"
    unfolding project_dir_def by (rule join_child [OF dir_path_MBDIR digest_plain [OF calc_digest]])
  show "plain_name (ms_name ms) \<Longrightarrow> scenario_dir project path ms = child_path (child_path MBDIR (calcProjChecksum project path)) (ms_name ms)"
    unfolding scenario_dir_def p by (rule join_child [OF dir_path_child [OF dir_path_MBDIR digest_plain [OF calc_digest]]])
qed

text \<open>The directory the controller marks as running is the one the manager works in and clears.\<close>

lemma manager_path: "projectCheckSum (mkResolutionManager project path ms cdb fs) = calcProjChecksum project path"
  by (auto simp: manager_checksum mkResolutionManager_def calcProjChecksum_def strip_separator_def)

lemma manager_dir: "mergeScenarioPath (mkResolutionManager project path ms cdb fs) = scenario_dir project path ms"
  unfolding mergeScenarioPath_def manager_path scenario_dir_def project_dir_def by (simp add: mkResolutionManager_def)

lemma manifest_apart:
  assumes "hex_digest cs" and "hex_digest cs'"
  shows "\<not> prefix (manifest_of cs) (child_path MBDIR cs')" "\<not> prefix (manifest_of cs) (child_path (child_path MBDIR cs') n)"
    "\<not> below (child_path (child_path MBDIR cs') n) (manifest_of cs)" "\<not> below (manifest_of cs) (child_path MBDIR cs')"
    "\<not> below (manifest_of cs) (child_path (child_path MBDIR cs') n)"
  using digest_head [OF assms(2)] by (auto simp: manifest_of_def child_path_def below_def prefix_def)

lemma ancestors_append: "pre @ q \<noteq> [] \<Longrightarrow> pre @ q \<in> set (ancestors pre (q @ CHR ''/'' # r))"
proof (induction q arbitrary: pre)
  case (Cons c q)
  then show ?case using Cons.IH [of "pre @ [c]"] by auto
qed simp

lemma parent_ancestor: "d \<noteq> [] \<Longrightarrow> d \<in> set (ancestors [] (child_path d n))"
  using ancestors_append [of "[]" d n] by (simp add: child_path_def)

lemma MBDIR_ancestor: "MBDIR \<in> set (ancestors [] (child_path MBDIR n))"
  by (rule parent_ancestor) (simp add: MBDIR_def)


subsection \<open>The lists in the manifests\<close>

definition wf_projects :: "project_entry list \<Rightarrow> bool" where
  "wf_projects ps \<longleftrightarrow> distinct (map (\<lambda>p. path_filename (pr_cacheDir p)) ps) \<and> (\<forall>p \<in> set ps. distinct (map ms_name (pr_mss p)))"

definition holds :: "service_env \<Rightarrow> store \<Rightarrow> string \<Rightarrow> project_entry list \<Rightarrow> bool" where
  "holds E st cs ps \<longleftrightarrow> (\<exists>c. st (manifest_of cs) = Some (File c) \<and> parse_projects E c = Some ps)"

definition manifests_wf :: "service_env \<Rightarrow> store \<Rightarrow> bool" where
  "manifests_wf E st \<longleftrightarrow> (\<forall>cs. hex_digest cs \<longrightarrow> st (manifest_of cs) \<noteq> None \<longrightarrow> (\<exists>ps. holds E st cs ps \<and> wf_projects ps))"

definition project_listed :: "service_env \<Rightarrow> store \<Rightarrow> string \<Rightarrow> bool" where
  "project_listed E st cs \<longleftrightarrow> (\<exists>ps. holds E st cs ps \<and> list_ex (of_project cs) ps)"

definition listed :: "service_env \<Rightarrow> store \<Rightarrow> string \<Rightarrow> string \<Rightarrow> bool" where
  "listed E st cs name \<longleftrightarrow>
     (\<exists>ps p. holds E st cs ps \<and> find (of_project cs) ps = Some p \<and> list_ex (\<lambda>m. ms_name m = name) (pr_mss p))"

definition sound_env :: "service_env \<Rightarrow> bool" where
  "sound_env E \<longleftrightarrow> faultless (kernel (env E)) \<and> tame_env (env E) \<and> (\<forall>p. fdopens E p) \<and>
     (\<forall>ps. parse_projects E (dump_projects E ps) = Some ps)"

lemma sound_envD:
  assumes "sound_env E"
  shows "faultless (kernel (env E))" "tame_env (env E)" "fdopens E p" "parse_projects E (dump_projects E ps) = Some ps"
  using assms by (simp_all add: sound_env_def)

lemma holds_fun: "holds E st cs ps \<Longrightarrow> holds E st cs ps' \<Longrightarrow> ps = ps'"
  by (auto simp: holds_def)

lemma find_update_first:
  assumes "\<And>p. pr_cacheDir (f p) = pr_cacheDir p"
  shows "find (of_project cs') (update_first (of_project cs) f ps) =
    map_option (\<lambda>p. if cs' = cs then f p else p) (find (of_project cs') ps)"
  using assms by (induction ps) (auto simp: of_project_def option.map_ident)

lemma update_first_names:
  assumes "\<And>p. pr_cacheDir (f p) = pr_cacheDir p"
  shows "map (\<lambda>p. path_filename (pr_cacheDir p)) (update_first P f ps) = map (\<lambda>p. path_filename (pr_cacheDir p)) ps"
  using assms by (induction ps) auto

lemma update_first_set: "set (update_first P f ps) \<subseteq> set ps \<union> f ` (case find P ps of None \<Rightarrow> {} | Some p \<Rightarrow> {p})"
  by (induction ps) auto

lemma wf_add_scenario:
  assumes "wf_projects ps" and "find (of_project cs) ps = Some p" and "\<not> list_ex (\<lambda>m. ms_name m = ms_name ms) (pr_mss p)"
  shows "wf_projects (update_first (of_project cs) (\<lambda>p. p\<lparr>pr_mss := pr_mss p @ [ms]\<rparr>) ps)"
proof -
  have "p \<in> set ps" using assms(2) by (metis find_Some_iff nth_mem)
  then have d: "distinct (map ms_name (pr_mss p @ [ms]))"
    using assms(1,3) by (auto simp: wf_projects_def list_ex_iff)
  have "distinct (map ms_name (pr_mss q))"
    if "q \<in> set (update_first (of_project cs) (\<lambda>p. p\<lparr>pr_mss := pr_mss p @ [ms]\<rparr>) ps)" for q
    using update_first_set [THEN subsetD, OF that] assms(1,2) d by (auto simp: wf_projects_def)
  then show ?thesis using assms(1) by (simp add: wf_projects_def update_first_names)
qed

lemma wf_add_project:
  "wf_projects ps \<Longrightarrow> \<not> list_ex (of_project (path_filename (pr_cacheDir p))) ps \<Longrightarrow> pr_mss p = [] \<Longrightarrow> wf_projects (ps @ [p])"
  by (auto simp: wf_projects_def list_ex_iff of_project_def)

text \<open>Nothing has changed but that directories on the way to \<open>d\<close> were made.\<close>

definition more_dirs :: "string \<Rightarrow> store \<Rightarrow> store \<Rightarrow> bool" where
  "more_dirs d st st' \<longleftrightarrow> (\<forall>p. st' p = st p \<or> st p = None \<and> st' p = Some Directory \<and> prefix p d)"

lemma more_dirs_refl [simp]: "more_dirs d st st"
  by (simp add: more_dirs_def)

lemma more_dirs_confined: "more_dirs d st st' \<Longrightarrow> confined d st st'"
  unfolding more_dirs_def confined_def by blast

lemma more_dirs_keep: "more_dirs d st st' \<Longrightarrow> st p = Some n \<Longrightarrow> st' p = Some n"
  unfolding more_dirs_def by (metis option.distinct(1))

text \<open>A store in which the manifest of a digest has been written, and others and what else there was are kept.\<close>

definition rewritten :: "service_env \<Rightarrow> string \<Rightarrow> string \<Rightarrow> project_entry list \<Rightarrow> store \<Rightarrow> store \<Rightarrow> bool" where
  "rewritten E cs d ps st st' \<longleftrightarrow> holds E st' cs ps \<and> (\<forall>q \<in> set (ancestors [] d). st' q = Some Directory) \<and>
     (\<exists>st1. more_dirs d st st1 \<and> (\<exists>n. st' = st1(manifest_of cs \<mapsto> n)))"

lemma rewritten_other: "rewritten E cs d ps st st' \<Longrightarrow> p \<noteq> manifest_of cs \<Longrightarrow> st' p = st p \<or> st p = None \<and> st' p = Some Directory \<and> prefix p d"
  by (auto simp: rewritten_def more_dirs_def)

definition entry_dir :: "string \<Rightarrow> string \<Rightarrow> bool" where
  "entry_dir cs d \<longleftrightarrow> hex_digest cs \<and> (d = child_path MBDIR cs \<or> (\<exists>n. plain_name n \<and> d = child_path (child_path MBDIR cs) n))"

lemma entry_dir_facts:
  assumes "entry_dir cs d" and "hex_digest cs'"
  shows "dir_path d" "MBDIR \<in> set (ancestors [] d)" "\<not> prefix (manifest_of cs') d" "manifest_of cs' \<noteq> d"
proof -
  show "dir_path d" using assms(1) by (auto simp: entry_dir_def dir_path_MBDIR digest_plain dir_path_child)
  have "child_path (child_path MBDIR cs) n = child_path MBDIR (cs @ ''/'' @ n)" for n by (simp add: child_path_def)
  then show "MBDIR \<in> set (ancestors [] d)" using assms(1) MBDIR_ancestor by (auto simp: entry_dir_def)
  show "\<not> prefix (manifest_of cs') d" using assms manifest_apart(1,2) [OF assms(2)] by (auto simp: entry_dir_def)
  then show "manifest_of cs' \<noteq> d" by auto
qed

lemma make_each_more_dirs: "make_each K (ancestors [] d) st = (ok, st') \<Longrightarrow> more_dirs d st st'"
  using make_each_new make_each_other ancestors_prefix [of _ "[]" d] unfolding more_dirs_def by fastforce

lemma make_each_succeeds:
  "faultless K \<Longrightarrow> (\<And>q c. q \<in> set ps \<Longrightarrow> st q \<noteq> Some (File c)) \<Longrightarrow> \<exists>st'. make_each K ps st = (True, st')"
proof (induction ps arbitrary: st)
  case (Cons a ps)
  then show ?case using Cons.IH [of st] Cons.IH [of "st(a \<mapsto> Directory)"]
    by (cases "st a") (auto simp: faultless_def split: fnode.splits)
qed simp

lemma create_then_write:
  assumes "sound_env E" and "entry_dir cs d" and "st (manifest_of cs) \<noteq> Some Directory"
    and "bind_action (create_dirs E d) (\<lambda>_. write_manifest E (manifest_of cs) ps) st = (Inr ok, st')"
  shows "ok \<and> rewritten E cs d ps st st'"
proof -
  have h: "hex_digest cs" using assms(2) by (simp add: entry_dir_def)
  note d = entry_dir_facts [OF assms(2) h]
  let ?K = "kernel (env E)"
  obtain st1 where c: "create_directories ?K d st = (True, st1)"
    and w: "(ok, st') = file_overwrite_content_sync ?K (manifest_of cs) (dump_projects E ps) st1"
    using assms(4) by (auto simp: action_defs write_manifest_def split: prod.splits if_splits)
  have m: "make_each ?K (ancestors [] d) st = (True, st1)" using c bare_dir_path [OF d(1)] by (simp add: create_directories_def)
  have notanc: "manifest_of cs \<notin> set (ancestors [] d)" using ancestors_prefix [of "manifest_of cs" "[]" d] d(3) by auto
  have dirs: "st1 MBDIR = Some Directory" "st1 d = Some Directory" "st1 (manifest_of cs) = st (manifest_of cs)"
    using make_each_makes [OF m] d(2) ancestors_dir(1) [OF d(1)] make_each_other [OF m notanc] by auto
  have "can_create ?K st1 (manifest_of cs)"
    using dirs assms(3) parent_child [OF dir_path_MBDIR manifest_name_plain [OF h]] dir_path_child [OF dir_path_MBDIR manifest_name_plain [OF h]]
    by (auto simp: can_create_def faultlessD [OF sound_envD(1) [OF assms(1)]] manifest_of_def dir_path_def)
  then have "ok" "st' = st1(manifest_of cs \<mapsto> File (dump_projects E ps))"
    using w file_overwrite_content_sync_well [of ?K st1 "manifest_of cs"] by (auto simp: faultlessD [OF sound_envD(1) [OF assms(1)]])
  moreover have "more_dirs d st st1" by (rule make_each_more_dirs [OF m])
  ultimately show ?thesis
    using make_each_makes [OF m] notanc sound_envD(4) [OF assms(1)] by (auto simp: rewritten_def holds_def)
qed


subsection \<open>Changes that keep the lists\<close>

definition listed_in :: "string \<Rightarrow> string \<Rightarrow> project_entry list \<Rightarrow> bool" where
  "listed_in cs name ps \<longleftrightarrow> (\<exists>p. find (of_project cs) ps = Some p \<and> list_ex (\<lambda>m. ms_name m = name) (pr_mss p))"

lemma listed_alt: "listed E st cs name \<longleftrightarrow> (\<exists>ps. holds E st cs ps \<and> listed_in cs name ps)"
  by (auto simp: listed_def listed_in_def)

definition grown :: "service_env \<Rightarrow> store \<Rightarrow> store \<Rightarrow> bool" where
  "grown E st st' \<longleftrightarrow> manifests_wf E st' \<and>
     (\<forall>cs. hex_digest cs \<longrightarrow> (project_listed E st cs \<longrightarrow> project_listed E st' cs) \<and> (\<forall>n. listed E st cs n \<longrightarrow> listed E st' cs n))"

text \<open>What is listed afterwards was listed before or is added.\<close>

definition adds :: "service_env \<Rightarrow> (string \<Rightarrow> string \<Rightarrow> bool) \<Rightarrow> store \<Rightarrow> store \<Rightarrow> bool" where
  "adds E A st st' \<longleftrightarrow> (\<forall>cs n. hex_digest cs \<longrightarrow> listed E st' cs n \<longrightarrow> listed E st cs n \<or> A cs n)"

lemma adds_refl: "adds E A st st"
  by (simp add: adds_def)

lemma grown_refl: "manifests_wf E st \<Longrightarrow> grown E st st"
  by (simp add: grown_def)

lemma grown_same:
  assumes "manifests_wf E st" and "\<And>cs. hex_digest cs \<Longrightarrow> st' (manifest_of cs) = st (manifest_of cs)"
  shows "grown E st st' \<and> adds E A st st'"
  using assms by (simp add: grown_def adds_def manifests_wf_def holds_def project_listed_def listed_def)

lemma confined_manifest:
  assumes "confined d st st'" and "entry_dir cs d" and "hex_digest cs'"
  shows "st' (manifest_of cs') = st (manifest_of cs')"
proof -
  have "\<not> below d (manifest_of cs')"
  proof -
    have "\<not> below (child_path MBDIR cs) (manifest_of cs')"
      using digest_head [of cs] assms(2) by (auto simp: entry_dir_def manifest_of_def child_path_def below_def prefix_def)
    then show ?thesis using assms(2) below_child_parent by (auto simp: entry_dir_def)
  qed
  then show ?thesis using assms(1) entry_dir_facts(3) [OF assms(2,3)] unfolding confined_def by blast
qed

lemma confined_grown: "confined d st st' \<Longrightarrow> entry_dir cs d \<Longrightarrow> manifests_wf E st \<Longrightarrow> grown E st st' \<and> adds E A st st'"
  by (rule grown_same) (auto intro: confined_manifest)

lemma rewritten_grown:
  assumes "rewritten E cs d ps st st'" and "entry_dir cs d" and "manifests_wf E st" and "wf_projects ps"
    and ext: "\<And>ps0 cs'. holds E st cs ps0 \<Longrightarrow> (list_ex (of_project cs') ps0 \<longrightarrow> list_ex (of_project cs') ps) \<and>
      (\<forall>n. listed_in cs' n ps0 \<longrightarrow> listed_in cs' n ps)"
    and new: "\<And>cs' n. listed_in cs' n ps \<Longrightarrow> (\<exists>ps0. holds E st cs ps0 \<and> listed_in cs' n ps0) \<or> A cs' n"
  shows "grown E st st' \<and> adds E A st st'"
proof -
  have other: "holds E st' cs' qs = holds E st cs' qs" if "hex_digest cs'" "manifest_of cs' \<noteq> manifest_of cs" for cs' qs
    using rewritten_other [OF assms(1) that(2)] entry_dir_facts(3) [OF assms(2) that(1)] unfolding holds_def by (metis (no_types))
  have same: "holds E s cs' qs = holds E s cs qs" if "manifest_of cs' = manifest_of cs" for s cs' qs
    using that by (simp add: holds_def)
  have now: "holds E st' cs ps" using assms(1) by (simp add: rewritten_def)
  have "\<exists>qs. holds E st' cs' qs \<and> wf_projects qs" if "hex_digest cs'" "st' (manifest_of cs') \<noteq> None" for cs'
  proof (cases "manifest_of cs' = manifest_of cs")
    case True
    then show ?thesis using now assms(4) same by blast
  next
    case False
    then have "st' (manifest_of cs') = st (manifest_of cs')"
      using rewritten_other [OF assms(1)] entry_dir_facts(3) [OF assms(2) that(1)] by blast
    then show ?thesis using assms(3) that other [OF that(1) False] by (simp add: manifests_wf_def)
  qed
  moreover have "project_listed E st' cs'" if "hex_digest cs'" "project_listed E st cs'" for cs'
    using that other [OF that(1)] same now ext unfolding project_listed_def by (cases "manifest_of cs' = manifest_of cs") blast+
  moreover have "listed E st' cs' n" if "hex_digest cs'" "listed E st cs' n" for cs' n
    using that other [OF that(1)] same now ext unfolding listed_alt by (cases "manifest_of cs' = manifest_of cs") blast+
  moreover have "listed E st cs' n \<or> A cs' n" if "hex_digest cs'" "listed E st' cs' n" for cs' n
    using that other [OF that(1)] same now new holds_fun unfolding listed_alt by (cases "manifest_of cs' = manifest_of cs") metis+
  ultimately show ?thesis by (simp add: grown_def adds_def manifests_wf_def)
qed

subsection \<open>Registering and admitting\<close>

lemma read_manifest_holds:
  assumes "sound_env E" and "hex_digest cs" and "holds E st cs ps"
  shows "read_manifest E (manifest_of cs) st = (Inr (Some ps), st)"
proof -
  have "bare (manifest_of cs) = manifest_of cs"
    unfolding manifest_of_def by (rule bare_dir_path [OF dir_path_child [OF dir_path_MBDIR manifest_name_plain [OF assms(2)]]])
  then show ?thesis
    using assms(3) by (auto simp: read_manifest_def check_action_def lockRDFD_def open_read_def holds_def node_text_of_def
        faultlessD [OF sound_envD(1) [OF assms(1)]] sound_envD(3) [OF assms(1)])
qed

lemma create_then_write_error:
  assumes "bind_action (create_dirs E d) (\<lambda>_. write_manifest E man ps) st = (Inl e, st')" and "dir_path d"
    and "faultless (kernel (env E))"
  shows "more_dirs d st st' \<and> e = Std_exception \<and> (\<exists>q c. prefix q d \<and> st q = Some (File c))"
proof -
  have m: "make_each (kernel (env E)) (ancestors [] d) st = (False, st')" "e = Std_exception"
    using assms(1) bare_dir_path [OF assms(2)]
    by (auto simp: action_defs write_manifest_def create_directories_def split: prod.splits if_splits)
  have "\<exists>q c. q \<in> set (ancestors [] d) \<and> st q = Some (File c)"
    using make_each_succeeds [OF assms(3), of "ancestors [] d" st] m(1) by fastforce
  then show ?thesis using m make_each_more_dirs [OF m(1)] ancestors_prefix [of _ "[]" d] by fastforce
qed

lemma bare_manifest: "hex_digest cs \<Longrightarrow> bare (manifest_of cs) = manifest_of cs"
  unfolding manifest_of_def by (rule bare_dir_path [OF dir_path_child [OF dir_path_MBDIR manifest_name_plain]])

lemma register_cases:
  assumes "sound_env E" and "manifests_wf E st" and "rq_register E rq st = (r, st')"
  defines "cs \<equiv> rq_checksum rq" and "d \<equiv> child_path MBDIR (rq_checksum rq)"
  shows "r = Inl Std_exception \<and> more_dirs d st st' \<and> (\<exists>q c. prefix q d \<and> st q = Some (File c)) \<or> r = Inr True \<and> grown E st st' \<and> adds E (\<lambda>_ _. False) st st' \<and> project_listed E st' cs \<and>
    (\<exists>st1. more_dirs d st st1 \<and> (\<exists>n. st' = st1(manifest_of cs := n)))"
proof -
  have h: "hex_digest cs" by (simp add: cs_def rq_checksum_def calc_digest)
  have ed: "entry_dir cs d" using h by (simp add: entry_dir_def d_def cs_def)
  have dp: "dir_path d" using entry_dir_facts(1) [OF ed h] .
  have p: "manifest_path (rq_project rq) (rq_path rq) = manifest_of cs" "project_dir (rq_project rq) (rq_path rq) = d"
    "calcProjChecksum (rq_project rq) (rq_path rq) = cs"
    by (simp_all add: paths cs_def d_def rq_checksum_def)
  define q where "q = \<lparr>pr_project = rq_project rq, pr_path = rq_path rq, pr_cacheDir = d, pr_mss = []\<rparr>"
  have q: "path_filename (pr_cacheDir q) = cs" "pr_mss q = []" "of_project cs q"
    using filename_child [OF digest_plain [OF h]] by (simp_all add: q_def d_def cs_def of_project_def)
  have written: ?thesis if "bind_action (create_dirs E d) (\<lambda>_. write_manifest E (manifest_of cs) (ps @ [q])) st = (r, st')"
    "holds E st cs ps \<or> ps = [] \<and> st (manifest_of cs) = None" "wf_projects ps" "\<not> list_ex (of_project cs) ps" for ps
  proof (cases r)
    case (Inl e)
    then show ?thesis using create_then_write_error [OF that(1) [unfolded Inl] dp sound_envD(1) [OF assms(1)]] by simp
  next
    case (Inr ok)
    have "st (manifest_of cs) \<noteq> Some Directory" using that(2) by (auto simp: holds_def)
    note w = create_then_write [OF assms(1) ed this that(1) [unfolded Inr]]
    have "grown E st st' \<and> adds E (\<lambda>_ _. False) st st'"
    proof (rule rewritten_grown [OF conjunct2 [OF w] ed assms(2)])
      show "(\<exists>ps0. holds E st cs ps0 \<and> listed_in cs' n ps0) \<or> False" if "listed_in cs' n (ps @ [q])" for cs' n
      proof -
        have "listed_in cs' n ps" using that q(2) by (induction ps) (auto simp: listed_in_def split: if_splits)
        then show ?thesis using \<open>holds E st cs ps \<or> ps = [] \<and> st (manifest_of cs) = None\<close> by (auto simp: listed_in_def)
      qed
    next
      show "wf_projects (ps @ [q])" by (rule wf_add_project [OF that(3) _ q(2)]) (simp add: q(1) that(4))
      show "(list_ex (of_project cs') ps0 \<longrightarrow> list_ex (of_project cs') (ps @ [q])) \<and> (\<forall>n. listed_in cs' n ps0 \<longrightarrow> listed_in cs' n (ps @ [q]))"
        if "holds E st cs ps0" for ps0 cs'
      proof -
        have "ps0 = ps" using that \<open>holds E st cs ps \<or> ps = [] \<and> st (manifest_of cs) = None\<close> by (auto simp: holds_def)
        moreover have "find (of_project cs') (ps @ [q]) = Some x" if "find (of_project cs') ps = Some x" for x
          using that by (induction ps) (auto split: if_splits)
        ultimately show ?thesis by (auto simp: listed_in_def)
      qed
    qed
    moreover have "\<exists>st1. more_dirs d st st1 \<and> (\<exists>n. st' = st1(manifest_of cs := n))" using w unfolding rewritten_def by blast
    ultimately show ?thesis using w Inr q(3) by (auto simp: rewritten_def project_listed_def)
  qed
  show ?thesis
  proof (cases "st (manifest_of cs)")
    case None
    then have "bind_action (create_dirs E d) (\<lambda>_. write_manifest E (manifest_of cs) ([] @ [q])) st = (r, st')"
      using assms(3) by (simp add: rq_register_def checkAndAddProjectMetadata_def Let_def p q_def bind_action_def [of "check_action _"]
          check_action_def fs_exists_def bare_manifest [OF h])
    then show ?thesis by (rule written) (simp_all add: None wf_projects_def)
  next
    case (Some n)
    then obtain ps where ps: "holds E st cs ps" "wf_projects ps" using assms(2) h by (auto simp: manifests_wf_def)
    note rd = read_manifest_holds [OF assms(1) h ps(1)]
    have r: "(r, st') = (if list_ex (of_project cs) ps then (Inr True, st)
        else bind_action (create_dirs E d) (\<lambda>_. write_manifest E (manifest_of cs) (ps @ [q])) st)"
      using assms(3) Some rd
      by (auto simp: rq_register_def checkAndAddProjectMetadata_def Let_def p q_def bind_action_def [of "check_action _"]
          bind_action_def [of "read_manifest _ _"] check_action_def fs_exists_def bare_manifest [OF h] return_action_def split: if_splits)
    show ?thesis
    proof (cases "list_ex (of_project cs) ps")
      case True
      then have "r = Inr True" "st' = st" using r by simp_all
      moreover have "more_dirs d st st \<and> st = st(manifest_of cs := st (manifest_of cs))" by simp
      ultimately show ?thesis using True ps grown_refl [OF assms(2)] adds_refl unfolding project_listed_def by blast
    next
      case False
      then show ?thesis using r written [OF _ _ ps(2) False] ps(1) by simp
    qed
  qed
qed


lemma admit_cases:
  assumes "sound_env E" and "manifests_wf E st" and "plain_name (ms_name (rq_ms rq))" and "project_listed E st (rq_checksum rq)"
    and "rq_admit E rq st = (r, st')"
  defines "cs \<equiv> rq_checksum rq" and "n \<equiv> ms_name (rq_ms rq)"
  defines "d \<equiv> child_path (child_path MBDIR cs) n"
  shows "r = Inl (App ''C1000'') \<and> st' = st \<and> listed E st cs n \<and> fs_exists st (child_path d ''running'') \<or>
    r = Inl Std_exception \<and> more_dirs d st st' \<and> \<not> listed E st cs n \<and> (\<exists>q c. prefix q d \<and> st q = Some (File c)) \<or>
    r = Inr True \<and> st' = st \<and> listed E st cs n \<and> \<not> fs_exists st (child_path d ''running'') \<or>
    r = Inr True \<and> \<not> listed E st cs n \<and> listed E st' cs n \<and> grown E st st' \<and> adds E (\<lambda>cs' n'. cs' = cs \<and> n' = n) st st' \<and>
      st' (child_path MBDIR cs) = Some Directory \<and> st' d = Some Directory \<and>
      (\<exists>st1. more_dirs d st st1 \<and> (\<exists>n. st' = st1(manifest_of cs := n)))"
proof -
  have h: "hex_digest cs" by (simp add: cs_def rq_checksum_def calc_digest)
  have ed: "entry_dir cs d" using h assms(3) by (auto simp: entry_dir_def d_def n_def)
  have dp: "dir_path d" using entry_dir_facts(1) [OF ed h] .
  have p: "manifest_path (rq_project rq) (rq_path rq) = manifest_of cs" "scenario_dir (rq_project rq) (rq_path rq) (rq_ms rq) = d"
    "calcProjChecksum (rq_project rq) (rq_path rq) = cs" "ms_name (rq_ms rq) = n"
    by (simp_all add: paths assms(3) cs_def d_def n_def rq_checksum_def)
  have sg: "path_join d ''running'' = child_path d ''running''" by (rule join_child [OF dp]) (simp add: plain_name_def)
  obtain ps where ps: "holds E st cs ps" "list_ex (of_project cs) ps" using assms(4) by (auto simp: project_listed_def cs_def)
  then obtain q where q: "find (of_project cs) ps = Some q" by (cases "find (of_project cs) ps") (auto simp: find_None_iff list_ex_iff)
  have wf: "wf_projects ps" using assms(2) ps(1) holds_fun by (auto simp: manifests_wf_def h) (metis h holds_def option.distinct(1))
  have ex: "fs_exists st (manifest_of cs)" using ps(1) bare_manifest [OF h] by (auto simp: holds_def fs_exists_def)
  have l: "listed E st cs n \<longleftrightarrow> list_ex (\<lambda>m. ms_name m = n) (pr_mss q)"
    using ps(1) q by (auto simp: listed_def dest: holds_fun [OF ps(1)])
  let ?ps = "update_first (of_project cs) (\<lambda>p. p\<lparr>pr_mss := pr_mss p @ [rq_ms rq]\<rparr>) ps"
  have r: "(r, st') = (if listed E st cs n then (if fs_exists st (child_path d ''running'') then Inl (App ''C1000'') else Inr True, st)
      else bind_action (create_dirs E d) (\<lambda>_. write_manifest E (manifest_of cs) ?ps) st)"
    using assms(5) read_manifest_holds [OF assms(1) h ps(1)] q ex
    by (auto simp: rq_admit_def checkAndAddMSMetadata_def Let_def p sg l bind_action_def [of "check_action _"]
        bind_action_def [of "read_manifest _ _"] check_action_def split: if_splits)
  show ?thesis
  proof (cases "listed E st cs n")
    case True
    then show ?thesis using r by auto
  next
    case False
    then have r': "bind_action (create_dirs E d) (\<lambda>_. write_manifest E (manifest_of cs) ?ps) st = (r, st')" using r by simp
    show ?thesis
    proof (cases r)
      case (Inl e)
      then show ?thesis using create_then_write_error [OF r' [unfolded Inl] dp sound_envD(1) [OF assms(1)]] False by simp
    next
      case (Inr ok)
      have "st (manifest_of cs) \<noteq> Some Directory" using ps(1) by (auto simp: holds_def)
      note w = create_then_write [OF assms(1) ed this r' [unfolded Inr]]
      have fd: "find (of_project cs') ?ps = map_option (\<lambda>p. if cs' = cs then p\<lparr>pr_mss := pr_mss p @ [rq_ms rq]\<rparr> else p) (find (of_project cs') ps)" for cs'
        by (rule find_update_first) simp
      have "grown E st st' \<and> adds E (\<lambda>cs' n'. cs' = cs \<and> n' = n) st st'"
      proof (rule rewritten_grown [OF conjunct2 [OF w] ed assms(2)])
        show "wf_projects ?ps" by (rule wf_add_scenario [OF wf q]) (use False l in \<open>simp add: n_def\<close>)
        show "(list_ex (of_project cs') ps0 \<longrightarrow> list_ex (of_project cs') ?ps) \<and> (\<forall>n. listed_in cs' n ps0 \<longrightarrow> listed_in cs' n ?ps)"
          if "holds E st cs ps0" for ps0 cs'
        proof -
          have e: "ps0 = ps" using holds_fun [OF that ps(1)] .
          have "list_ex (of_project cs') xs \<longleftrightarrow> find (of_project cs') xs \<noteq> None" for xs by (auto simp: find_None_iff list_ex_iff)
          then show ?thesis using fd [of cs'] e by (auto simp: listed_in_def split: if_splits)
        qed
        show "(\<exists>ps0. holds E st cs ps0 \<and> listed_in cs' n' ps0) \<or> cs' = cs \<and> n' = n" if "listed_in cs' n' ?ps" for cs' n'
          using that ps(1) fd [of cs'] by (auto simp: listed_in_def n_def split: if_splits)
      qed
      moreover have "listed E st' cs n"
        using w fd [of cs] q by (auto simp: rewritten_def listed_def n_def)
      moreover have "\<exists>st1. more_dirs d st st1 \<and> (\<exists>n. st' = st1(manifest_of cs := n))" using w unfolding rewritten_def by blast
      moreover have "st' (child_path MBDIR cs) = Some Directory" "st' d = Some Directory"
        using w ancestors_dir(1) [OF dp] parent_ancestor [of "child_path MBDIR cs" n] by (auto simp: rewritten_def d_def child_path_def)
      ultimately show ?thesis using w Inr False by blast
    qed
  qed
qed

end
