(* ===== verification/ServiceRuns.thy ===== *)
theory ServiceRuns
  imports ServiceFacts
begin

section \<open>Runs of the web service\<close>

text \<open>
  The invariant of all runs, the absence of two resolutions of one scenario in serial runs, and what a failing command leaves.
\<close>

subsection \<open>Directories of scenarios\<close>

definition ms_slot :: "string \<Rightarrow> string \<Rightarrow> string" where
  "ms_slot cs n = child_path (child_path MBDIR cs) n"

lemma slot_entry: "hex_digest cs \<Longrightarrow> plain_name n \<Longrightarrow> entry_dir cs (ms_slot cs n)"
  by (auto simp: entry_dir_def ms_slot_def)

lemma slot_dir: "hex_digest cs \<Longrightarrow> plain_name n \<Longrightarrow> dir_path (ms_slot cs n)"
  by (rule entry_dir_facts(1) [OF slot_entry])

lemma slot_below:
  assumes "hex_digest cs" "hex_digest cs'" "plain_name n" "plain_name n'" "below (ms_slot cs n) p" "below (ms_slot cs' n') p"
  shows "cs = cs' \<and> n = n'"
proof -
  have c: "cs = cs'"
    using below_child [OF digest_plain [OF assms(1)] digest_plain [OF assms(2)], of MBDIR p] assms(5,6) below_child_parent
    by (auto simp: ms_slot_def)
  then show ?thesis using below_child [OF assms(3,4)] assms(5,6) by (auto simp: ms_slot_def)
qed

lemma slot_not_above: "hex_digest cs \<Longrightarrow> hex_digest cs' \<Longrightarrow> plain_name n \<Longrightarrow> \<not> below (ms_slot cs n) (child_path MBDIR cs')"
  using below_child [OF digest_plain digest_plain, of cs cs' MBDIR "child_path MBDIR cs'"] below_child_parent
  by (auto simp: ms_slot_def)

lemma rq_digest: "hex_digest (rq_checksum rq)"
  by (simp add: rq_checksum_def calc_digest)

lemma rm_digest: "hex_digest (projectCheckSum m)"
  by (simp add: manager_checksum calc_digest)

lemma rq_slot: "plain_name (ms_name (rq_ms rq)) \<Longrightarrow> rq_dir rq = ms_slot (rq_checksum rq) (ms_name (rq_ms rq))"
  by (simp add: rq_dir_def paths(3) ms_slot_def rq_checksum_def)

lemma rm_slot: "plain_name (ms_name (rm_ms m)) \<Longrightarrow> mergeScenarioPath m = ms_slot (projectCheckSum m) (ms_name (rm_ms m))"
  unfolding mergeScenarioPath_def ms_slot_def
  by (simp add: join_child dir_path_MBDIR dir_path_child digest_plain rm_digest)

definition sign :: "string \<Rightarrow> string" where
  "sign d = child_path d ''running''"

lemma sign_name: "plain_name ''running''"
  by (simp add: plain_name_def)

lemma sign_join: "dir_path d \<Longrightarrow> path_join d ''running'' = sign d"
  by (simp add: sign_def join_child sign_name)

lemma sign_dir: "dir_path d \<Longrightarrow> dir_path (sign d)"
  by (simp add: sign_def dir_path_child sign_name)

lemma sign_below: "below d (sign d)"
  by (simp add: sign_def)

lemma sign_other: "sign d \<noteq> d"
  by (simp add: sign_def child_path_def)

lemma sign_exists: "dir_path d \<Longrightarrow> fs_exists st (sign d) \<longleftrightarrow> st (sign d) \<noteq> None"
  by (simp add: fs_exists_def bare_dir_path sign_dir)

lemma manifest_sign: "hex_digest cs \<Longrightarrow> hex_digest cs' \<Longrightarrow> manifest_of cs \<noteq> sign (ms_slot cs' n)"
  using digest_head [of cs'] by (auto simp: manifest_of_def sign_def ms_slot_def child_path_def)

subsection \<open>Starting a resolution\<close>

definition files_in :: "string set \<Rightarrow> store \<Rightarrow> bool" where
  "files_in F st \<longleftrightarrow> (\<forall>p c. st p = Some (File c) \<longrightarrow> p \<in> F)"

lemma files_in_upd: "files_in F st \<Longrightarrow> p \<in> F \<Longrightarrow> files_in F (st(p := n))"
  by (simp add: files_in_def)

lemma files_in_more: "more_dirs d st st' \<Longrightarrow> files_in F st \<Longrightarrow> files_in F st'"
  unfolding more_dirs_def files_in_def by (metis fnode.distinct(1) option.inject)

text \<open>The list of files is written into its own directory; it fails only when a file is in the way.\<close>

definition conflict_dir :: "string \<Rightarrow> string" where
  "conflict_dir d = child_path d ''conflicts''"

definition conflict_list :: "string \<Rightarrow> string" where
  "conflict_list d = child_path (conflict_dir d) ''conflict-sources.txt''"

lemma conflicts_written:
  assumes "dir_path d" and "writeConflictFiles E d cont st = (r, st')" and "faultless (kernel (env E))"
  shows "confined (conflict_dir d) st st' \<and> r \<noteq> Inl Crash \<and>
    (files_in F st \<longrightarrow> conflict_list d \<in> F \<longrightarrow> files_in F st' \<and> ((\<forall>q \<in> F. \<not> prefix q (conflict_dir d)) \<longrightarrow> (\<exists>ok. r = Inr ok)))"
proof -
  let ?c = "conflict_dir d" and ?f = "conflict_list d"
  have n: "plain_name ''conflicts''" "plain_name ''conflict-sources.txt''" by (simp_all add: plain_name_def)
  have dc: "dir_path ?c" unfolding conflict_dir_def by (rule dir_path_child [OF assms(1) n(1)])
  have p: "path_join (path_join d ''conflicts'') ''conflict-sources.txt'' = ?f" "parent_path ?f = ?c"
    by (simp_all only: conflict_list_def conflict_dir_def join_child [OF assms(1) n(1)]
        join_child [OF dc [unfolded conflict_dir_def] n(2)] parent_child [OF dc [unfolded conflict_dir_def] n(2)])
  obtain ok1 st1 where mk: "create_directories (kernel (env E)) ?c st = (ok1, st1)" by (metis surj_pair)
  then have me: "make_each (kernel (env E)) (ancestors [] ?c) st = (ok1, st1)" using bare_dir_path [OF dc] by (simp add: create_directories_def)
  have w: "confined ?c st s \<Longrightarrow> confined ?c st (s(?f := x))" for s x
    by (rule confined_trans [OF _ confined_updI]) (simp_all add: conflict_list_def)
  have c: "confined ?c st st1" by (rule confined_create [OF mk]) (simp add: bare_dir_path [OF dc])
  have f: "files_in F st \<Longrightarrow> files_in F st1" by (rule files_in_more [OF make_each_more_dirs [OF me]])
  have ok: "ok1" if "files_in F st" "\<forall>q \<in> F. \<not> prefix q ?c"
    using make_each_succeeds [OF assms(3), of "ancestors [] ?c" st] me that ancestors_prefix [of _ "[]" ?c] by (fastforce simp: files_in_def)
  have "(fs_exists st ?c \<and> writes E cont st = (r, st')) \<or> \<not> fs_exists st ?c \<and> (if ok1 then writes E cont st1 = (r, st') else r = Inl Std_exception \<and> st' = st1)"
    if "writes = (\<lambda>E cont st. case open_write (kernel (env E)) st ?f of
              None \<Rightarrow> (Inr False, st)
            | Some st1 \<Rightarrow>
                (case written (kernel (env E)) ?f 0 (length cont) of
                   None \<Rightarrow> (Inr False, st1)
                 | Some m \<Rightarrow> (Inr True, st1(?f \<mapsto> File (take m cont)))))" for writes
    using assms(2) unfolding that writeConflictFiles_def Let_def p by (auto simp: action_defs mk split: if_splits)
  then show ?thesis
    using w [OF c] w [OF confined_refl] f ok c
    by (auto simp: open_write_def files_in_upd split: if_splits option.splits)
qed

lemma files_in_clear: "files_in F st \<Longrightarrow> files_in F (clear_sign d st)"
  by (auto simp: clear_sign_def Let_def remove_def files_in_def)

lemma sign_set:
  assumes "plain_name (ms_name (rq_ms rq))" and "st (rq_dir rq) = Some Directory" and "sound_env E"
  obtains st1 where "setRunningSign E (project_dir (rq_project rq) (rq_path rq)) (ms_name (rq_ms rq)) st = (Inr (), st1)"
    "confined (rq_dir rq) st st1" "st1 (rq_dir rq) = Some Directory" "st1 (sign (rq_dir rq)) \<noteq> None"
    "\<forall>F. files_in F st \<longrightarrow> sign (rq_dir rq) \<in> F \<longrightarrow> files_in F st1"
proof -
  let ?d = "rq_dir rq" and ?K = "kernel (env E)"
  define st1 where "st1 = file_overwrite_content ?K (sign ?d) ''1'' st"
  have dp: "dir_path ?d" unfolding rq_slot [OF assms(1)] by (rule slot_dir [OF rq_digest assms(1)])
  have j: "path_join (project_dir (rq_project rq) (rq_path rq)) (ms_name (rq_ms rq)) = ?d" by (simp add: rq_dir_def scenario_dir_def)
  have sg: "st1 (sign ?d) \<noteq> None"
  proof (cases "st (sign ?d) = Some Directory")
    case False
    then have "can_create ?K st (sign ?d)"
      using assms(2) parent_child [OF dp sign_name] sign_dir [OF dp] faultlessD [OF sound_envD(1) [OF assms(3)]]
      by (auto simp: can_create_def dir_path_def sign_def)
    then show ?thesis by (simp add: st1_def file_overwrite_content_def open_write_def)
  qed (simp add: st1_def file_overwrite_content_def open_write_def can_create_def)
  have other: "st1 p = st p" if "p \<noteq> sign ?d" for p
    using that by (auto simp: st1_def file_overwrite_content_def open_write_def)
  show ?thesis
  proof
    show "setRunningSign E (project_dir (rq_project rq) (rq_path rq)) (ms_name (rq_ms rq)) st = (Inr (), st1)"
      using assms(2) by (simp add: setRunningSign_def Let_def j fs_exists_def bare_dir_path [OF dp] sign_join [OF dp] st1_def)
    show "confined ?d st st1" unfolding st1_def by (rule confined_overwrite [OF sign_below])
    show "st1 ?d = Some Directory" using other [of ?d] sign_other [of ?d] assms(2) by simp
    show "\<forall>F. files_in F st \<longrightarrow> sign ?d \<in> F \<longrightarrow> files_in F st1"
      using other unfolding files_in_def by metis
  qed (use sg other in auto)
qed

lemma resolve_cases:
  assumes "plain_name (ms_name (rq_ms rq))" and "st (rq_dir rq) = Some Directory" and "rq_resolve E rq st = (r, st')" and "sound_env E"
  shows "r \<noteq> Inl Crash \<and> confined (rq_dir rq) st st' \<and> st' (rq_dir rq) = Some Directory \<and>
    (\<forall>m. r = Inr m \<longrightarrow> (\<exists>fs. m = mkResolutionManager (rq_project rq) (rq_path rq) (rq_ms rq) (rq_cdb rq) fs) \<and> st' (sign (rq_dir rq)) \<noteq> None) \<and>
    (files_in F st \<longrightarrow> sign (rq_dir rq) \<in> F \<longrightarrow> conflict_list (rq_dir rq) \<in> F \<longrightarrow> files_in F st' \<and>
      (thread_starts E \<longrightarrow> filter is_cpp_file (rq_files rq) \<noteq> [] \<longrightarrow> (\<forall>q \<in> F. \<not> prefix q (conflict_dir (rq_dir rq))) \<longrightarrow> (\<exists>m. r = Inr m)))"
proof -
  let ?d = "rq_dir rq"
  obtain st1 where set: "setRunningSign E (project_dir (rq_project rq) (rq_path rq)) (ms_name (rq_ms rq)) st = (Inr (), st1)"
    and c1: "confined ?d st st1" and s: "st1 ?d = Some Directory" and sg: "st1 (sign ?d) \<noteq> None"
    and fi: "\<forall>F. files_in F st \<longrightarrow> sign ?d \<in> F \<longrightarrow> files_in F st1"
    by (rule sign_set [where st = st and rq = rq, OF assms(1,2,4)])
  have f1: "files_in F st \<Longrightarrow> sign ?d \<in> F \<Longrightarrow> files_in F st1" for F using fi by blast
  have dp: "dir_path ?d" unfolding rq_slot [OF assms(1)] by (rule slot_dir [OF rq_digest assms(1)])
  have j: "path_join (project_dir (rq_project rq) (rq_path rq)) (ms_name (rq_ms rq)) = ?d" by (simp add: rq_dir_def scenario_dir_def)
  have m: "mergeScenarioPath (mkResolutionManager (rq_project rq) (rq_path rq) (rq_ms rq) cdb fs) = ?d" for cdb fs
    by (simp add: manager_dir rq_dir_def)
  have clr: "confined ?d s (clear_sign ?d s)" for s using clear_sign_confined [OF dp] by simp
  have clrd: "clear_sign ?d s ?d = s ?d" for s
    using sign_other [of ?d] by (simp add: clear_sign_def Let_def sign_join [OF dp] remove_def bare_dir_path [OF sign_dir [OF dp]])
  have n: "plain_name ''conflicts''" by (simp add: plain_name_def)
  note written = conflicts_written [OF dp _ sound_envD(1) [OF assms(4)]]
  have wr: "confined ?d s s' \<and> keeps ?d s s' \<and> keeps (sign ?d) s s' \<and> r' \<noteq> Inl Crash" if "writeConflictFiles E ?d cont s = (r', s')" for cont s r' s'
  proof -
    have c: "confined (child_path ?d ''conflicts'') s s'" "r' \<noteq> Inl Crash" using written [OF that, of "{}"] by (simp_all add: conflict_dir_def)
    then show ?thesis
      using confined_mono [OF c(1) below_own] confined_keeps [OF c(1)] other_entry [OF spared_sign c(1) n] by (simp add: sign_def)
  qed
  obtain lr where l: "list_conflicts E (rq_path rq) (rq_files rq) st1 = (lr, st1)" "lr \<noteq> Inl Crash"
    by (cases "list_conflicts E (rq_path rq) (rq_files rq) st1")
      (auto simp: list_conflicts_def return_action_def throw_action_def split: sum.splits if_splits)
  have own: "rq_files rq \<noteq> [] \<Longrightarrow> lr = Inr (rq_files rq)" using l(1) by (simp add: list_conflicts_def return_action_def)
  note run = assms(3) [unfolded rq_resolve_def goResolve_def Let_def j bind_action_def [of "setRunningSign _ _ _"] set prod.case sum.case
      bind_action_def [of "list_conflicts _ _ _"] l(1)]
  show ?thesis
  proof (cases lr)
    case (Inl e)
    moreover have "rq_files rq = []" using own Inl by auto
    ultimately show ?thesis using run l(2) c1 s f1 by auto
  next
    case (Inr fs)
    show ?thesis
    proof (cases "filter is_cpp_file fs = []")
      case True
      then have "r = Inl (App ''U1000'')" "st' = clear_sign ?d st1"
        using run Inr by (auto simp: bind_action_def removeRunningSign_def throw_action_def split: if_splits)
      moreover have "filter is_cpp_file (rq_files rq) = []" using own Inr True by (cases "rq_files rq = []") auto
      ultimately show ?thesis using True confined_trans [OF c1 clr] clrd s f1 files_in_clear by auto
    next
      case False
      then have "fs \<noteq> []" by auto
      obtain r2 st2 where w: "writeConflictFiles E ?d (string_join (filter is_cpp_file fs) [NL]) st1 = (r2, st2)" by (metis surj_pair)
      have c2: "confined ?d st st2" "st2 ?d = Some Directory" "st2 (sign ?d) \<noteq> None" "r2 \<noteq> Inl Crash"
        using wr [OF w] confined_trans [OF c1] s sg by (auto simp: keeps_def)
      have "(r, st') = (case r2 of Inl e \<Rightarrow> (Inl e, st2) | Inr _ \<Rightarrow>
          if thread_starts E then (Inr (mkResolutionManager (rq_project rq) (rq_path rq) (rq_ms rq) (rq_cdb rq) (filter is_cpp_file fs)), st2)
          else (Inl Std_exception, clear_sign ?d st2))"
        using run Inr False \<open>fs \<noteq> []\<close> w m
        by (auto simp: bind_action_def removeRunningSign_def throw_action_def return_action_def split: sum.splits if_splits)
      then show ?thesis
        using c2 confined_trans [OF c2(1) clr] clrd written [OF w, of F] f1 [of F] files_in_clear [of F]
        by (auto split: sum.splits if_splits)
    qed
  qed
qed

subsection \<open>The invariant of all runs\<close>

definition dirs_made :: "service_env \<Rightarrow> store \<Rightarrow> bool" where
  "dirs_made E st \<longleftrightarrow> st MBDIR = Some Directory \<and> (\<forall>cs n. hex_digest cs \<longrightarrow> plain_name n \<longrightarrow> listed E st cs n \<longrightarrow>
     st (child_path MBDIR cs) = Some Directory \<and> st (ms_slot cs n) = Some Directory)"

definition sound_service :: "service_env \<Rightarrow> service \<Rightarrow> bool" where
  "sound_service E s \<longleftrightarrow> manifests_wf E (disk s) \<and> dirs_made E (disk s) \<and>
     (\<forall>rq \<in> set (known s). plain_name (ms_name (rq_ms rq)) \<and> project_listed E (disk s) (rq_checksum rq)) \<and>
     (\<forall>rq \<in> set (admitted s). plain_name (ms_name (rq_ms rq)) \<and> listed E (disk s) (rq_checksum rq) (ms_name (rq_ms rq))) \<and>
     (\<forall>m \<in> set (jobs s). plain_name (ms_name (rm_ms m)) \<and> listed E (disk s) (projectCheckSum m) (ms_name (rm_ms m)))"

text \<open>A change of the store that keeps the lists and makes the directories of what it adds.\<close>

definition advances :: "service_env \<Rightarrow> store \<Rightarrow> store \<Rightarrow> bool" where
  "advances E st st' \<longleftrightarrow> grown E st st' \<and> dirs_made E st'"

lemma sound_service_advance:
  assumes "sound_service E s" and "advances E (disk s) st"
    and "set ks \<subseteq> set (known s) \<union> {rq. plain_name (ms_name (rq_ms rq)) \<and> project_listed E st (rq_checksum rq)}"
    and "set as \<subseteq> set (admitted s) \<union> {rq. plain_name (ms_name (rq_ms rq)) \<and> listed E st (rq_checksum rq) (ms_name (rq_ms rq))}"
    and "set js \<subseteq> set (jobs s) \<union> {m. plain_name (ms_name (rm_ms m)) \<and> listed E st (projectCheckSum m) (ms_name (rm_ms m))}"
  shows "sound_service E \<lparr>disk = st, known = ks, admitted = as, jobs = js\<rparr>"
proof -
  have g: "manifests_wf E st" "dirs_made E st" "project_listed E (disk s) cs \<Longrightarrow> hex_digest cs \<Longrightarrow> project_listed E st cs"
    "listed E (disk s) cs n \<Longrightarrow> hex_digest cs \<Longrightarrow> listed E st cs n" for cs n
    using assms(2) by (auto simp: advances_def grown_def)
  then show ?thesis using assms(1,3-5) rq_digest rm_digest unfolding sound_service_def by fastforce
qed

lemma dirs_made_step:
  assumes "dirs_made E st" and "adds E A st st'"
    and "\<And>cs n. hex_digest cs \<Longrightarrow> plain_name n \<Longrightarrow> st (child_path MBDIR cs) = Some Directory \<Longrightarrow> st (ms_slot cs n) = Some Directory \<Longrightarrow>
      st' (child_path MBDIR cs) = Some Directory \<and> st' (ms_slot cs n) = Some Directory"
    and "\<And>cs n. A cs n \<Longrightarrow> st' (child_path MBDIR cs) = Some Directory \<and> st' (ms_slot cs n) = Some Directory"
    and "st MBDIR = Some Directory \<Longrightarrow> st' MBDIR = Some Directory"
  shows "dirs_made E st'"
  using assms unfolding dirs_made_def adds_def by metis

lemma manifest_no_slot: "hex_digest cs \<Longrightarrow> hex_digest cs' \<Longrightarrow> plain_name n \<Longrightarrow> manifest_of cs \<noteq> ms_slot cs' n \<and> manifest_of cs \<noteq> child_path MBDIR cs'"
  using manifest_apart(1) [of cs cs'] manifest_apart(2) [of cs cs' n] by (auto simp: ms_slot_def)

lemma manifest_other: "manifest_of cs \<noteq> MBDIR"
  by (simp add: manifest_of_def child_path_def)

lemma manifest_keeps:
  assumes "more_dirs d st st1" and "st' = st1(manifest_of cs := n)" and "st p = Some x" and "manifest_of cs \<noteq> p"
  shows "st' p = Some x"
  using more_dirs_keep [OF assms(1,3)] assms(2,4) by simp

lemma confined_advances:
  assumes "confined (ms_slot cs0 n0) st st'" and "st' (ms_slot cs0 n0) = Some Directory" and "hex_digest cs0" "plain_name n0"
    and "manifests_wf E st" and "dirs_made E st"
  shows "advances E st st'"
proof -
  note g = confined_grown [OF assms(1) slot_entry [OF assms(3,4)] assms(5), of "\<lambda>_ _. False"]
  have "dirs_made E st'"
  proof (rule dirs_made_step [OF assms(6) conjunct2 [OF g]])
    fix cs n
    assume p: "hex_digest cs" "plain_name n" "st (child_path MBDIR cs) = Some Directory" "st (ms_slot cs n) = Some Directory"
    have "st' (child_path MBDIR cs) = Some Directory"
      using confined_keeps [OF assms(1) slot_not_above [OF assms(3) p(1) assms(4)]] p(3) by (simp add: keeps_def)
    moreover have "st' (ms_slot cs n) = Some Directory"
    proof (cases "below (ms_slot cs0 n0) (ms_slot cs n)")
      case True
      then show ?thesis using slot_below [OF assms(3) p(1) assms(4) p(2) True below_refl] assms(2) by simp
    next
      case False
      then show ?thesis using confined_keeps [OF assms(1) False] p(4) by (simp add: keeps_def)
    qed
    ultimately show "st' (child_path MBDIR cs) = Some Directory \<and> st' (ms_slot cs n) = Some Directory" by simp
  next
    have "\<not> below (ms_slot cs0 n0) MBDIR" using below_child_parent [of "child_path MBDIR cs0" n0 MBDIR] by (auto simp: ms_slot_def)
    then show "st' MBDIR = Some Directory" if "st MBDIR = Some Directory"
      using confined_keeps [OF assms(1)] that by (simp add: keeps_def)
  qed simp
  then show ?thesis using g by (simp add: advances_def)
qed

lemma more_dirs_advances:
  assumes "more_dirs d st st'" and "entry_dir cs d" and "manifests_wf E st" and "dirs_made E st"
  shows "advances E st st'"
proof -
  note g = confined_grown [OF more_dirs_confined [OF assms(1)] assms(2,3), of "\<lambda>_ _. False"]
  have "dirs_made E st'"
    by (rule dirs_made_step [OF assms(4) conjunct2 [OF g]]) (simp_all add: more_dirs_keep [OF assms(1)])
  then show ?thesis using g by (simp add: advances_def)
qed

lemma rewrite_advances:
  assumes "grown E st st'" "adds E A st st'" "dirs_made E st" "hex_digest cs0" "more_dirs d st st1" "st' = st1(manifest_of cs0 := x)"
    and "\<And>cs n. A cs n \<Longrightarrow> st' (child_path MBDIR cs) = Some Directory \<and> st' (ms_slot cs n) = Some Directory"
  shows "advances E st st'"
proof -
  have "dirs_made E st'"
    by (rule dirs_made_step [OF assms(3,2) _ assms(7)]) (auto simp: manifest_other intro: manifest_keeps [OF assms(5,6)] dest: manifest_no_slot [OF assms(4)])
  then show ?thesis using assms(1) by (simp add: advances_def)
qed

subsection \<open>Steps keep the invariant\<close>

lemma register_advances:
  assumes "sound_env E" "manifests_wf E st" "dirs_made E st" "rq_register E rq st = (r, st')"
  shows "advances E st st' \<and> (r = Inl Std_exception \<or> r = Inr True \<and> project_listed E st' (rq_checksum rq))"
  using register_cases [OF assms(1,2,4)]
proof (elim disjE exE conjE)
  assume "more_dirs (child_path MBDIR (rq_checksum rq)) st st'" "r = Inl Std_exception"
  then show ?thesis using more_dirs_advances [OF _ _ assms(2,3)] rq_digest [of rq] by (auto simp: entry_dir_def)
next
  fix st1 n
  assume "grown E st st'" "adds E (\<lambda>_ _. False) st st'" "more_dirs (child_path MBDIR (rq_checksum rq)) st st1"
    "st' = st1(manifest_of (rq_checksum rq) := n)" "r = Inr True" "project_listed E st' (rq_checksum rq)"
  then show ?thesis using rewrite_advances [OF _ _ assms(3) rq_digest] by blast
qed

lemma admit_advances:
  assumes "sound_env E" "manifests_wf E st" "dirs_made E st" "rq_admit E rq st = (r, st')"
    and "plain_name (ms_name (rq_ms rq))" "project_listed E st (rq_checksum rq)"
  shows "advances E st st' \<and> (r = Inl Std_exception \<or> r = Inl (App ''C1000'') \<and> st' = st \<or>
    r = Inr True \<and> listed E st' (rq_checksum rq) (ms_name (rq_ms rq)) \<and>
      (listed E st (rq_checksum rq) (ms_name (rq_ms rq)) \<longrightarrow> \<not> fs_exists st (sign (rq_dir rq))))"
proof -
  have same: "advances E st st" using grown_refl assms(2,3) by (simp add: advances_def)
  from admit_cases [OF assms(1,2,5,6,4)] show ?thesis
  proof (elim disjE exE conjE)
    assume "r = Inl (App ''C1000'')" "st' = st"
    then show ?thesis using same by simp
  next
    assume "r = Inl Std_exception" "more_dirs (child_path (child_path MBDIR (rq_checksum rq)) (ms_name (rq_ms rq))) st st'"
    then show ?thesis using more_dirs_advances [OF _ slot_entry [OF rq_digest assms(5)] assms(2,3)] by (simp add: ms_slot_def)
  next
    assume "r = Inr True" "st' = st" "listed E st (rq_checksum rq) (ms_name (rq_ms rq))"
      "\<not> fs_exists st (child_path (child_path (child_path MBDIR (rq_checksum rq)) (ms_name (rq_ms rq))) ''running'')"
    then show ?thesis using same by (simp add: rq_slot [OF assms(5)] ms_slot_def sign_def)
  next
    fix st1 x
    assume a: "r = Inr True" "\<not> listed E st (rq_checksum rq) (ms_name (rq_ms rq))" "listed E st' (rq_checksum rq) (ms_name (rq_ms rq))"
      "grown E st st'" "adds E (\<lambda>cs' n'. cs' = rq_checksum rq \<and> n' = ms_name (rq_ms rq)) st st'"
      "st' (child_path MBDIR (rq_checksum rq)) = Some Directory"
      "st' (child_path (child_path MBDIR (rq_checksum rq)) (ms_name (rq_ms rq))) = Some Directory"
      "more_dirs (child_path (child_path MBDIR (rq_checksum rq)) (ms_name (rq_ms rq))) st st1" "st' = st1(manifest_of (rq_checksum rq) := x)"
    have "advances E st st'"
      by (rule rewrite_advances [OF a(4,5) assms(3) rq_digest a(8,9)]) (use a(6,7) in \<open>simp add: ms_slot_def\<close>)
    then show ?thesis using a(1-3) by simp
  qed
qed

lemma listed_dir: "dirs_made E st \<Longrightarrow> plain_name (ms_name (rq_ms rq)) \<Longrightarrow> listed E st (rq_checksum rq) (ms_name (rq_ms rq)) \<Longrightarrow>
    st (rq_dir rq) = Some Directory"
  by (simp add: dirs_made_def rq_slot rq_digest)

lemma resolve_advances:
  assumes "sound_env E" "manifests_wf E st" "dirs_made E st" "rq_resolve E rq st = (r, st')"
    and "plain_name (ms_name (rq_ms rq))" "listed E st (rq_checksum rq) (ms_name (rq_ms rq))"
  shows "advances E st st' \<and> r \<noteq> Inl Crash \<and> confined (rq_dir rq) st st' \<and>
    (\<forall>m. r = Inr m \<longrightarrow> rm_ms m = rq_ms rq \<and> projectCheckSum m = rq_checksum rq \<and> st' (sign (rq_dir rq)) \<noteq> None)"
proof -
  note c = resolve_cases [OF assms(5) listed_dir [OF assms(3,5,6)] assms(4,1), of "{}"]
  have "advances E st st'"
    by (rule confined_advances [OF _ _ rq_digest assms(5) assms(2,3)]) (use c rq_slot [OF assms(5)] in auto)
  moreover have "rm_ms (mkResolutionManager a b ms cdb fs) = ms" for a b ms cdb fs by (simp add: mkResolutionManager_def)
  ultimately show ?thesis using c by (auto simp: rq_checksum_def manager_path)
qed

text \<open>A run ends complete, or the process ends; in both cases only its own directory changes.\<close>

lemma finish_advances:
  assumes "sound_env E" "manifests_wf E st" "dirs_made E st" "doResolutionAsync (env E) m st = (ok, st')"
    and "plain_name (ms_name (rm_ms m))" "listed E st (projectCheckSum m) (ms_name (rm_ms m))"
  shows "advances E st st' \<and> confined (mergeScenarioPath m) st st'"
proof -
  let ?d = "mergeScenarioPath m"
  have sl: "?d = ms_slot (projectCheckSum m) (ms_name (rm_ms m))" by (rule rm_slot [OF assms(5)])
  have dp: "dir_path ?d" unfolding sl by (rule slot_dir [OF rm_digest assms(5)])
  have d: "st ?d = Some Directory" using assms(3,5,6) rm_digest by (simp add: dirs_made_def sl)
  have clr: "clear_sign ?d s ?d = s ?d" for s
    using sign_other [of ?d] by (simp add: clear_sign_def Let_def sign_join [OF dp] remove_def bare_dir_path [OF sign_dir [OF dp]])
  have "confined ?d st st' \<and> st' ?d = Some Directory"
    using run_cases [OF assms(4) sound_envD(2) [OF assms(1)] assms(5)]
  proof (elim disjE exE conjE)
    fix st1
    assume "confined ?d st st1" "keeps ?d st st1" "st' = clear_sign ?d st1"
    then show ?thesis using d clr clear_sign_confined [OF dp] confined_trans by (auto simp: keeps_def)
  qed (simp add: keeps_def d)
  then show ?thesis using confined_advances [OF _ _ rm_digest assms(5) assms(2,3)] sl by auto
qed

lemma booted_sound:
  assumes "rooted st"
  shows "sound_service E (booted st)"
proof -
  have b: "bare MBDIR = MBDIR" by (rule bare_dir_path [OF dir_path_MBDIR])
  have "initMergebot st p = None" if "below MBDIR p" "p \<noteq> MBDIR" for p
    using assms that by (auto simp: initMergebot_def rooted_def fs_exists_def b remove_all_def)
  then have none: "initMergebot st (manifest_of cs) = None" for cs
    using manifest_other by (simp add: manifest_of_def)
  have "initMergebot st MBDIR = Some Directory" by (simp add: initMergebot_def)
  then show ?thesis
    by (simp add: sound_service_def booted_def manifests_wf_def dirs_made_def listed_def holds_def none)
qed

lemma dirs_made_rooted: "dirs_made E st \<Longrightarrow> rooted st"
  by (simp add: dirs_made_def rooted_def)

lemma step_sound:
  assumes "sound_env E" and "sound_service E s" and "service_step E s s'"
  shows "sound_service E s'"
proof -
  have wf: "manifests_wf E (disk s)" "dirs_made E (disk s)" using assms(2) by (simp_all add: sound_service_def)
  have kn: "plain_name (ms_name (rq_ms rq))" "project_listed E (disk s) (rq_checksum rq)" if "rq \<in> set (known s)" for rq
    using assms(2) that by (auto simp: sound_service_def)
  have ad: "plain_name (ms_name (rq_ms rq))" "listed E (disk s) (rq_checksum rq) (ms_name (rq_ms rq))" if "rq \<in> set (admitted s)" for rq
    using assms(2) that by (auto simp: sound_service_def)
  have jb: "plain_name (ms_name (rm_ms m))" "listed E (disk s) (projectCheckSum m) (ms_name (rm_ms m))" if "m \<in> set (jobs s)" for m
    using assms(2) that by (auto simp: sound_service_def)
  have upd: "s\<lparr>disk := st\<rparr> = \<lparr>disk = st, known = known s, admitted = admitted s, jobs = jobs s\<rparr>"
    "s\<lparr>disk := st, known := ks\<rparr> = \<lparr>disk = st, known = ks, admitted = admitted s, jobs = jobs s\<rparr>"
    "s\<lparr>disk := st, admitted := as\<rparr> = \<lparr>disk = st, known = known s, admitted = as, jobs = jobs s\<rparr>"
    "s\<lparr>disk := st, known := ks, admitted := as\<rparr> = \<lparr>disk = st, known = ks, admitted = as, jobs = jobs s\<rparr>"
    "s\<lparr>disk := st, admitted := as, jobs := js\<rparr> = \<lparr>disk = st, known = known s, admitted = as, jobs = js\<rparr>"
    "s\<lparr>disk := st, jobs := js\<rparr> = \<lparr>disk = st, known = known s, admitted = admitted s, jobs = js\<rparr>" for st ks as js
    by simp_all
  note go = sound_service_advance [OF assms(2)]
  from assms(3) show ?thesis
  proof cases
    case (register rq ok st)
    then show ?thesis using register_advances [OF assms(1) wf register(3)] go by (auto simp: upd)
  next
    case (not_registered rq e st)
    then show ?thesis using register_advances [OF assms(1) wf not_registered(2)] go by (auto simp: upd)
  next
    case (admit rq ok st)
    then show ?thesis
      unfolding admit(1) upd(4) using admit_advances [OF assms(1) wf admit(3) kn [OF admit(2)]] kn [OF admit(2)]
      by (intro go) (auto dest: notin_set_remove1)
  next
    case (refuse rq e st)
    then show ?thesis
      unfolding refuse(1) upd(2) using admit_advances [OF assms(1) wf refuse(3) kn [OF refuse(2)]] by (intro go) (auto dest: notin_set_remove1)
  next
    case (start rq m st)
    note r = resolve_advances [OF assms(1) wf start(3) ad [OF start(2)]]
    then have "listed E st (projectCheckSum m) (ms_name (rm_ms m))"
      using ad [OF start(2)] by (auto simp: advances_def grown_def rq_digest)
    then show ?thesis unfolding start(1) upd(5) using r ad [OF start(2)] by (intro go) (auto dest: notin_set_remove1)
  next
    case (decline rq e st)
    then show ?thesis
      unfolding decline(1) upd(3) using resolve_advances [OF assms(1) wf decline(3) ad [OF decline(2)]] by (intro go) (auto dest: notin_set_remove1)
  next
    case (finish m st)
    then show ?thesis
      unfolding finish(1) upd(6) using finish_advances [OF assms(1) wf finish(3) jb [OF finish(2)]] by (intro go) (auto dest: notin_set_remove1)
  next
    case restart
    then show ?thesis using booted_sound [OF dirs_made_rooted [OF wf(2)]] by (simp add: booted_def)
  qed
qed

lemma reachable_sound: "reachable E s \<Longrightarrow> sound_env E \<Longrightarrow> sound_service E s"
  by (induction rule: reachable.induct) (auto intro: booted_sound step_sound)

lemma serially_reachable: "serially E s \<Longrightarrow> reachable E s"
  by (induction rule: serially.induct) (auto intro: reachable.intros)

subsection \<open>One request at a time\<close>

definition exclusive :: "service \<Rightarrow> bool" where
  "exclusive s \<longleftrightarrow> distinct (map mergeScenarioPath (jobs s)) \<and> (\<forall>m \<in> set (jobs s). disk s (sign (mergeScenarioPath m)) \<noteq> None) \<and>
     (\<forall>rq \<in> set (admitted s). rq_dir rq \<notin> mergeScenarioPath ` set (jobs s))"

text \<open>Signs outlive everything but what happens in their own directory.\<close>

lemma sign_slot_apart:
  assumes "hex_digest cs" "hex_digest cs'" "plain_name n" "plain_name n'" "ms_slot cs n \<noteq> ms_slot cs' n'"
  shows "\<not> below (ms_slot cs n) (sign (ms_slot cs' n'))"
  using slot_below [OF assms(1-4) _ sign_below] assms(5) by auto

lemma metadata_keep:
  assumes "more_dirs d st st1" and "st' = st1(manifest_of cs := x)" and "st p \<noteq> None" and "manifest_of cs \<noteq> p"
  shows "st' p \<noteq> None"
  using assms(3) manifest_keeps [OF assms(1,2) _ assms(4)] by auto

lemma register_signs:
  assumes "sound_env E" "manifests_wf E st" "rq_register E rq st = (r, st')" "hex_digest cs" "st (sign (ms_slot cs n)) \<noteq> None"
  shows "st' (sign (ms_slot cs n)) \<noteq> None"
  using register_cases [OF assms(1,2,3)]
proof (elim disjE exE conjE)
  assume "more_dirs (child_path MBDIR (rq_checksum rq)) st st'"
  then show ?thesis using assms(5) by (auto dest: more_dirs_keep)
next
  fix st1 x
  assume a: "more_dirs (child_path MBDIR (rq_checksum rq)) st st1" "st' = st1(manifest_of (rq_checksum rq) := x)"
  show ?thesis by (rule metadata_keep [where p = "sign (ms_slot cs n)", OF a assms(5) manifest_sign [OF rq_digest assms(4)]])
qed

lemma admit_signs:
  assumes "sound_env E" "manifests_wf E st" "rq_admit E rq st = (r, st')" "plain_name (ms_name (rq_ms rq))"
    "project_listed E st (rq_checksum rq)" "hex_digest cs" "st (sign (ms_slot cs n)) \<noteq> None"
  shows "st' (sign (ms_slot cs n)) \<noteq> None"
  using admit_cases [OF assms(1,2,4,5,3)]
proof (elim disjE exE conjE)
  assume "more_dirs (child_path (child_path MBDIR (rq_checksum rq)) (ms_name (rq_ms rq))) st st'"
  then show ?thesis using assms(7) by (auto dest: more_dirs_keep)
next
  fix st1 x
  assume a: "more_dirs (child_path (child_path MBDIR (rq_checksum rq)) (ms_name (rq_ms rq))) st st1" "st' = st1(manifest_of (rq_checksum rq) := x)"
  show ?thesis by (rule metadata_keep [where p = "sign (ms_slot cs n)", OF a assms(7) manifest_sign [OF rq_digest assms(6)]])
qed (simp_all add: assms(7))

lemma confined_signs:
  assumes "confined (ms_slot cs n) st st'" "ms_slot cs n \<noteq> ms_slot cs' n'" "hex_digest cs" "hex_digest cs'" "plain_name n" "plain_name n'"
    "st (sign (ms_slot cs' n')) \<noteq> None"
  shows "st' (sign (ms_slot cs' n')) \<noteq> None"
  using confined_keeps [OF assms(1) sign_slot_apart [OF assms(3-6,2)]] assms(7) by (simp add: keeps_def)

lemma distinct_remove1_image: "distinct (map f xs) \<Longrightarrow> x \<in> set xs \<Longrightarrow> y \<in> set (remove1 x xs) \<Longrightarrow> f y \<noteq> f x"
  by (induction xs) (auto simp: image_iff split: if_splits)

lemma step_exclusive:
  assumes "sound_env E" and "sound_service E s" and "exclusive s" and "service_step E s s'" and "length (known s) + length (admitted s) \<le> 1"
    and "length (known s') + length (admitted s') \<le> 1"
  shows "exclusive s'"
proof -
  have wf: "manifests_wf E (disk s)" "dirs_made E (disk s)" using assms(2) by (simp_all add: sound_service_def)
  have kn: "plain_name (ms_name (rq_ms rq))" "project_listed E (disk s) (rq_checksum rq)" if "rq \<in> set (known s)" for rq
    using assms(2) that by (auto simp: sound_service_def)
  have ad: "plain_name (ms_name (rq_ms rq))" "listed E (disk s) (rq_checksum rq) (ms_name (rq_ms rq))" if "rq \<in> set (admitted s)" for rq
    using assms(2) that by (auto simp: sound_service_def)
  have jb: "plain_name (ms_name (rm_ms m))" "listed E (disk s) (projectCheckSum m) (ms_name (rm_ms m))" if "m \<in> set (jobs s)" for m
    using assms(2) that by (auto simp: sound_service_def)
  have js: "mergeScenarioPath m = ms_slot (projectCheckSum m) (ms_name (rm_ms m))" if "m \<in> set (jobs s)" for m
    by (rule rm_slot [OF jb(1) [OF that]])
  have sg: "disk s (sign (mergeScenarioPath m)) \<noteq> None" if "m \<in> set (jobs s)" for m using assms(3) that by (simp add: exclusive_def)
  have moved: "st (sign (mergeScenarioPath m)) \<noteq> None"
    if "confined (ms_slot cs n) (disk s) st" "hex_digest cs" "plain_name n" "m \<in> set (jobs s)" "mergeScenarioPath m \<noteq> ms_slot cs n" for st cs n m
    using confined_signs [OF that(1) _ that(2) rm_digest that(3) jb(1) [OF that(4)]] that(5) sg [OF that(4)] by (simp add: js [OF that(4)])
  from assms(4) show ?thesis
  proof cases
    case (register rq ok st)
    have "ok" using register_advances [OF assms(1) wf register(3)] by auto
    moreover have "st (sign (mergeScenarioPath m)) \<noteq> None" if "m \<in> set (jobs s)" for m
      using register_signs [OF assms(1) wf(1) register(3) rm_digest] sg [OF that] by (simp add: js [OF that])
    ultimately show ?thesis using assms(3) register(1) by (simp add: exclusive_def)
  next
    case (not_registered rq e st)
    have "st (sign (mergeScenarioPath m)) \<noteq> None" if "m \<in> set (jobs s)" for m
      using register_signs [OF assms(1) wf(1) not_registered(2) rm_digest] sg [OF that] by (simp add: js [OF that])
    then show ?thesis using assms(3) not_registered(1) by (simp add: exclusive_def)
  next
    case (admit rq ok st)
    have none: "admitted s = []" using assms(5) admit(2) by (cases "known s"; cases "admitted s") auto
    have signs: "st (sign (mergeScenarioPath m)) \<noteq> None" if "m \<in> set (jobs s)" for m
      using admit_signs [OF assms(1) wf(1) admit(3) kn [OF admit(2)] rm_digest] sg [OF that] by (simp add: js [OF that])
    have "mergeScenarioPath m \<noteq> rq_dir rq" if "m \<in> set (jobs s)" for m
    proof
      assume e: "mergeScenarioPath m = rq_dir rq"
      have dp: "dir_path (rq_dir rq)" by (simp add: rq_slot slot_dir rq_digest kn [OF admit(2)])
      have "projectCheckSum m = rq_checksum rq \<and> ms_name (rm_ms m) = ms_name (rq_ms rq)"
        using e slot_below [OF rm_digest [of m] rq_digest [of rq] jb(1) [OF that] kn(1) [OF admit(2)] below_refl]
        by (simp add: js [OF that] rq_slot kn [OF admit(2)])
      then have "listed E (disk s) (rq_checksum rq) (ms_name (rq_ms rq))" using jb(2) [OF that] by simp
      then have "\<not> fs_exists (disk s) (sign (rq_dir rq))" using admit_advances [OF assms(1) wf admit(3) kn [OF admit(2)]] by auto
      then show False using sg [OF that] sign_exists [OF dp] e by simp
    qed
    then have "rq_dir rq \<notin> mergeScenarioPath ` set (jobs s)" by (metis imageE)
    then show ?thesis using assms(3) admit(1) signs none by (simp add: exclusive_def)
  next
    case (refuse rq e st)
    have "st (sign (mergeScenarioPath m)) \<noteq> None" if "m \<in> set (jobs s)" for m
      using admit_signs [OF assms(1) wf(1) refuse(3) kn [OF refuse(2)] rm_digest] sg [OF that] by (simp add: js [OF that])
    then show ?thesis using assms(3) refuse(1) by (simp add: exclusive_def)
  next
    case (start rq m st)
    note r = resolve_advances [OF assms(1) wf start(3) ad [OF start(2)]]
    have one: "admitted s = [rq]" using assms(5) start(2) by (cases "admitted s") auto
    have d: "mergeScenarioPath m = rq_dir rq" using r rm_slot rq_slot ad(1) [OF start(2)] by simp
    have free: "mergeScenarioPath m' \<noteq> rq_dir rq" if "m' \<in> set (jobs s)" for m' using assms(3) start(2) that by (metis exclusive_def imageI)
    have "st (sign (mergeScenarioPath m')) \<noteq> None" if "m' \<in> set (jobs s)" for m'
      using moved [where cs = "rq_checksum rq" and n = "ms_name (rq_ms rq)" and st = st] free r that rq_digest ad(1) [OF start(2)] by (simp add: rq_slot)
    then show ?thesis using assms(3) start(1) one d free r by (auto simp: exclusive_def)
  next
    case (decline rq e st)
    note r = resolve_advances [OF assms(1) wf decline(3) ad [OF decline(2)]]
    have free: "mergeScenarioPath m' \<noteq> rq_dir rq" if "m' \<in> set (jobs s)" for m' using assms(3) decline(2) that by (metis exclusive_def imageI)
    have "st (sign (mergeScenarioPath m')) \<noteq> None" if "m' \<in> set (jobs s)" for m'
      using moved [where cs = "rq_checksum rq" and n = "ms_name (rq_ms rq)" and st = st] free r that rq_digest ad(1) [OF decline(2)] by (simp add: rq_slot)
    then show ?thesis using assms(3) decline(1) by (auto simp: exclusive_def dest: notin_set_remove1)
  next
    case (finish m st)
    note r = finish_advances [OF assms(1) wf finish(3) jb [OF finish(2)]]
    have "st (sign (mergeScenarioPath m')) \<noteq> None" if "m' \<in> set (remove1 m (jobs s))" for m'
    proof -
      have "m' \<in> set (jobs s)" using that by (metis notin_set_remove1)
      moreover have "mergeScenarioPath m' \<noteq> mergeScenarioPath m"
        using distinct_remove1_image [of mergeScenarioPath, OF _ finish(2) that] assms(3) by (simp add: exclusive_def)
      ultimately show ?thesis
        using moved [where cs = "projectCheckSum m" and n = "ms_name (rm_ms m)" and st = st] r js [OF finish(2)] rm_digest jb(1) [OF finish(2)] by simp
    qed
    then show ?thesis using assms(3) finish(1) by (auto simp: exclusive_def distinct_map inj_on_def dest: notin_set_remove1)
  next
    case restart
    then show ?thesis by (simp add: exclusive_def)
  qed
qed

lemma serially_exclusive:
  assumes "serially E s" and "sound_env E"
  shows "exclusive s \<and> length (known s) + length (admitted s) \<le> 1"
  using assms(1)
proof induction
  case (boot st)
  then show ?case by (simp add: exclusive_def booted_def)
next
  case (step s s')
  then show ?case
    using step_exclusive [OF assms(2) reachable_sound [OF serially_reachable [OF step(1)] assms(2)] _ step(2)] by blast
qed

subsection \<open>Where files appear\<close>

lemma register_files:
  assumes "sound_env E" "manifests_wf E st" "rq_register E rq st = (r, st')" "files_in F st" "manifest_of (rq_checksum rq) \<in> F"
  shows "files_in F st' \<and> ((\<forall>q \<in> F. \<not> prefix q (child_path MBDIR (rq_checksum rq))) \<longrightarrow> r = Inr True)"
  using register_cases [OF assms(1,2,3)]
proof (elim disjE exE conjE)
  fix q c
  assume "more_dirs (child_path MBDIR (rq_checksum rq)) st st'" "prefix q (child_path MBDIR (rq_checksum rq))" "st q = Some (File c)"
  then show ?thesis using files_in_more assms(4) by (auto simp: files_in_def)
next
  fix st1 n
  assume "more_dirs (child_path MBDIR (rq_checksum rq)) st st1" "st' = st1(manifest_of (rq_checksum rq) := n)" "r = Inr True"
  then show ?thesis using files_in_upd [OF files_in_more] assms(4,5) by blast
qed

lemma admit_files:
  assumes "sound_env E" "manifests_wf E st" "rq_admit E rq st = (r, st')" "plain_name (ms_name (rq_ms rq))"
    "project_listed E st (rq_checksum rq)" "files_in F st" "manifest_of (rq_checksum rq) \<in> F"
  shows "files_in F st' \<and> ((\<forall>q \<in> F. \<not> prefix q (rq_dir rq)) \<longrightarrow> st (sign (rq_dir rq)) = None \<longrightarrow> r = Inr True)"
proof -
  have sl: "rq_dir rq = child_path (child_path MBDIR (rq_checksum rq)) (ms_name (rq_ms rq))" using rq_slot [OF assms(4)] by (simp add: ms_slot_def)
  have dp: "dir_path (rq_dir rq)" unfolding rq_slot [OF assms(4)] by (rule slot_dir [OF rq_digest assms(4)])
  show ?thesis
    using admit_cases [OF assms(1,2,4,5,3)] unfolding sl [symmetric]
  proof (elim disjE exE conjE)
    assume "fs_exists st (child_path (rq_dir rq) ''running'')" "st' = st"
    then show ?thesis using sign_exists [OF dp] assms(6) by (auto simp: sign_def)
  next
    fix q c
    assume "more_dirs (rq_dir rq) st st'" "prefix q (rq_dir rq)" "st q = Some (File c)"
    then show ?thesis using files_in_more assms(6) by (auto simp: files_in_def)
  next
    fix st1 n
    assume "more_dirs (rq_dir rq) st st1" "st' = st1(manifest_of (rq_checksum rq) := n)" "r = Inr True"
    then show ?thesis using files_in_upd [OF files_in_more] assms(6,7) by blast
  qed (simp_all add: assms(6))
qed

lemma metadata_none: "more_dirs d st st1 \<Longrightarrow> st p = None \<Longrightarrow> \<not> prefix p d \<Longrightarrow> st1 p = None"
  unfolding more_dirs_def by metis

lemma register_none:
  assumes "sound_env E" "manifests_wf E st" "rq_register E rq st = (r, st')" "st p = None"
    "\<not> prefix p (child_path MBDIR (rq_checksum rq))" "p \<noteq> manifest_of (rq_checksum rq)"
  shows "st' p = None"
  using register_cases [OF assms(1,2,3)] assms(4-6) by (auto dest: metadata_none)

lemma admit_none:
  assumes "sound_env E" "manifests_wf E st" "rq_admit E rq st = (r, st')" "plain_name (ms_name (rq_ms rq))"
    "project_listed E st (rq_checksum rq)" "st p = None" "\<not> prefix p (rq_dir rq)" "p \<noteq> manifest_of (rq_checksum rq)"
  shows "st' p = None"
proof -
  have sl: "rq_dir rq = child_path (child_path MBDIR (rq_checksum rq)) (ms_name (rq_ms rq))" using rq_slot [OF assms(4)] by (simp add: ms_slot_def)
  show ?thesis using admit_cases [OF assms(1,2,4,5,3)] assms(6-8) unfolding sl [symmetric] by (auto dest: metadata_none)
qed

subsection \<open>A scenario nobody works on\<close>

definition blocked :: "service_env \<Rightarrow> service \<Rightarrow> request \<Rightarrow> bool" where
  "blocked E s rq \<longleftrightarrow> plain_name (ms_name (rq_ms rq)) \<and> listed E (disk s) (rq_checksum rq) (ms_name (rq_ms rq)) \<and>
     disk s (sign (rq_dir rq)) \<noteq> None \<and> (\<forall>m \<in> set (jobs s). mergeScenarioPath m \<noteq> rq_dir rq) \<and>
     (\<forall>q \<in> set (admitted s). rq_dir q \<noteq> rq_dir rq)"

lemma listed_project: "listed E st cs n \<Longrightarrow> project_listed E st cs"
  by (auto simp: listed_def project_listed_def find_Some_iff list_ex_iff intro: nth_mem)

lemma admit_refused:
  assumes "sound_env E" "manifests_wf E st" "plain_name (ms_name (rq_ms rq))" "listed E st (rq_checksum rq) (ms_name (rq_ms rq))"
    "st (sign (rq_dir rq)) \<noteq> None"
  shows "rq_admit E rq st = (Inl (App ''C1000''), st)"
proof -
  obtain r st' where a: "rq_admit E rq st = (r, st')" by (metis surj_pair)
  have sl: "rq_dir rq = ms_slot (rq_checksum rq) (ms_name (rq_ms rq))" by (rule rq_slot [OF assms(3)])
  have "fs_exists st (child_path (ms_slot (rq_checksum rq) (ms_name (rq_ms rq))) ''running'')"
    using assms(5) sign_exists [OF slot_dir [OF rq_digest assms(3)]] by (simp add: sl sign_def)
  then show ?thesis
    using admit_cases [OF assms(1-3) listed_project [OF assms(4)] a] assms(4) a by (auto simp: ms_slot_def)
qed

lemma blocked_stays:
  assumes "sound_env E" and "sound_service E s" and "blocked E s rq" and "service_step E s s'" and "s' \<noteq> booted (disk s)"
  shows "blocked E s' rq"
proof -
  have wf: "manifests_wf E (disk s)" "dirs_made E (disk s)" using assms(2) by (simp_all add: sound_service_def)
  have kn: "plain_name (ms_name (rq_ms rq))" "project_listed E (disk s) (rq_checksum rq)" if "rq \<in> set (known s)" for rq
    using assms(2) that by (auto simp: sound_service_def)
  have ad: "plain_name (ms_name (rq_ms rq))" "listed E (disk s) (rq_checksum rq) (ms_name (rq_ms rq))" if "rq \<in> set (admitted s)" for rq
    using assms(2) that by (auto simp: sound_service_def)
  have jb: "plain_name (ms_name (rm_ms m))" "listed E (disk s) (projectCheckSum m) (ms_name (rm_ms m))" if "m \<in> set (jobs s)" for m
    using assms(2) that by (auto simp: sound_service_def)
  have b: "plain_name (ms_name (rq_ms rq))" "listed E (disk s) (rq_checksum rq) (ms_name (rq_ms rq))" "disk s (sign (rq_dir rq)) \<noteq> None"
    using assms(3) by (simp_all add: blocked_def)
  have li: "listed E st (rq_checksum rq) (ms_name (rq_ms rq))" if "advances E (disk s) st" for st
    using that b(2) rq_digest by (simp add: advances_def grown_def)
  have sl: "rq_dir rq = ms_slot (rq_checksum rq) (ms_name (rq_ms rq))" by (rule rq_slot [OF b(1)])
  have moved: "st (sign (rq_dir rq)) \<noteq> None"
    if "confined (ms_slot cs n) (disk s) st" "hex_digest cs" "plain_name n" "ms_slot cs n \<noteq> rq_dir rq" for st cs n
    using confined_signs [OF that(1) _ that(2) rq_digest that(3) b(1)] that(4) b(3) by (simp add: sl)
  from assms(4) show ?thesis
  proof cases
    case (register q ok st)
    have r: "ok" "advances E (disk s) st" using register_advances [OF assms(1) wf register(3)] by auto
    have "st (sign (rq_dir rq)) \<noteq> None" using register_signs [OF assms(1) wf(1) register(3) rq_digest] b(3) by (simp add: sl)
    then show ?thesis using assms(3) register(1) r li by (simp add: blocked_def)
  next
    case (not_registered q e st)
    have "st (sign (rq_dir rq)) \<noteq> None" using register_signs [OF assms(1) wf(1) not_registered(2) rq_digest] b(3) by (simp add: sl)
    then show ?thesis using assms(3) not_registered(1) register_advances [OF assms(1) wf not_registered(2)] li by (simp add: blocked_def)
  next
    case (admit q ok st)
    note k = kn [OF admit(2)]
    have "rq_dir q \<noteq> rq_dir rq"
    proof
      assume e: "rq_dir q = rq_dir rq"
      then have "rq_checksum q = rq_checksum rq \<and> ms_name (rq_ms q) = ms_name (rq_ms rq)"
        using slot_below [OF rq_digest [of q] rq_digest [of rq] k(1) b(1) below_refl] by (simp add: sl rq_slot k)
      then show False using admit_refused [OF assms(1) wf(1) k(1)] b e admit(3) by simp
    qed
    moreover have "st (sign (rq_dir rq)) \<noteq> None"
      using admit_signs [OF assms(1) wf(1) admit(3) k rq_digest] b(3) by (simp add: sl)
    ultimately show ?thesis
      using assms(3) admit(1) admit_advances [OF assms(1) wf admit(3) k] li by (auto simp: blocked_def)
  next
    case (refuse q e st)
    have "st (sign (rq_dir rq)) \<noteq> None"
      using admit_signs [OF assms(1) wf(1) refuse(3) kn [OF refuse(2)] rq_digest] b(3) by (simp add: sl)
    then show ?thesis using assms(3) refuse(1) admit_advances [OF assms(1) wf refuse(3) kn [OF refuse(2)]] li by (simp add: blocked_def)
  next
    case (start q m st)
    note r = resolve_advances [OF assms(1) wf start(3) ad [OF start(2)]]
    have q: "rq_dir q \<noteq> rq_dir rq" using assms(3) start(2) by (simp add: blocked_def)
    have d: "mergeScenarioPath m = rq_dir q" using r rm_slot rq_slot ad(1) [OF start(2)] by simp
    have "st (sign (rq_dir rq)) \<noteq> None" 
      using moved [where cs = "rq_checksum q" and n = "ms_name (rq_ms q)" and st = st] r q rq_digest ad(1) [OF start(2)] by (simp add: rq_slot)
    then show ?thesis using assms(3) start(1) r li d q by (auto simp: blocked_def dest: notin_set_remove1)
  next
    case (decline q e st)
    note r = resolve_advances [OF assms(1) wf decline(3) ad [OF decline(2)]]
    have q: "rq_dir q \<noteq> rq_dir rq" using assms(3) decline(2) by (simp add: blocked_def)
    have "st (sign (rq_dir rq)) \<noteq> None" 
      using moved [where cs = "rq_checksum q" and n = "ms_name (rq_ms q)" and st = st] r q rq_digest ad(1) [OF decline(2)] by (simp add: rq_slot)
    then show ?thesis using assms(3) decline(1) r li by (auto simp: blocked_def dest: notin_set_remove1)
  next
    case (finish m st)
    note r = finish_advances [OF assms(1) wf finish(3) jb [OF finish(2)]]
    have q: "mergeScenarioPath m \<noteq> rq_dir rq" using assms(3) finish(2) by (simp add: blocked_def)
    have "st (sign (rq_dir rq)) \<noteq> None"
      using moved [where cs = "projectCheckSum m" and n = "ms_name (rm_ms m)" and st = st] r q rm_digest jb(1) [OF finish(2)] by (simp add: rm_slot)
    then show ?thesis using assms(3) finish(1) r li by (auto simp: blocked_def dest: notin_set_remove1)
  next
    case restart
    then show ?thesis using assms(5) by (simp add: booted_def)
  qed
qed

end
