(* ===== verification/ServiceTheorems.thy ===== *)
theory ServiceTheorems
  imports ServiceRuns
begin

section \<open>Theorems on the web service\<close>

text \<open>
  The theorems on runs, on queries and on the results that are shown, and the service they are applied to: its manifests are written in
  a simple coding of lists of texts, the other parameters are those of the resolution manager's examples.
\<close>

subsection \<open>A coding of the manifests\<close>

definition enc :: "string \<Rightarrow> string" where
  "enc s = replicate (length s) CHR ''1'' @ CHR ''0'' # s"

definition dec :: "string \<Rightarrow> string \<times> string" where
  "dec t = (let n = length (takeWhile (\<lambda>c. c = CHR ''1'') t); r = drop (Suc n) t in (take n r, drop n r))"

lemma dec_enc: "dec (enc s @ r) = (s, r)"
  by (simp add: dec_def enc_def takeWhile_append Let_def)

fun enc_list :: "('a \<Rightarrow> string) \<Rightarrow> 'a list \<Rightarrow> string" where
  "enc_list f [] = ''0''"
| "enc_list f (x # xs) = CHR ''1'' # f x @ enc_list f xs"

fun dec_list :: "(string \<Rightarrow> 'a \<times> string) \<Rightarrow> nat \<Rightarrow> string \<Rightarrow> 'a list \<times> string" where
  "dec_list g 0 t = ([], drop 1 t)"
| "dec_list g (Suc n) t =
     (if take 1 t = ''1'' then let (x, r) = g (drop 1 t); (xs, r') = dec_list g n r in (x # xs, r') else ([], drop 1 t))"

lemma dec_enc_list:
  assumes "\<And>x r. g (f x @ r) = (x, r)"
  shows "length xs \<le> n \<Longrightarrow> dec_list g n (enc_list f xs @ r) = (xs, r)"
proof (induction xs arbitrary: n)
  case Nil
  show ?case by (cases n) simp_all
next
  case (Cons x xs)
  then obtain k where "n = Suc k" "length xs \<le> k" by (cases n) auto
  then show ?case using Cons.IH [of k] assms by simp
qed

definition enc_ms :: "MergeScenario \<Rightarrow> string" where
  "enc_ms m = enc (ms_name m) @ enc (ms_ours m) @ enc (ms_theirs m) @ enc (ms_base m)"

definition dec_ms :: "string \<Rightarrow> MergeScenario \<times> string" where
  "dec_ms t = (let (a, t1) = dec t; (b, t2) = dec t1; (c, t3) = dec t2; (d, t4) = dec t3
     in (\<lparr>ms_name = a, ms_ours = b, ms_theirs = c, ms_base = d\<rparr>, t4))"

lemma dec_enc_ms: "dec_ms (enc_ms m @ r) = (m, r)"
  by (simp add: dec_ms_def enc_ms_def dec_enc)

definition enc_project :: "project_entry \<Rightarrow> string" where
  "enc_project p = enc (pr_project p) @ enc (pr_path p) @ enc (pr_cacheDir p) @ enc_list enc_ms (pr_mss p)"

definition dec_project :: "nat \<Rightarrow> string \<Rightarrow> project_entry \<times> string" where
  "dec_project n t = (let (a, t1) = dec t; (b, t2) = dec t1; (c, t3) = dec t2; (ms, t4) = dec_list dec_ms n t3
     in (\<lparr>pr_project = a, pr_path = b, pr_cacheDir = c, pr_mss = ms\<rparr>, t4))"

lemma enc_list_length: "length xs < length (enc_list f xs)"
  by (induction xs) auto

lemma dec_enc_project: "length (pr_mss p) \<le> n \<Longrightarrow> dec_project n (enc_project p @ r) = (p, r)"
  by (simp add: dec_project_def enc_project_def dec_enc dec_enc_list [of dec_ms enc_ms, OF dec_enc_ms])

definition demo_dump :: "project_entry list \<Rightarrow> string" where
  "demo_dump ps = enc_list enc_project ps"

definition demo_parse :: "string \<Rightarrow> project_entry list option" where
  "demo_parse t = Some (fst (dec_list (dec_project (length t)) (length t) t))"

lemma dec_enc_projects:
  "length ps \<le> n \<Longrightarrow> \<forall>p \<in> set ps. length (pr_mss p) \<le> k \<Longrightarrow> dec_list (dec_project k) n (enc_list enc_project ps @ r) = (ps, r)"
proof (induction ps arbitrary: n)
  case Nil
  show ?case by (cases n) simp_all
next
  case (Cons p ps)
  then obtain j where "n = Suc j" "length ps \<le> j" by (cases n) auto
  then show ?case using Cons by (simp add: dec_enc_project)
qed

lemma scenarios_length: "p \<in> set ps \<Longrightarrow> length (pr_mss p) < length (enc_list enc_project ps)"
proof (induction ps)
  case (Cons q ps)
  then show ?case using enc_list_length [of "pr_mss q" enc_ms] by (auto simp: enc_project_def)
qed simp

lemma demo_parse_dump: "demo_parse (demo_dump ps) = Some ps"
  using dec_enc_projects [of ps "length (demo_dump ps)" "length (demo_dump ps)" "[]"] enc_list_length [of ps enc_project] scenarios_length [of _ ps]
  by (simp add: demo_parse_def demo_dump_def less_imp_le)

definition demo_service :: service_env where
  "demo_service = \<lparr>env = demo_run, parse_projects = demo_parse, dump_projects = demo_dump, fdopens = \<lambda>_. True,
     owner_access = \<lambda>_. (True, True), fs_relative = \<lambda>p q. p, equivalent = \<lambda>st p q. p = q, thread_starts = True\<rparr>"

lemma demo_sound: "sound_env demo_service"
  using demo_run_tame by (simp add: sound_env_def demo_service_def demo_parse_dump) (simp add: demo_run_def)

definition demo_request :: request where
  "demo_request = \<lparr>rq_project = ''p'', rq_path = ''/p'', rq_ms = mkMergeScenario ''c1'' ''c2'' [], rq_cdb = [], rq_files = [''a.c'']\<rparr>"

lemma demo_request_facts:
  shows "plain_name (ms_name (rq_ms demo_request))" "filter is_cpp_file (rq_files demo_request) \<noteq> []" "thread_starts demo_service"
  by (simp_all add: demo_request_def demo_service_def plain_name_def mkMergeScenario_def substr_def is_cpp_file_def)

subsection \<open>Runs of one request\<close>

definition touched :: "request \<Rightarrow> string set" where
  "touched rq = {manifest_of (rq_checksum rq), sign (rq_dir rq), conflict_list (rq_dir rq)}"

lemma touched_free:
  assumes "plain_name (ms_name (rq_ms rq))" and "q \<in> touched rq"
  shows "\<not> prefix q (child_path MBDIR (rq_checksum rq))" "\<not> prefix q (rq_dir rq)" "\<not> prefix q (conflict_dir (rq_dir rq))"
proof -
  have sl: "rq_dir rq = child_path (child_path MBDIR (rq_checksum rq)) (ms_name (rq_ms rq))" using rq_slot [OF assms(1)] by (simp add: ms_slot_def)
  have p: "prefix (child_path MBDIR (rq_checksum rq)) (rq_dir rq)" "prefix (rq_dir rq) (conflict_dir (rq_dir rq))"
    by (simp_all add: sl conflict_dir_def child_path_def)
  have "\<not> prefix q (conflict_dir (rq_dir rq))"
  proof -
    have "\<not> prefix (manifest_of (rq_checksum rq)) (conflict_dir (rq_dir rq))"
      using digest_head [OF rq_digest [of rq]] by (auto simp: sl manifest_of_def conflict_dir_def child_path_def)
    moreover have "\<not> prefix (sign (rq_dir rq)) (conflict_dir (rq_dir rq))" by (simp add: sign_def conflict_dir_def child_path_def)
    moreover have "\<not> prefix (conflict_list (rq_dir rq)) (conflict_dir (rq_dir rq))"
      using prefix_length_le by (fastforce simp: conflict_list_def child_path_def)
    ultimately show ?thesis using assms(2) by (auto simp: touched_def)
  qed
  then show "\<not> prefix q (child_path MBDIR (rq_checksum rq))" "\<not> prefix q (rq_dir rq)" "\<not> prefix q (conflict_dir (rq_dir rq))"
    using p prefix_order.trans by blast+
qed

text \<open>A request that is registered and admitted where there are no other files, and starts.\<close>

lemma sound_serviceD:
  assumes "sound_service E s"
  shows "manifests_wf E (disk s)" "dirs_made E (disk s)" "rq \<in> set (known s) \<Longrightarrow> project_listed E (disk s) (rq_checksum rq)"
    "rq \<in> set (admitted s) \<Longrightarrow> listed E (disk s) (rq_checksum rq) (ms_name (rq_ms rq))"
  using assms by (auto simp: sound_service_def)

lemma can_register:
  assumes "sound_env E" "reachable E s" "plain_name (ms_name (rq_ms rq))" "files_in (touched rq) (disk s)" "disk s (sign (rq_dir rq)) = None"
  shows "\<exists>st. service_step E s (s\<lparr>disk := st, known := known s @ [rq]\<rparr>) \<and> files_in (touched rq) st \<and> st (sign (rq_dir rq)) = None"
proof -
  obtain r st where r: "rq_register E rq (disk s) = (r, st)" by (metis surj_pair)
  note wf = sound_serviceD [OF reachable_sound [OF assms(2,1)]]
  have "files_in (touched rq) st" "r = Inr True"
    using register_files [OF assms(1) wf(1) r assms(4)] touched_free(1) [OF assms(3)] by (auto simp: touched_def)
  moreover have "st (sign (rq_dir rq)) = None"
    using register_none [OF assms(1) wf(1) r assms(5)] touched_free(1) [OF assms(3)] manifest_sign [OF rq_digest rq_digest, THEN not_sym]
    by (auto simp: touched_def rq_slot assms(3))
  ultimately show ?thesis using service_step.register [OF assms(3), of E s True st] r by auto
qed

lemma can_admit:
  assumes "sound_env E" "reachable E s" "plain_name (ms_name (rq_ms rq))" "files_in (touched rq) (disk s)" "disk s (sign (rq_dir rq)) = None"
    "rq \<in> set (known s)"
  shows "\<exists>st. service_step E s (s\<lparr>disk := st, known := remove1 rq (known s), admitted := admitted s @ [rq]\<rparr>) \<and>
    files_in (touched rq) st \<and> st (sign (rq_dir rq)) = None"
proof -
  obtain r st where r: "rq_admit E rq (disk s) = (r, st)" by (metis surj_pair)
  note wf = sound_serviceD [OF reachable_sound [OF assms(2,1)]]
  have "files_in (touched rq) st" "r = Inr True"
    using admit_files [OF assms(1) wf(1) r assms(3) wf(3) [OF assms(6)] assms(4)] touched_free(2) [OF assms(3)] assms(5) by (auto simp: touched_def)
  moreover have "st (sign (rq_dir rq)) = None"
    using admit_none [OF assms(1) wf(1) r assms(3) wf(3) [OF assms(6)] assms(5)] touched_free(2) [OF assms(3)] manifest_sign [OF rq_digest rq_digest, THEN not_sym]
    by (auto simp: touched_def rq_slot assms(3))
  ultimately show ?thesis using service_step.admit [OF assms(6), of E True st] r by auto
qed

lemma can_start:
  assumes "sound_env E" "reachable E s" "plain_name (ms_name (rq_ms rq))" "files_in (touched rq) (disk s)" "rq \<in> set (admitted s)"
    "thread_starts E" "filter is_cpp_file (rq_files rq) \<noteq> []"
  shows "\<exists>st m. service_step E s (s\<lparr>disk := st, admitted := remove1 rq (admitted s), jobs := jobs s @ [m]\<rparr>) \<and>
    files_in (touched rq) st \<and> mergeScenarioPath m = rq_dir rq"
proof -
  obtain r st where r: "rq_resolve E rq (disk s) = (r, st)" by (metis surj_pair)
  note wf = sound_serviceD [OF reachable_sound [OF assms(2,1)]]
  note c = resolve_cases [OF assms(3) listed_dir [OF wf(2) assms(3) wf(4) [OF assms(5)]] r assms(1), of "touched rq"]
  obtain m where m: "r = Inr m" "files_in (touched rq) st"
    using c assms(4,6,7) touched_free(3) [OF assms(3)] by (auto simp: touched_def)
  then have "mergeScenarioPath m = rq_dir rq" using c by (auto simp: manager_dir rq_dir_def)
  then show ?thesis using service_step.start [OF assms(5), of E m st] r m by auto
qed

lemma fresh_service:
  "rooted Map.empty" "files_in F (disk (booted Map.empty))" "disk (booted Map.empty) (sign d) = None \<or> sign d = MBDIR"
  "known (booted Map.empty) = []" "admitted (booted Map.empty) = []" "jobs (booted Map.empty) = []"
  by (simp_all add: rooted_def booted_def initMergebot_def fs_exists_def files_in_def)

lemma sign_not_MBDIR: "sign (ms_slot cs n) \<noteq> MBDIR"
  by (simp add: sign_def ms_slot_def child_path_def)

lemma admitted_reached:
  assumes "sound_env E" and "plain_name (ms_name (rq_ms rq))"
  shows "\<exists>s. serially E s \<and> known s = [] \<and> admitted s = [rq] \<and> jobs s = [] \<and> files_in (touched rq) (disk s)"
proof -
  let ?s0 = "booted Map.empty"
  have s0: "serially E ?s0" by (rule serially.boot [OF fresh_service(1)])
  have n0: "disk ?s0 (sign (rq_dir rq)) = None" using fresh_service(3) sign_not_MBDIR by (auto simp: rq_slot assms(2))
  obtain st1 where s1: "service_step E ?s0 (?s0\<lparr>disk := st1, known := known ?s0 @ [rq]\<rparr>)" and f1: "files_in (touched rq) st1" "st1 (sign (rq_dir rq)) = None"
    using can_register [OF assms(1) serially_reachable [OF s0] assms(2) fresh_service(2) n0] by blast
  let ?s1 = "?s0\<lparr>disk := st1, known := [rq]\<rparr>"
  have r1: "serially E ?s1" using serially.step [OF s0 s1] by (simp add: fresh_service)
  obtain st2 where s2: "service_step E ?s1 (?s1\<lparr>disk := st2, known := remove1 rq (known ?s1), admitted := admitted ?s1 @ [rq]\<rparr>)"
    and f2: "files_in (touched rq) st2"
    using can_admit [OF assms(1) serially_reachable [OF r1] assms(2), of] f1 by auto
  show ?thesis
    by (rule exI [of _ "?s1\<lparr>disk := st2, known := [], admitted := [rq]\<rparr>"])
      (use serially.step [OF r1 s2] f2 in \<open>simp add: fresh_service\<close>)
qed

lemma started_reached:
  assumes "sound_env E" "plain_name (ms_name (rq_ms rq))" "thread_starts E" "filter is_cpp_file (rq_files rq) \<noteq> []"
  shows "\<exists>s m. serially E s \<and> known s = [] \<and> admitted s = [] \<and> jobs s = [m] \<and> mergeScenarioPath m = rq_dir rq"
proof -
  obtain s where s: "serially E s" "known s = []" "admitted s = [rq]" "jobs s = []" "files_in (touched rq) (disk s)"
    using admitted_reached [OF assms(1,2)] by blast
  obtain st m where m: "service_step E s (s\<lparr>disk := st, admitted := remove1 rq (admitted s), jobs := jobs s @ [m]\<rparr>)" "mergeScenarioPath m = rq_dir rq"
    using can_start [OF assms(1) serially_reachable [OF s(1)] assms(2) s(5) _ assms(3,4)] s(3) by auto
  show ?thesis
    by (rule exI [of _ "s\<lparr>disk := st, admitted := [], jobs := [m]\<rparr>"], rule exI [of _ m])
      (use serially.step [OF s(1) m(1)] m(2) s in simp)
qed

subsection \<open>Runs\<close>



text \<open>
  C21: Requests at the same time can start two resolutions of one merge scenario: between the check of the running sign and its creation
  a second request passes the check.
\<close>

theorem concurrent_requests_race:
  "\<exists>s m m'. reachable demo_service s \<and> jobs s = [m, m'] \<and> mergeScenarioPath m = mergeScenarioPath m'"
proof -
  let ?q = demo_request and ?E = demo_service and ?s0 = "booted Map.empty"
  note F = demo_request_facts
  have s0: "reachable ?E ?s0" by (rule reachable.boot [OF fresh_service(1)])
  have n0: "disk ?s0 (sign (rq_dir ?q)) = None" using fresh_service(3) sign_not_MBDIR by (auto simp: rq_slot F(1))
  obtain st1 where s1: "service_step ?E ?s0 (?s0\<lparr>disk := st1, known := known ?s0 @ [?q]\<rparr>)" and f1: "files_in (touched ?q) st1" "st1 (sign (rq_dir ?q)) = None"
    using can_register [OF demo_sound s0 F(1) fresh_service(2) n0] by blast
  let ?s1 = "?s0\<lparr>disk := st1, known := [?q]\<rparr>"
  have r1: "reachable ?E ?s1" using reachable.step [OF s0 s1] by (simp add: fresh_service)
  obtain st2 where s2: "service_step ?E ?s1 (?s1\<lparr>disk := st2, known := known ?s1 @ [?q]\<rparr>)" and f2: "files_in (touched ?q) st2" "st2 (sign (rq_dir ?q)) = None"
    using can_register [OF demo_sound r1 F(1)] f1 by auto
  let ?s2 = "?s1\<lparr>disk := st2, known := [?q, ?q]\<rparr>"
  have r2: "reachable ?E ?s2" using reachable.step [OF r1 s2] by simp
  obtain st3 where s3: "service_step ?E ?s2 (?s2\<lparr>disk := st3, known := remove1 ?q (known ?s2), admitted := admitted ?s2 @ [?q]\<rparr>)"
    and f3: "files_in (touched ?q) st3" "st3 (sign (rq_dir ?q)) = None"
    using can_admit [OF demo_sound r2 F(1)] f2 by auto
  let ?s3 = "?s2\<lparr>disk := st3, known := [?q], admitted := [?q]\<rparr>"
  have r3: "reachable ?E ?s3" using reachable.step [OF r2 s3] by (simp add: fresh_service)
  obtain st4 where s4: "service_step ?E ?s3 (?s3\<lparr>disk := st4, known := remove1 ?q (known ?s3), admitted := admitted ?s3 @ [?q]\<rparr>)"
    and f4: "files_in (touched ?q) st4"
    using can_admit [OF demo_sound r3 F(1)] f3 by auto
  let ?s4 = "?s3\<lparr>disk := st4, known := [], admitted := [?q, ?q]\<rparr>"
  have r4: "reachable ?E ?s4" using reachable.step [OF r3 s4] by simp
  obtain st5 m where s5: "service_step ?E ?s4 (?s4\<lparr>disk := st5, admitted := remove1 ?q (admitted ?s4), jobs := jobs ?s4 @ [m]\<rparr>)"
    and f5: "files_in (touched ?q) st5" "mergeScenarioPath m = rq_dir ?q"
    using can_start [OF demo_sound r4 F(1) _ _ F(3,2)] f4 by auto
  let ?s5 = "?s4\<lparr>disk := st5, admitted := [?q], jobs := [m]\<rparr>"
  have r5: "reachable ?E ?s5" using reachable.step [OF r4 s5] by (simp add: fresh_service)
  obtain st6 m' where s6: "service_step ?E ?s5 (?s5\<lparr>disk := st6, admitted := remove1 ?q (admitted ?s5), jobs := jobs ?s5 @ [m']\<rparr>)"
    and f6: "mergeScenarioPath m' = rq_dir ?q"
    using can_start [OF demo_sound r5 F(1) _ _ F(3,2)] f5 by auto
  show ?thesis
    by (rule exI [of _ "?s5\<lparr>disk := st6, admitted := [], jobs := [m, m']\<rparr>"], rule exI [of _ m], rule exI [of _ m'])
      (use reachable.step [OF r5 s6] f5 f6 in simp)
qed



lemma check_listed:
  assumes "sound_env E" "dirs_made E st" "plain_name (ms_name ms)" "listed E st (calcProjChecksum project path) (ms_name ms)"
  shows "checkMSMetadata E project path ms st = (Inr True, st)"
proof -
  let ?cs = "calcProjChecksum project path"
  have h: "hex_digest ?cs" by (rule calc_digest)
  obtain ps p where ps: "holds E st ?cs ps" "find (of_project ?cs) ps = Some p" "list_ex (\<lambda>m. ms_name m = ms_name ms) (pr_mss p)"
    using assms(4) by (auto simp: listed_def)
  have d: "st (child_path MBDIR ?cs) = Some Directory" "st (child_path (child_path MBDIR ?cs) (ms_name ms)) = Some Directory"
    using assms(2-4) h by (simp_all add: dirs_made_def ms_slot_def)
  have dp: "dir_path (child_path MBDIR ?cs)" "dir_path (child_path (child_path MBDIR ?cs) (ms_name ms))"
    by (simp_all add: dir_path_child dir_path_MBDIR digest_plain h assms(3))
  have e: "fs_exists st (project_dir project path)" "fs_exists st (scenario_dir project path ms)" "fs_exists st (manifest_path project path)"
    using d dp ps(1) by (auto simp: paths assms(3) fs_exists_def bare_dir_path bare_manifest [OF h] holds_def)
  show ?thesis
    using e read_manifest_holds [OF assms(1) h ps(1)] ps(2,3)
    by (simp add: checkMSMetadata_def Let_def bind_action_def check_action_def return_action_def paths(1))
qed



definition continues :: "service_env \<Rightarrow> service \<Rightarrow> service \<Rightarrow> bool" where
  "continues E s s' \<longleftrightarrow> service_step E s s' \<and> s' \<noteq> booted (disk s)"

lemma blocked_steps:
  assumes "sound_env E" and "(continues E)\<^sup>*\<^sup>* s s'" and "sound_service E s" and "blocked E s rq"
  shows "sound_service E s' \<and> blocked E s' rq"
  using assms(2-4)
proof induction
  case (step s1 s2)
  then show ?case using step_sound [OF assms(1)] blocked_stays [OF assms(1)] unfolding continues_def by blast
qed simp

lemma failing_diff:
  assumes "sound_env E" "plain_name (ms_name (rq_ms rq))" "st (rq_dir rq) = Some Directory" "rq_files rq = []"
    "shell (env E) (''(cd '' @ rq_path rq @ '' && git diff --name-only --diff-filter=U)'') = Inl e"
  shows "\<exists>st'. rq_resolve E rq st = (Inl (App ''S1000''), st') \<and> st' (sign (rq_dir rq)) \<noteq> None"
proof -
  obtain st1 where "setRunningSign E (project_dir (rq_project rq) (rq_path rq)) (ms_name (rq_ms rq)) st = (Inr (), st1)" "st1 (sign (rq_dir rq)) \<noteq> None"
    using sign_set [where st = st and rq = rq, OF assms(2,3,1)] by metis
  then show ?thesis using assms(4,5) by (simp add: rq_resolve_def goResolve_def Let_def bind_action_def list_conflicts_def throw_action_def)
qed



subsection \<open>The results that are shown\<close>

text \<open>A text whose last line is ended.\<close>

definition ended :: "string \<Rightarrow> string" where
  "ended s = (if s = [] \<or> last s = NL then s else s @ [NL])"

lemma ended_append: "ended (a @ NL # r) = a @ NL # ended r"
  by (cases r rule: rev_cases) (auto simp: ended_def)

lemma string_spilt_lines: "concat (map (\<lambda>l. l @ [NL]) (string_spilt s [NL] True)) = ended s"
proof (induction s "[NL]" True rule: string_spilt.induct)
  case (1 str)
  show ?case
  proof (cases "str = []")
    case False
    show ?thesis
    proof (cases "find_idx (\<lambda>c. c = NL) str")
      case None
      then have "\<forall>x \<in> set str. x \<noteq> NL" by (simp add: find_idx_None_iff)
      then have "last str \<noteq> NL" using False by simp
      then show ?thesis using False None by (subst string_spilt.simps) (simp add: ended_def)
    next
      case (Some k)
      then have k: "k < length str" "str ! k = NL" using find_idx_SomeD [of "\<lambda>c. c = NL" str k] by simp_all
      have e: "str = take k str @ NL # drop (Suc k) str" using id_take_nth_drop [OF k(1)] k(2) by simp
      have "ended str = take k str @ NL # ended (drop (Suc k) str)"
        using arg_cong [OF e, of ended] by (simp only: ended_append)
      then show ?thesis using 1 False Some by (subst string_spilt.simps) simp
    qed
  qed (simp add: string_spilt.simps ended_def)
qed

lemma gets_prefix: "gets s = take (length (gets s)) s"
  by (auto simp: gets_def Let_def min_def split: option.splits)

lemma merged_loop_all: "CHR 0x00 \<notin> set s \<Longrightarrow> merged_loop s = s"
proof (induction s rule: merged_loop.induct)
  case (1 s)
  show ?case
  proof (cases "gets s = []")
    case True
    then have "s = []" by (cases s) (auto simp: gets_def Let_def split: option.splits if_splits)
    then show ?thesis using True by (subst merged_loop.simps) simp
  next
    case False
    have "c_string (gets s) = gets s" using gets_prefix [of s] 1(2) by (metis c_string_id in_set_takeD)
    moreover have "merged_loop (drop (length (gets s)) s) = drop (length (gets s)) s" using 1 False by (meson in_set_dropD)
    ultimately show ?thesis using False gets_prefix [of s] by (subst merged_loop.simps) (metis append_take_drop_id)
  qed
qed

definition resolution_path :: "service_env \<Rightarrow> string \<Rightarrow> string \<Rightarrow> MergeScenario \<Rightarrow> string \<Rightarrow> string" where
  "resolution_path E project path ms src =
     path_join (path_join (scenario_dir project path ms) ''resolutions'') (pathToName (normalized_file E src path))"

definition merged_path :: "service_env \<Rightarrow> string \<Rightarrow> string \<Rightarrow> MergeScenario \<Rightarrow> string \<Rightarrow> string" where
  "merged_path E project path ms src = path_join (path_join (scenario_dir project path ms) ''merged'') (normalized_file E src path)"


definition demo_view :: service_env where
  "demo_view = demo_service\<lparr>env := demo_run\<lparr>lib := (lib demo_run)\<lparr>accept := \<lambda>_. True,
     of_json := \<lambda>_. Some \<lparr>filepath = ''a.c'', resolutions = [\<lparr>index = 1, desc = [], code = ''x'' @ [NL] @ ''y'', confidence = 1\<rparr>]\<rparr>\<rparr>\<rparr>\<rparr>"


end
